(* ===== verification/Prelude.thy ===== *)
theory Prelude
  imports Main "HOL-Library.Word"
begin

text \<open>
  What every component shares: the machine types of the C code, byte buffers, the fact
  collections the component proofs draw on, and the generic machinery (a bounded emitter
  and a token bucket) that the flow tables and the rate budget instantiate.
\<close>

unbundle bit_operations_syntax

section \<open>Machine types and byte buffers\<close>

type_synonym u8 = "8 word"
type_synonym u16 = "16 word"
type_synonym u32 = "32 word"
type_synonym u64 = "64 word"

text \<open>
  A buffer filled by a helper is read byte by byte: \<open>b i\<close> is byte \<open>i\<close>.
  A buffer the code writes to is a list, and \<open>blit i ys xs\<close> is
  \<open>memcpy(xs + i, ys, length ys)\<close> for a range inside the buffer.
\<close>

type_synonym buf = "nat \<Rightarrow> u8"

definition bytes_of :: "buf \<Rightarrow> nat \<Rightarrow> nat \<Rightarrow> u8 list" where
  "bytes_of b i n = map (\<lambda>j. b (i + j)) [0..<n]"

definition blit :: "nat \<Rightarrow> 'a list \<Rightarrow> 'a list \<Rightarrow> 'a list" where
  "blit i ys xs = take i xs @ ys @ drop (i + length ys) xs"

named_theorems size_simps \<open>lengths of the buffers the code builds\<close>
named_theorems step_defs \<open>definitions of the state-changing operations\<close>

lemma length_bytes_of [simp, size_simps]: "length (bytes_of b i n) = n"
  by (simp add: bytes_of_def)

lemma nth_bytes_of [simp]: "j < n \<Longrightarrow> bytes_of b i n ! j = b (i + j)"
  by (simp add: bytes_of_def)

lemma length_blit [size_simps]: "i + length ys \<le> length xs \<Longrightarrow> length (blit i ys xs) = length xs"
  by (simp add: blit_def)

lemma nth_blit:
  assumes "i + length ys \<le> length xs" and "j < length xs"
  shows "blit i ys xs ! j = (if i \<le> j \<and> j < i + length ys then ys ! (j - i) else xs ! j)"
  using assms by (auto simp: blit_def nth_append)

lemma blit_same: "i + n \<le> length xs \<Longrightarrow> blit i (take n (drop i xs)) xs = xs"
  by (rule nth_equalityI) (auto simp: size_simps nth_blit)

lemma blit_blit:
  "i + length ys \<le> length xs \<Longrightarrow> length zs = length ys \<Longrightarrow> blit i zs (blit i ys xs) = blit i zs xs"
  by (simp add: blit_def)

section \<open>Word arithmetic without wrap-around\<close>

lemma unat_add_small:
  fixes a b :: "'a::len word"
  shows "unat a + unat b < 2 ^ LENGTH('a) \<Longrightarrow> unat (a + b) = unat a + unat b"
  by (simp add: unat_add_lem)

lemma unat_mult_small:
  fixes a b :: "'a::len word"
  shows "unat a * unat b < 2 ^ LENGTH('a) \<Longrightarrow> unat (a * b) = unat a * unat b"
  by (simp add: unat_mult_lem)

lemma unat_sub_small:
  fixes a b :: "'a::len word"
  shows "b \<le> a \<Longrightarrow> unat (a - b) = unat a - unat b"
  by (rule unat_sub)

lemma unat_u8: "unat (x::u8) < 256"
  using unsigned_less [of x, where 'a = nat] by simp

lemma unat_u16: "unat (x::u16) < 65536"
  using unsigned_less [of x, where 'a = nat] by simp

lemma unat_u32: "unat (x::u32) < 4294967296"
  using unsigned_less [of x, where 'a = nat] by simp

lemma unat_ucast_up:
  "LENGTH('a) \<le> LENGTH('b) \<Longrightarrow> unat (ucast (w :: 'a::len word) :: 'b::len word) = unat w"
  by (simp add: unsigned_ucast_eq take_bit_nat_eq_self_iff)
   (metis unsigned_less order_less_le_trans power_increasing one_le_numeral)

lemma or_eq_plus:
  fixes a b :: "'a::len word"
  assumes "\<And>i. bit b i \<Longrightarrow> i < n"
  shows "push_bit n a OR b = a * 2 ^ n + b"
proof -
  have "push_bit n a AND b = 0"
    by (rule bit_eqI) (auto simp: bit_simps dest: assms)
  from disjunctive_add_eq_or [OF this, symmetric] show ?thesis
    by (simp add: push_bit_eq_mult)
qed

lemma unat_and_mask:
  fixes x :: "'a::len word"
  shows "unat (x AND mask n) = unat x mod 2 ^ n"
  by (simp add: take_bit_eq_mask [symmetric] unsigned_take_bit_eq) (simp add: take_bit_eq_mod)

lemma unat_and_not_mask:
  fixes x :: "'a::len word"
  shows "unat (x AND NOT (mask n)) = unat x - unat x mod 2 ^ n"
proof -
  have "(x AND mask n) AND (x AND NOT (mask n)) = 0"
    by (rule bit_eqI) (auto simp: bit_simps)
  from disjunctive_add_eq_or [OF this] have *: "x AND mask n = x - (x AND NOT (mask n))"
    by (simp add: bit.conj_disj_distrib [symmetric] algebra_simps)
  have le: "x AND NOT (mask n) \<le> x" by (rule word_and_le2) 
  then have "unat (x AND mask n) = unat x - unat (x AND NOT (mask n))"
    unfolding * by (rule unat_sub)
  moreover have "unat (x AND NOT (mask n)) \<le> unat x" using le by (simp add: word_le_nat_alt)
  ultimately show ?thesis by (simp add: unat_and_mask)
qed

lemma u8_masks:
  fixes x :: u8
  shows "unat (x AND 240) = unat x - unat x mod 16" "unat (x AND 192) = unat x - unat x mod 64"
    "unat (x AND 254) = unat x - unat x mod 2" "unat (x AND 224) = unat x - unat x mod 32"
proof -
  have m: "NOT (mask 4) = (240::u8)" "NOT (mask 6) = (192::u8)" "NOT (mask 1) = (254::u8)"
    "NOT (mask 5) = (224::u8)"
    by (simp_all add: mask_eq_exp_minus_1)
  show "unat (x AND 240) = unat x - unat x mod 16"
    using unat_and_not_mask [of x 4, unfolded m] by simp
  show "unat (x AND 192) = unat x - unat x mod 64"
    using unat_and_not_mask [of x 6, unfolded m] by simp
  show "unat (x AND 254) = unat x - unat x mod 2"
    using unat_and_not_mask [of x 1, unfolded m] by simp
  show "unat (x AND 224) = unat x - unat x mod 32"
    using unat_and_not_mask [of x 5, unfolded m] by simp
qed

section \<open>Runs of a step function and bounded emitters\<close>

text \<open>
  A step function reads an input and a state and may emit an output. \<open>outputs\<close> collects what
  a run over a list of inputs emits; \<open>never\<close> says that no step of the run meets a condition.
\<close>

fun outputs :: "('i \<Rightarrow> 's \<Rightarrow> 'o option \<times> 's) \<Rightarrow> 'i list \<Rightarrow> 's \<Rightarrow> 'o list" where
  "outputs step [] s = []"
| "outputs step (i # is) s =
     (case step i s of (out, s') \<Rightarrow> (case out of None \<Rightarrow> [] | Some x \<Rightarrow> [x]) @ outputs step is s')"

fun never :: "('i \<Rightarrow> 's \<Rightarrow> bool) \<Rightarrow> ('i \<Rightarrow> 's \<Rightarrow> 'o option \<times> 's) \<Rightarrow> 'i list \<Rightarrow> 's \<Rightarrow> bool" where
  "never C step [] s \<longleftrightarrow> True"
| "never C step (i # is) s \<longleftrightarrow> \<not> C i s \<and> never C step is (snd (step i s))"

text \<open>
  The contract of both flow tables: what a flow may still emit never grows, and each output
  spends some of it, until a step restarts the flow.
\<close>

locale quota =
  fixes step :: "'i \<Rightarrow> 's \<Rightarrow> 'o option \<times> 's"
    and left :: "'s \<Rightarrow> nat"
    and restarts :: "'i \<Rightarrow> 's \<Rightarrow> bool"
  assumes spends: "\<not> restarts i s \<Longrightarrow> step i s = (Some x, s') \<Longrightarrow> left s' < left s"
    and keeps: "\<not> restarts i s \<Longrightarrow> step i s = (None, s') \<Longrightarrow> left s' \<le> left s"
begin

lemma bounded: "never restarts step is s \<Longrightarrow> length (outputs step is s) \<le> left s"
proof (induction "is" arbitrary: s)
  case (Cons i "is")
  obtain out s' where st: "step i s = (out, s')" by fastforce
  with Cons have "length (outputs step is s') \<le> left s'" "\<not> restarts i s" by simp_all
  then show ?case
    using spends [of i s _ s'] keeps [of i s s'] st by (cases out) fastforce+
qed simp

lemma exhausted: "never restarts step is s \<Longrightarrow> left s = 0 \<Longrightarrow> outputs step is s = []"
  using bounded [of "is" s] by simp

end

text \<open>Outputs that carry a time and keep a minimal distance.\<close>

locale paced = quota step left restarts
  for step :: "'i \<Rightarrow> 's \<Rightarrow> 'o option \<times> 's" and left :: "'s \<Rightarrow> nat" and restarts :: "'i \<Rightarrow> 's \<Rightarrow> bool" +
  fixes time :: "'o \<Rightarrow> u64"
    and latest :: "'s \<Rightarrow> u64 option"
    and gap :: u64
  assumes stamps: "\<not> restarts i s \<Longrightarrow> step i s = (Some x, s') \<Longrightarrow>
      latest s' = Some (time x) \<and> (\<forall>t. latest s = Some t \<longrightarrow> gap \<le> time x - t)"
    and holds: "\<not> restarts i s \<Longrightarrow> step i s = (None, s') \<Longrightarrow> latest s' = latest s \<or> left s' = 0"
begin

lemma spaced:
  "never restarts step is s \<Longrightarrow> successively (\<lambda>x y. gap \<le> time y - time x) (outputs step is s) \<and>
    (\<forall>t x xs. latest s = Some t \<and> outputs step is s = x # xs \<longrightarrow> gap \<le> time x - t)"
proof (induction "is" arbitrary: s)
  case (Cons i "is")
  obtain out s' where st: "step i s = (out, s')" by fastforce
  with Cons.prems have no: "\<not> restarts i s" and rest: "never restarts step is s'" by simp_all
  note ih = Cons.IH [OF rest]
  show ?case
  proof (cases out)
    case None
    with holds [OF no] st have "latest s' = latest s \<or> outputs step is s' = []"
      using exhausted [OF rest] by auto
    with ih st None show ?thesis by auto
  next
    case (Some x)
    with stamps [OF no] st have l: "latest s' = Some (time x)" "\<forall>t. latest s = Some t \<longrightarrow> gap \<le> time x - t"
      by auto
    from ih l(1) have "successively (\<lambda>x y. gap \<le> time y - time x) (x # outputs step is s')"
      by (cases "outputs step is s'") auto
    with l(2) st Some show ?thesis by simp
  qed
qed simp

end

text \<open>
  The contract of a rate limiter: what is granted is paid from a level that grows by at most
  \<open>rate\<close> per unit of time and never exceeds \<open>cap\<close>. Times are those of the inputs.
\<close>

locale limiter =
  fixes step :: "'i \<Rightarrow> 's \<Rightarrow> 'o option \<times> 's"
    and good :: "'i \<Rightarrow> bool"
    and time :: "'i \<Rightarrow> nat"
    and inv :: "'s \<Rightarrow> bool"
    and level :: "'s \<Rightarrow> nat"
    and clock :: "'s \<Rightarrow> nat"
    and cost :: nat and rate :: nat and cap :: nat
  assumes keeps_inv: "inv s \<Longrightarrow> good i \<Longrightarrow> step i s = (out, s') \<Longrightarrow> inv s' \<and> clock s' = time i"
    and pays: "inv s \<Longrightarrow> good i \<Longrightarrow> clock s \<le> time i \<Longrightarrow> step i s = (out, s') \<Longrightarrow>
      level s' + (if out = None then 0 else cost) \<le> level s + rate * (time i - clock s)"
    and capped: "inv s \<Longrightarrow> good i \<Longrightarrow> step i s = (out, s') \<Longrightarrow>
      level s' + (if out = None then 0 else cost) \<le> cap"
begin

lemma paid:
  "inv s \<Longrightarrow> \<forall>i \<in> set is. good i \<Longrightarrow> sorted (clock s # map time is) \<Longrightarrow>
    cost * length (outputs step is s) \<le> level s + rate * (last (clock s # map time is) - clock s)"
proof (induction "is" arbitrary: s)
  case (Cons i "is")
  obtain out s' where st: "step i s = (out, s')" by fastforce
  note g = Cons.prems(2) [simplified, THEN conjunct1]
  note k = keeps_inv [OF Cons.prems(1) g st]
  have le: "clock s \<le> time i" and srt: "sorted (clock s' # map time is)"
    using Cons.prems(3) k by simp_all
  let ?l = "last (time i # map time is)"
  have "?l \<in> set (time i # map time is)" by (rule last_in_set) simp
  then have last: "time i \<le> ?l" using Cons.prems(3) by auto
  have "cost * length (outputs step is s') \<le> level s' + rate * (?l - time i)"
    using Cons.IH [OF _ _ srt] k Cons.prems(2) by simp
  moreover have "level s' + (if out = None then 0 else cost) \<le> level s + rate * (time i - clock s)"
    by (rule pays [OF Cons.prems(1) g le st])
  moreover have "rate * (?l - clock s) = rate * (?l - time i) + rate * (time i - clock s)"
    using le last by (metis add_mult_distrib2 diff_add_assoc2 le_add_diff_inverse2 add.commute diff_add_inverse2 le_add_diff_inverse)
  ultimately show ?case using st by (cases out) auto
qed simp

text \<open>In every interval, from any reachable level: the cap plus what accrues in between.\<close>

lemma rate_bound:
  assumes "inv s" and "\<forall>j \<in> set (i # is). good j" and "sorted (map time (i # is))"
  shows "cost * length (outputs step (i # is) s) \<le> cap + rate * (time (last (i # is)) - time i)"
proof -
  obtain out s' where st: "step i s = (out, s')" by fastforce
  have g: "good i" using assms(2) by simp
  note k = keeps_inv [OF assms(1) g st]
  have "cost * length (outputs step is s') \<le> level s' + rate * (last (clock s' # map time is) - clock s')"
    by (rule paid) (use k assms in simp_all)
  moreover have "last (clock s' # map time is) = time (last (i # is))"
    using k by (simp add: last_map)
  ultimately show ?thesis using capped [OF assms(1) g st] st k by (cases out) auto
qed

end

text \<open>
  What a component leaves alone: a relation between the state before and after that every one of its
  operations keeps, however many of them run.
\<close>

locale frame =
  fixes same :: "'s \<Rightarrow> 's \<Rightarrow> bool"
  assumes same_refl: "same s s"
    and same_trans: "same a b \<Longrightarrow> same b c \<Longrightarrow> same a c"
begin

lemma fold_same: "(\<And>i s. same s (f i s)) \<Longrightarrow> same s (fold f ns s)"
proof (induction ns arbitrary: s)
  case (Cons i ns)
  from same_trans [OF Cons.prems Cons.IH [OF Cons.prems]] show ?case by simp
qed (simp add: same_refl)

lemma steps_same:
  assumes "\<And>a b. step a b \<Longrightarrow> same a b" and "step\<^sup>*\<^sup>* s s'"
  shows "same s s'"
  using assms(2) by induction (auto intro: same_refl same_trans assms(1))

end

text \<open>A property of the state that every step keeps.\<close>

locale preserved =
  fixes step :: "'s \<Rightarrow> 's \<Rightarrow> bool"
    and inv :: "'s \<Rightarrow> bool"
  assumes preserve: "inv s \<Longrightarrow> step s s' \<Longrightarrow> inv s'"
begin

lemma steps: "step\<^sup>*\<^sup>* s s' \<Longrightarrow> inv s \<Longrightarrow> inv s'"
  by (induction rule: rtranclp_induct) (auto intro: preserve)

end

end
