(* ===== verification/Abi.thy ===== *)
theory Abi
  imports Prelude
begin

text \<open>
  \<open>ebpf/include/abi.h\<close>: the constants, enumerations and structures that the daemon and
  the kernel programs share. A C array inside a struct is a list whose length is the
  array's; a 32-bit field that the code tests as a truth value stays a \<open>u32\<close>.
\<close>

definition FF_PAYLOAD_MAX :: nat where "FF_PAYLOAD_MAX = 1200"
definition FF_TEMPLATE_VARIANTS :: u32 where "FF_TEMPLATE_VARIANTS = 32"
definition FF_TCP_RULES_MAX :: u32 where "FF_TCP_RULES_MAX = 3"
definition FF_TEMPLATE_VARIANT_BITS :: nat where "FF_TEMPLATE_VARIANT_BITS = 5"
definition FF_TEMPLATE_PLAN_UDP :: u32 where "FF_TEMPLATE_PLAN_UDP = FF_TCP_RULES_MAX"
definition FF_TEMPLATE_PLAN_COUNT :: u32 where "FF_TEMPLATE_PLAN_COUNT = FF_TCP_RULES_MAX + 1"
definition FF_INTERFACES :: nat where "FF_INTERFACES = 8"
definition FF_NS :: u64 where "FF_NS = 1000000000"
definition FF_REQUEST_NS :: u64 where "FF_REQUEST_NS = 1 * FF_NS"

lemmas abi_consts [simp] =
  FF_PAYLOAD_MAX_def FF_TEMPLATE_VARIANTS_def FF_TCP_RULES_MAX_def FF_TEMPLATE_VARIANT_BITS_def
  FF_TEMPLATE_PLAN_UDP_def FF_TEMPLATE_PLAN_COUNT_def FF_INTERFACES_def FF_NS_def FF_REQUEST_NS_def

definition FF_TEMPLATE_KEY :: "u32 \<Rightarrow> u32 \<Rightarrow> u32 \<Rightarrow> u32" where
  "FF_TEMPLATE_KEY gen plan variant =
     ((gen * FF_TEMPLATE_PLAN_COUNT + plan) * FF_TEMPLATE_VARIANTS) + variant"

datatype ff_mode = FF_ETHERNET | FF_L3 | FF_PPPOE

datatype ff_stat =
    FF_TCP_SYN | FF_TCP_ELIGIBLE | FF_TFO_STRIPPED | FF_SKIP_SYNACK_DATA
  | FF_UDP_NEW | FF_UDP_EARLY | FF_UDP_EXHAUSTED
  | FF_ATTEMPT | FF_BUILD_OK | FF_SUBMIT_OK | FF_CLONE_FAILED | FF_BUILD_FAILED
  | FF_SKIP_PRIVATE | FF_SKIP_NEAR | FF_TTL_UNKNOWN | FF_SKIP_FRAGMENT
  | FF_SKIP_GSO | FF_SKIP_LAYOUT | FF_MAP_FAILED | FF_REQUEST_EXPIRED
  | FF_RATE_LIMITED | FF_LEASE_EXPIRED | FF_INTERNAL | FF_SKIP_AUTH
  | FF_SKIP_MTU | FF_TFO_FAILED
  | FF_SKIP_LEN | FF_SKIP_L2 | FF_SKIP_IPVER | FF_SKIP_IPV4_OPTS | FF_SKIP_PROTO | FF_SKIP_TRUNC

record ff_config =
  c_generation :: u32
  c_tcp_enabled :: u32
  c_udp_enabled :: u32
  c_directions :: u32
  c_strip_tfo :: u32
  c_tcp_batches :: u32
  c_udp_both :: u32
  c_udp_packets :: u32
  c_udp_idle :: u32
  c_ttl :: u32
  c_repeat :: u32
  c_estimate_hops :: u32
  c_percent :: u32
  c_rate :: u32
  c_burst :: u32
  c_allow_private :: u32
  c_rule_map :: "u32 list"
  c_rule_count :: u32
  c_variants :: "u32 list"

text \<open>The array sizes of \<open>struct ff_config\<close>.\<close>

definition config_shape :: "ff_config \<Rightarrow> bool" where
  "config_shape c \<longleftrightarrow> length (c_rule_map c) = 3 \<and> length (c_variants c) = 4"

record ff_interface =
  i_generation :: u32
  i_slot :: u32
  i_mode :: ff_mode
  i_mtu :: u32
  i_builder :: u32

record ff_template =
  t_len :: u32
  t_data :: "u8 list"

record ff_key =
  k_ifindex :: u32
  k_generation :: u32
  k_local :: "u8 list"
  k_remote :: "u8 list"
  k_local_port :: u16
  k_remote_port :: u16
  k_vlan :: "u16 list"
  k_vlan_proto :: "u16 list"
  k_session :: u16
  k_peer :: "u8 list"
  k_family :: u8
  k_protocol :: u8
  k_vlan_count :: u8
  k_pad :: u8

definition zero_key :: ff_key where
  "zero_key = \<lparr>k_ifindex = 0, k_generation = 0, k_local = replicate 16 0, k_remote = replicate 16 0,
     k_local_port = 0, k_remote_port = 0, k_vlan = replicate 2 0, k_vlan_proto = replicate 2 0,
     k_session = 0, k_peer = replicate 6 0, k_family = 0, k_protocol = 0, k_vlan_count = 0, k_pad = 0\<rparr>"

section \<open>The numbering of the counters\<close>

primrec stat_id :: "ff_stat \<Rightarrow> u32" where
  "stat_id FF_TCP_SYN = 0" | "stat_id FF_TCP_ELIGIBLE = 1" | "stat_id FF_TFO_STRIPPED = 2"
| "stat_id FF_SKIP_SYNACK_DATA = 3" | "stat_id FF_UDP_NEW = 4" | "stat_id FF_UDP_EARLY = 5"
| "stat_id FF_UDP_EXHAUSTED = 6" | "stat_id FF_ATTEMPT = 7" | "stat_id FF_BUILD_OK = 8"
| "stat_id FF_SUBMIT_OK = 9" | "stat_id FF_CLONE_FAILED = 10" | "stat_id FF_BUILD_FAILED = 11"
| "stat_id FF_SKIP_PRIVATE = 12" | "stat_id FF_SKIP_NEAR = 13" | "stat_id FF_TTL_UNKNOWN = 14"
| "stat_id FF_SKIP_FRAGMENT = 15" | "stat_id FF_SKIP_GSO = 16" | "stat_id FF_SKIP_LAYOUT = 17"
| "stat_id FF_MAP_FAILED = 18" | "stat_id FF_REQUEST_EXPIRED = 19" | "stat_id FF_RATE_LIMITED = 20"
| "stat_id FF_LEASE_EXPIRED = 21" | "stat_id FF_INTERNAL = 22" | "stat_id FF_SKIP_AUTH = 23"
| "stat_id FF_SKIP_MTU = 24" | "stat_id FF_TFO_FAILED = 25" | "stat_id FF_SKIP_LEN = 26"
| "stat_id FF_SKIP_L2 = 27" | "stat_id FF_SKIP_IPVER = 28" | "stat_id FF_SKIP_IPV4_OPTS = 29"
| "stat_id FF_SKIP_PROTO = 30" | "stat_id FF_SKIP_TRUNC = 31"

lemma stat_id_inject [simp]: "stat_id a = stat_id b \<longleftrightarrow> a = b"
  by (cases a; cases b) simp_all

text \<open>The counters are ordered as the enumeration lists them.\<close>

instantiation ff_stat :: linorder
begin

definition less_eq_ff_stat :: "ff_stat \<Rightarrow> ff_stat \<Rightarrow> bool" where
  "less_eq_ff_stat a b \<longleftrightarrow> stat_id a \<le> stat_id b"

definition less_ff_stat :: "ff_stat \<Rightarrow> ff_stat \<Rightarrow> bool" where
  "less_ff_stat a b \<longleftrightarrow> stat_id a < stat_id b"

instance
proof
  fix a b c :: ff_stat
  show "a < b \<longleftrightarrow> a \<le> b \<and> \<not> b \<le> a"
    by (simp only: less_eq_ff_stat_def less_ff_stat_def less_le_not_le)
  show "a \<le> a"
    by (simp add: less_eq_ff_stat_def)
  show "a \<le> b \<Longrightarrow> b \<le> c \<Longrightarrow> a \<le> c"
    unfolding less_eq_ff_stat_def by (rule order_trans)
  show "a \<le> b \<Longrightarrow> b \<le> a \<Longrightarrow> a = b"
    unfolding less_eq_ff_stat_def by (metis antisym stat_id_inject)
  show "a \<le> b \<or> b \<le> a"
    unfolding less_eq_ff_stat_def by (rule linear)
qed

end

end
