(* ===== verification/Options.thy ===== *)
theory Options
  imports Abi
begin

text \<open>
  \<open>ebpf/user/fakeflow.h\<close>: the options the configuration file is read into, the rules, and the
  plan of each template. C strings are lists of characters without the terminator; a string in
  an array of \<open>n\<close> bytes has at most \<open>n - 1\<close> characters, and \<open>strcpy\<close> checks that where the code
  copies between arrays of different sizes. The arrays \<open>devices\<close> and \<open>rules\<close> are the lists of
  their entries in use; their counts are the lengths.
\<close>

record ff_device =
  d_name :: string
  d_mode :: ff_mode

datatype ff_variant_kind = FF_VARIANT_SAME | FF_VARIANT_PATCH | FF_VARIANT_RENDER

record ff_rand_field =
  rf_off :: nat
  rf_bytes :: nat

record ff_rule =
  r_type :: string
  r_payload :: string
  r_hostname :: string
  r_file :: string
  r_enabled :: u32
  r_tpl :: ff_template

record ff_plan =
  pl_kind :: ff_variant_kind
  pl_variants :: nat
  pl_rand :: "ff_rand_field list"

text \<open>\<open>tcp_template\<close> is a copy of the first enabled rule's template, for readers that want only one.\<close>

record ff_options =
  o_kernel :: ff_config
  o_devices :: "ff_device list"
  o_tcp_entries :: u32
  o_udp_entries :: u32
  o_lease :: u32
  o_tcp_payload :: string
  o_udp_payload :: string
  o_hostname :: string
  o_sip_uri :: string
  o_tcp_file :: string
  o_udp_file :: string
  o_rules :: "ff_rule list"
  o_warning :: string
  o_tcp_template :: ff_template
  o_udp_template :: ff_template
  o_plan :: "ff_plan list"

definition zero_template :: ff_template where
  "zero_template = \<lparr>t_len = 0, t_data = replicate FF_PAYLOAD_MAX 0\<rparr>"

definition zero_rule :: ff_rule where
  "zero_rule = \<lparr>r_type = '''', r_payload = '''', r_hostname = '''', r_file = '''', r_enabled = 0,
     r_tpl = zero_template\<rparr>"

text \<open>The entry \<open>rules[i]\<close> of the array: entries not in use are zero.\<close>

definition rule_at :: "ff_options \<Rightarrow> nat \<Rightarrow> ff_rule" where
  "rule_at op i = (if i < length (o_rules op) then o_rules op ! i else zero_rule)"

text \<open>What reading and rendering can fail with; \<open>Overflow\<close> is a copy past the end of an array.\<close>

datatype config_error =
    CannotOpen
  | BadLine nat
  | IncompleteConfig
  | BadInterfaceName
  | DuplicateInterface string
  | BurstTooSmall
  | TypeRequired nat
  | PayloadRequired nat
  | PayloadNotPath nat
  | HostnameNotBare nat
  | CustomWithSipUri
  | BadPayloadFile
  | BadPayload
  | Overflow

text \<open>Bytes of a string.\<close>

definition string_bytes :: "string \<Rightarrow> u8 list" where
  "string_bytes s = map of_char s"

lemma length_string_bytes [simp, size_simps]: "length (string_bytes s) = length s"
  by (simp add: string_bytes_def)

lemma string_bytes_append [simp]: "string_bytes (s @ t) = string_bytes s @ string_bytes t"
  by (simp add: string_bytes_def)

text \<open>The code of a character, and the tests of \<open>ctype.h\<close> in the C locale.\<close>

definition code :: "char \<Rightarrow> nat" where
  "code c = of_char c"

definition isspace :: "char \<Rightarrow> bool" where
  "isspace c \<longleftrightarrow> code c = 32 \<or> (9 \<le> code c \<and> code c \<le> 13)"

definition isdigit :: "char \<Rightarrow> bool" where
  "isdigit c \<longleftrightarrow> 48 \<le> code c \<and> code c \<le> 57"

end
