(* ===== verification/Templates.thy ===== *)
theory Templates
  imports Options
begin

text \<open>
  \<open>ebpf/user/templates.c\<close>: rendering the payload of each rule, recording where the randomised
  fields of the SIP payload are, and pre-rendering the variants. Files and random numbers come
  from outside: \<open>files path\<close> is the content of a readable file, and a random source \<open>G\<close> returns
  the bytes \<open>getrandom\<close> delivered, fewer than asked for when it failed.
\<close>

type_synonym 'r random = "nat \<Rightarrow> 'r \<Rightarrow> u8 list \<times> 'r"

section \<open>Files and plain text\<close>

definition custom :: "(string \<Rightarrow> u8 list option) \<Rightarrow> string \<Rightarrow> ff_template option" where
  "custom files path =
     (case files path of
        None \<Rightarrow> None
      | Some bs \<Rightarrow>
          if bs = [] \<or> FF_PAYLOAD_MAX < length bs then None
          else Some \<lparr>t_len = of_nat (length bs), t_data = bs @ replicate (FF_PAYLOAD_MAX - length bs) 0\<rparr>)"

definition safe_text :: "string \<Rightarrow> bool" where
  "safe_text s \<longleftrightarrow> s \<noteq> [] \<and> list_all (\<lambda>c. 32 < code c \<and> code c < 127) s"

definition put16 :: "nat \<Rightarrow> u8 list" where
  "put16 n = [of_nat (n div 256), of_nat n]"

section \<open>Random tokens\<close>

definition hex_digit :: "u8 \<Rightarrow> u8" where
  "hex_digit n = (if n < 10 then 48 + n else 87 + n)"

definition hex_raw :: "'r random \<Rightarrow> nat \<Rightarrow> 'r \<Rightarrow> u8 list \<times> 'r" where
  "hex_raw G bytes rs =
     (let bytes = min bytes 32 in
      case G bytes rs of (r, rs) \<Rightarrow>
      let r = (if length r \<noteq> bytes then map (\<lambda>i. of_nat (i * 37 + 11)) [0..<bytes] else r)
      in (concat (map (\<lambda>b. [hex_digit (drop_bit 4 b), hex_digit (b AND 15)]) r), rs))"

definition is_hex :: "u8 \<Rightarrow> bool" where
  "is_hex c \<longleftrightarrow> (48 \<le> c \<and> c \<le> 57) \<or> (97 \<le> c \<and> c \<le> 102)"

section \<open>The TLS ClientHello\<close>

definition FF_TLS_HELLO_BYTES :: nat where "FF_TLS_HELLO_BYTES = 512"

text \<open>Appending at the write position.\<close>

definition put :: "u8 list \<Rightarrow> u8 list \<times> nat \<Rightarrow> u8 list \<times> nat" where
  "put bs = (\<lambda>(p, pos). (blit pos bs p, pos + length bs))"

definition tls_suites :: "u8 list" where
  "tls_suites = [0xc0, 0x2f, 0xc0, 0x2b, 0xc0, 0x30, 0xc0, 0x2c, 0x00, 0x9c, 0x00, 0x9d]"

text \<open>The extensions up to the padding: server name, groups, signature algorithms, point formats, ALPN.\<close>

definition tls_server_name :: "string \<Rightarrow> u8 list" where
  "tls_server_name hostname = (let n = length hostname in
     put16 0 @ put16 (n + 5) @ put16 (n + 3) @ [0] @ put16 n @ string_bytes hostname)"

definition tls_groups :: "u8 list" where
  "tls_groups = put16 10 @ put16 8 @ put16 6 @ put16 0x001d @ put16 0x0017 @ put16 0x0018"

definition tls_signatures :: "u8 list" where
  "tls_signatures = put16 13 @ put16 14 @ put16 12 @ put16 0x0403 @ put16 0x0804 @ put16 0x0401 @
     put16 0x0503 @ put16 0x0805 @ put16 0x0501"

definition tls_formats :: "u8 list" where
  "tls_formats = put16 11 @ put16 2 @ [1, 0]"

definition tls_alpn :: "u8 list" where
  "tls_alpn = put16 16 @ put16 14 @ put16 12 @ [2] @ string_bytes ''h2'' @ [8] @ string_bytes ''http/1.1''"

definition tls :: "'r random \<Rightarrow> string \<Rightarrow> 'r \<Rightarrow> ff_template option \<times> 'r" where
  "tls G hostname rs =
     (let n = length hostname; p = replicate FF_PAYLOAD_MAX 0 in
      if 253 < n then (None, rs)
      else
       (let p = blit 1 (put16 0x0301) (p[0 := 22]);
            p = blit 9 (put16 0x0303) (p[5 := 1])
        in
        case G 32 rs of (random, rs) \<Rightarrow>
        if length random \<noteq> 32 then (None, rs)
        else case G 32 rs of (session, rs) \<Rightarrow>
        if length session \<noteq> 32 then (None, rs)
        else
         (let p = blit 44 session ((blit 11 random p)[43 := 32]);
              (p, pos) = put [1, 0] (put tls_suites (put (put16 (length tls_suites)) (p, 76)));
              extlen_at = pos;
              ext_start = pos + 2;
              (p, pos) = put tls_alpn (put tls_formats (put tls_signatures (put tls_groups
                (put (tls_server_name hostname) (p, ext_start)))))
          in
          if FF_TLS_HELLO_BYTES < pos + 4 then (None, rs)
          else
           (let (p, pos) = put (put16 21) (p, pos);
                (p, pos) = put (put16 (FF_TLS_HELLO_BYTES - pos - 2)) (p, pos);
                pos = FF_TLS_HELLO_BYTES;
                p = blit extlen_at (put16 (pos - ext_start)) p;
                p = blit 3 (put16 (pos - 5)) p;
                p = p[6 := of_nat ((pos - 9) div 65536), 7 := of_nat ((pos - 9) div 256), 8 := of_nat (pos - 9)]
            in (Some \<lparr>t_len = of_nat pos, t_data = p\<rparr>, rs)))))"

section \<open>HTTP and SIP text\<close>

text \<open>\<open>snprintf\<close> into the template's data: the text with its terminator, or a refusal.\<close>

definition text_template :: "string \<Rightarrow> ff_template option" where
  "text_template s =
     (if FF_PAYLOAD_MAX \<le> length s then None
      else Some \<lparr>t_len = of_nat (length s), t_data = string_bytes s @ replicate (FF_PAYLOAD_MAX - length s) 0\<rparr>)"

definition crlf :: string where
  "crlf = [CHR 0x0D, CHR 0x0A]"

definition http_text :: "string \<Rightarrow> string" where
  "http_text hostname =
     ''GET / HTTP/1.1'' @ crlf @ ''Host: '' @ hostname @ crlf @
     ''User-Agent: Mozilla/5.0 (Windows NT 10.0; Win64; x64) '' @
     ''AppleWebKit/537.36 (KHTML, like Gecko) '' @
     ''Chrome/124.0.0.0 Safari/537.36'' @ crlf @
     ''Accept: */*'' @ crlf @ ''Connection: close'' @ crlf @ crlf"

definition http :: "string \<Rightarrow> ff_template option" where
  "http hostname = text_template (http_text hostname)"

text \<open>
  One rule: its template and, for a payload that is rendered anew for each variant, \<open>True\<close>.
  \<open>BadPayloadFile\<close> is the return value -1, \<open>BadPayload\<close> is -2.
\<close>

definition rule_template ::
  "'r random \<Rightarrow> (string \<Rightarrow> u8 list option) \<Rightarrow> ff_rule \<Rightarrow> 'r \<Rightarrow> (config_error + ff_template \<times> bool) \<times> 'r" where
  "rule_template G files r rs =
     (if r_type r = ''custom'' then
        (case custom files (r_file r) of None \<Rightarrow> (Inl BadPayloadFile, rs) | Some t \<Rightarrow> (Inr (t, False), rs))
      else if \<not> safe_text (r_hostname r) then (Inl BadPayload, rs)
      else if r_type r = ''http'' then
        (case http (r_hostname r) of None \<Rightarrow> (Inl BadPayload, rs) | Some t \<Rightarrow> (Inr (t, False), rs))
      else if r_type r = ''tls'' then
        (case tls G (r_hostname r) rs of
           (None, rs) \<Rightarrow> (Inl BadPayload, rs)
         | (Some t, rs) \<Rightarrow> (Inr (t, True), rs))
      else (Inl BadPayload, rs))"

section \<open>The randomised fields\<close>

text \<open>\<open>strstr\<close> on the C string at the start of the data.\<close>

fun find_bytes :: "u8 list \<Rightarrow> u8 list \<Rightarrow> nat option" where
  "find_bytes m [] = (if m = [] then Some 0 else None)"
| "find_bytes m (x # xs) =
     (if take (length m) (x # xs) = m then Some 0 else map_option Suc (find_bytes m xs))"

definition c_string :: "u8 list \<Rightarrow> u8 list" where
  "c_string = takeWhile (\<lambda>b. b \<noteq> 0)"

definition rand_marks :: "(string \<times> nat \<times> nat \<times> u8) list" where
  "rand_marks = [('';branch=z9hG4bK'', 15, 16, 13), ('';tag='', 5, 4, 13), (''Call-ID: '', 9, 16, 64)]"

fun locate_from :: "(string \<times> nat \<times> nat \<times> u8) list \<Rightarrow> ff_template \<Rightarrow> ff_rand_field list option" where
  "locate_from [] t = Some []"
| "locate_from ((m, k, n, e) # fs) t =
     (case find_bytes (string_bytes m) (c_string (t_data t)) of
        None \<Rightarrow> None
      | Some q \<Rightarrow>
          let off = q + k; span = n * 2 in
          if unat (t_len t) \<le> off + span then None
          else if t_data t ! (off + span) \<noteq> e then None
          else if \<not> list_all is_hex (take span (drop off (t_data t))) then None
          else map_option ((#) \<lparr>rf_off = off, rf_bytes = n\<rparr>) (locate_from fs t))"

definition locate :: "ff_template \<Rightarrow> ff_rand_field list option" where
  "locate t = locate_from rand_marks t"

section \<open>Rendering the options\<close>

text \<open>Decimal digits, for \<open>%u\<close> and \<open>%zu\<close>.\<close>

fun decimal :: "nat \<Rightarrow> string" where
  "decimal n = (if n < 10 then [char_of (48 + n)] else decimal (n div 10) @ [char_of (48 + n mod 10)])"

definition sip_user :: "string \<Rightarrow> string" where
  "sip_user u =
     (let ul = (if CHR ''@'' \<in> set u then length (takeWhile (\<lambda>c. c \<noteq> CHR ''@'') u) else 0) in
      if ul = 0 then ''caller'' else take (min ul 127) u)"

definition sip_host :: "string \<Rightarrow> string" where
  "sip_host u =
     (let h = (if CHR ''@'' \<in> set u then tl (dropWhile (\<lambda>c. c \<noteq> CHR ''@'') u) else u) in
      take 255 (takeWhile (\<lambda>c. c \<notin> set '':;>'') h))"

definition sip_body :: "string \<Rightarrow> string" where
  "sip_body host = take 639
     (''v=0'' @ crlf @ ''o=- 1 1 IN IP4 '' @ host @ crlf @ ''s=-'' @ crlf @ ''c=IN IP4 '' @ host @ crlf @
      ''t=0 0'' @ crlf @ ''m=audio 49170 RTP/AVP 0'' @ crlf)"

definition sip_text :: "string \<Rightarrow> string \<Rightarrow> string \<Rightarrow> string \<Rightarrow> string \<Rightarrow> string \<Rightarrow> string" where
  "sip_text uri user host branch tag callid =
     ''INVITE '' @ uri @ '' SIP/2.0'' @ crlf @ ''Via: SIP/2.0/UDP '' @ host @ '':5060;branch=z9hG4bK'' @ branch @ crlf @
     ''Max-Forwards: 70'' @ crlf @ ''From: <sip:'' @ user @ ''@'' @ host @ ''>;tag='' @ tag @ crlf @ ''To: <'' @ uri @ ''>'' @ crlf @
     ''Call-ID: '' @ callid @ ''@'' @ host @ crlf @ ''CSeq: 1 INVITE'' @ crlf @ ''Contact: <sip:'' @ user @ ''@'' @ host @ ''>'' @ crlf @
     ''Content-Type: application/sdp'' @ crlf @ ''Content-Length: '' @ decimal (length (sip_body host)) @ crlf @ crlf @
     sip_body host"

definition bytes_string :: "u8 list \<Rightarrow> string" where
  "bytes_string bs = map (\<lambda>b. char_of (unat b)) bs"

definition zero_plan :: ff_plan where
  "zero_plan = \<lparr>pl_kind = FF_VARIANT_SAME, pl_variants = 1, pl_rand = []\<rparr>"

text \<open>A rendered rule is stored, its plan set, and it joins the rotation's table.\<close>

definition add_rule :: "ff_options \<Rightarrow> nat \<Rightarrow> ff_template \<Rightarrow> bool \<Rightarrow> ff_options" where
  "add_rule op i t again =
     (let c = o_kernel op in
      op\<lparr>o_rules := (o_rules op)[i := (rule_at op i)\<lparr>r_tpl := t\<rparr>],
        o_plan := (if again
          then (o_plan op)[i := \<lparr>pl_kind = FF_VARIANT_RENDER, pl_variants = unat FF_TEMPLATE_VARIANTS, pl_rand = []\<rparr>]
          else o_plan op),
        o_kernel := c\<lparr>c_rule_map := (c_rule_map c)[unat (c_rule_count c) := of_nat i],
          c_rule_count := c_rule_count c + 1\<rparr>\<rparr>)"

text \<open>The rules in configured order, \<open>k\<close> of them from rule \<open>i\<close> on, disabled ones left out.\<close>

fun render_rules ::
  "'r random \<Rightarrow> (string \<Rightarrow> u8 list option) \<Rightarrow> nat \<Rightarrow> nat \<Rightarrow> ff_options \<Rightarrow> 'r \<Rightarrow> (config_error + ff_options) \<times> 'r" where
  "render_rules G files i 0 op rs = (Inr op, rs)"
| "render_rules G files i (Suc k) op rs =
     (if r_enabled (rule_at op i) = 0 then render_rules G files (i + 1) k op rs
      else case rule_template G files (rule_at op i) rs of
        (Inl e, rs) \<Rightarrow> (Inl e, rs)
      | (Inr (t, again), rs) \<Rightarrow>
          render_rules G files (i + 1) k (add_rule op i t again) rs)"

definition udp_template ::
  "'r random \<Rightarrow> (string \<Rightarrow> u8 list option) \<Rightarrow> ff_options \<Rightarrow> 'r \<Rightarrow> (config_error + ff_options) \<times> 'r" where
  "udp_template G files op rs =
     (if o_udp_payload op = ''custom'' then
        (case custom files (o_udp_file op) of
           None \<Rightarrow> (Inl BadPayloadFile, rs)
         | Some t \<Rightarrow> (Inr (op\<lparr>o_udp_template := t\<rparr>), rs))
      else if o_udp_payload op \<noteq> ''sip'' \<or> o_udp_file op \<noteq> [] \<or> \<not> safe_text (o_sip_uri op) \<or>
              take 4 (o_sip_uri op) \<noteq> ''sip:''
      then (Inl BadPayload, rs)
      else
        let u = drop 4 (o_sip_uri op) in
        case hex_raw G 16 rs of (branch, rs) \<Rightarrow>
        case hex_raw G 4 rs of (tag, rs) \<Rightarrow>
        case hex_raw G 16 rs of (callid, rs) \<Rightarrow>
        (case text_template (sip_text (o_sip_uri op) (sip_user u) (sip_host u)
               (bytes_string branch) (bytes_string tag) (bytes_string callid)) of
          None \<Rightarrow> (Inl BadPayload, rs)
        | Some t \<Rightarrow>
            (case locate t of
               None \<Rightarrow> (Inl BadPayload, rs)
             | Some fs \<Rightarrow>
                 (Inr (op\<lparr>o_udp_template := t,
                    o_plan := (o_plan op)[3 := \<lparr>pl_kind = FF_VARIANT_PATCH,
                      pl_variants = unat FF_TEMPLATE_VARIANTS, pl_rand = fs\<rparr>]\<rparr>), rs))))"

definition ff_templates ::
  "'r random \<Rightarrow> (string \<Rightarrow> u8 list option) \<Rightarrow> ff_options \<Rightarrow> 'r \<Rightarrow> (config_error + ff_options) \<times> 'r" where
  "ff_templates G files op rs =
     (let op = op\<lparr>o_tcp_template := zero_template, o_udp_template := zero_template,
            o_plan := replicate 4 zero_plan, o_kernel := (o_kernel op)\<lparr>c_rule_count := 0\<rparr>\<rparr>
      in
      case render_rules G files 0 (min (length (o_rules op)) 3) op rs of
        (Inl e, rs) \<Rightarrow> (Inl e, rs)
      | (Inr op, rs) \<Rightarrow>
          if c_rule_count (o_kernel op) = 0 then (Inl BadPayload, rs)
          else udp_template G files
            (op\<lparr>o_tcp_template := r_tpl (rule_at op (unat (c_rule_map (o_kernel op) ! 0)))\<rparr>) rs)"

section \<open>The variants\<close>

text \<open>\<open>None\<close> is the return value -1.\<close>

fun patch_fields :: "'r random \<Rightarrow> ff_rand_field list \<Rightarrow> ff_template \<Rightarrow> 'r \<Rightarrow> ff_template option \<times> 'r" where
  "patch_fields G [] t rs = (Some t, rs)"
| "patch_fields G (f # fs) t rs =
     (if rf_bytes f = 0 then patch_fields G fs t rs
      else if unat (t_len t) \<le> rf_off f + rf_bytes f * 2 then (None, rs)
      else case hex_raw G (rf_bytes f) rs of (hex, rs) \<Rightarrow>
        patch_fields G fs (t\<lparr>t_data := blit (rf_off f) hex (t_data t)\<rparr>) rs)"

definition render_variant ::
  "'r random \<Rightarrow> ff_plan \<Rightarrow> ff_template \<Rightarrow> string \<Rightarrow> nat \<Rightarrow> 'r \<Rightarrow> ff_template option \<times> 'r" where
  "render_variant G p base host v rs =
     (if v = 0 then (Some base, rs)
      else case pl_kind p of
        FF_VARIANT_SAME \<Rightarrow> (Some base, rs)
      | FF_VARIANT_PATCH \<Rightarrow> patch_fields G (pl_rand p) base rs
      | FF_VARIANT_RENDER \<Rightarrow> tls G host rs)"

fun render_variants ::
  "'r random \<Rightarrow> ff_plan \<Rightarrow> ff_template \<Rightarrow> string \<Rightarrow> nat \<Rightarrow> nat \<Rightarrow> 'r \<Rightarrow> ff_template list option \<times> 'r" where
  "render_variants G p base host v 0 rs = (Some [], rs)"
| "render_variants G p base host v (Suc k) rs =
     (case render_variant G p base host v rs of
        (None, rs) \<Rightarrow> (None, rs)
      | (Some t, rs) \<Rightarrow>
          (case render_variants G p base host (v + 1) k rs of
             (None, rs) \<Rightarrow> (None, rs)
           | (Some ts, rs) \<Rightarrow> (Some (t # ts), rs)))"

definition plan_base :: "ff_options \<Rightarrow> nat \<Rightarrow> ff_template" where
  "plan_base op plan = (if plan < 3 then r_tpl (rule_at op plan) else o_udp_template op)"

text \<open>All \<open>n\<close> entries of one plan: the tail past the plan's own count repeats the base.\<close>

definition plan_variants ::
  "'r random \<Rightarrow> ff_options \<Rightarrow> nat \<Rightarrow> nat \<Rightarrow> 'r \<Rightarrow> ff_template list option \<times> 'r" where
  "plan_variants G op n plan rs =
     (let p = o_plan op ! plan;
          host = (if plan < 3 then r_hostname (rule_at op plan) else []);
          count = min (if pl_variants p = 0 then 1 else pl_variants p) n
      in case render_variants G p (plan_base op plan) host 0 count rs of
           (None, rs) \<Rightarrow> (None, rs)
         | (Some ts, rs) \<Rightarrow> (Some (ts @ replicate (n - count) (plan_base op plan)), rs))"

fun all_plans ::
  "'r random \<Rightarrow> ff_options \<Rightarrow> nat \<Rightarrow> nat list \<Rightarrow> 'r \<Rightarrow> ff_template list list option \<times> 'r" where
  "all_plans G op n [] rs = (Some [], rs)"
| "all_plans G op n (plan # plans) rs =
     (case plan_variants G op n plan rs of
        (None, rs) \<Rightarrow> (None, rs)
      | (Some ts, rs) \<Rightarrow>
          (case all_plans G op n plans rs of
             (None, rs) \<Rightarrow> (None, rs)
           | (Some tss, rs) \<Rightarrow> (Some (ts # tss), rs)))"

definition ff_variants :: "'r random \<Rightarrow> ff_options \<Rightarrow> nat \<Rightarrow> 'r \<Rightarrow> ff_template list list option \<times> 'r" where
  "ff_variants G op n rs =
     (if n = 0 \<or> unat FF_TEMPLATE_VARIANTS < n then (None, rs) else all_plans G op n [0..<4] rs)"

end
