(* ===== verification/Config.thy ===== *)
theory Config
  imports Templates
begin

text \<open>
  \<open>ebpf/user/config.c\<close>: the reader of the configuration file, a strict subset of TOML. Strings are
  C strings (no terminator); a file is the bytes it holds, and one that cannot be opened is \<open>None\<close>.
  A file whose reading fails half-way is not modelled. What fails before the end of the file is
  \<open>BadLine n\<close> with the line's number, as in the code's one message.
\<close>

section \<open>Lexical helpers\<close>

definition trim :: "string \<Rightarrow> string" where
  "trim s = rev (dropWhile isspace (rev (dropWhile isspace s)))"

text \<open>A quoted value; the result must fit an array of \<open>cap\<close> bytes with its terminator.\<close>

definition string_char :: "char \<Rightarrow> bool" where
  "string_char c \<longleftrightarrow> 32 \<le> code c \<and> c \<noteq> CHR 0x22 \<and> c \<noteq> CHR 0x5C"

definition string_value :: "nat \<Rightarrow> string \<Rightarrow> string option" where
  "string_value cap v =
     (let n = length v in
      if n < 2 \<or> hd v \<noteq> CHR 0x22 \<or> last v \<noteq> CHR 0x22 \<or> cap \<le> n - 2 then None
      else let t = butlast (tl v) in
        if list_all string_char t then Some t else None)"

text \<open>
  \<open>strtoul\<close> of a string of digits; any other string is refused. Values past the range of
  \<open>unsigned long\<close> are refused by \<open>errno\<close> in the code and by the upper bound here.
\<close>

definition digits_value :: "string \<Rightarrow> nat" where
  "digits_value = foldl (\<lambda>n c. 10 * n + (code c - 48)) 0"

definition number :: "nat \<Rightarrow> nat \<Rightarrow> string \<Rightarrow> u32 option" where
  "number lo hi v =
     (if v = [] \<or> \<not> list_all isdigit v then None
      else let n = digits_value v in if n < lo \<or> hi < n then None else Some (of_nat n))"

definition boolean :: "string \<Rightarrow> u32 option" where
  "boolean v = (if v = ''true'' then Some 1 else if v = ''false'' then Some 0 else None)"

text \<open>The value without white space, cut to 127 characters.\<close>

definition compact :: "string \<Rightarrow> string" where
  "compact v = take 127 (filter (\<lambda>c. \<not> isspace c) v)"

definition FF_PORTS_MAX :: nat where "FF_PORTS_MAX = 8"

text \<open>The loop of \<open>ports\<close> at a port, with the ports read so far.\<close>

function port_list :: "nat list \<Rightarrow> string \<Rightarrow> nat list option" where
  "port_list out p =
     (let ds = takeWhile isdigit p; r = dropWhile isdigit p; n = digits_value ds in
      if ds = [] then None
      else if n < 1 \<or> 65535 < n \<or> n \<in> set out \<or> length out = FF_PORTS_MAX then None
      else if r = '']'' then Some (out @ [n])
      else if r = [] \<or> hd r \<noteq> CHR '','' then None
      else port_list (out @ [n]) (tl r))"
  by pat_completeness auto

termination
proof (relation "measure (\<lambda>(out, p). length p)")
  fix out p ds r n
  assume r: "r = dropWhile isdigit p" and c: "\<not> (r = [] \<or> hd r \<noteq> CHR '','')"
  have "length r \<le> length p" unfolding r by (rule length_dropWhile_le)
  then show "((out @ [n], tl r), out, p) \<in> measure (\<lambda>(out, p). length p)"
    using c by (cases r) auto
qed simp

definition ports :: "string \<Rightarrow> nat list option" where
  "ports v =
     (case compact v of
        c # p \<Rightarrow> if c \<noteq> CHR ''['' \<or> p = [] \<or> hd p = CHR '']'' then None else port_list [] p
      | [] \<Rightarrow> None)"

section \<open>Lines\<close>

text \<open>
  \<open>fgets\<close> into \<open>line[2048]\<close>: the characters read, whether the end of the file was met, and the
  rest of the file.
\<close>

definition fgets :: "string \<Rightarrow> (string \<times> bool \<times> string) option" where
  "fgets f =
     (let chunk = take 2047 f; nl = CHR 0x0A in
      if f = [] then None
      else if nl \<in> set chunk then
        let l = takeWhile (\<lambda>c. c \<noteq> nl) chunk @ [nl] in Some (l, False, drop (length l) f)
      else Some (chunk, length f < 2047, drop 2047 f))"

lemma fgets_shorter [termination_simp]: "fgets f = Some (l, e, r) \<Longrightarrow> length r < length f"
  by (cases f) (auto simp: fgets_def Let_def split: if_splits)

definition zero_terminated :: "string \<Rightarrow> string" where
  "zero_terminated = takeWhile (\<lambda>c. c \<noteq> CHR 0x00)"

fun strip_comment :: "bool \<Rightarrow> string \<Rightarrow> string" where
  "strip_comment quoted [] = []"
| "strip_comment quoted (c # cs) =
     (let quoted = (if c = CHR 0x22 then \<not> quoted else quoted) in
      if c = CHR ''#'' \<and> \<not> quoted then [] else c # strip_comment quoted cs)"

section \<open>The state of the reader\<close>

record reader =
  rd_op :: ff_options
  rd_section :: string
  rd_seen :: "string list"
  rd_sections :: "string list"
  rd_version :: u32
  rd_ports_given :: bool
  rd_https_hostname :: string
  rd_https_file :: string

definition kernel_defaults :: ff_config where
  "kernel_defaults = \<lparr>c_generation = 0, c_tcp_enabled = 1, c_udp_enabled = 1, c_directions = 3,
     c_strip_tfo = 1, c_tcp_batches = 3, c_udp_both = 0, c_udp_packets = 5, c_udp_idle = 30,
     c_ttl = 3, c_repeat = 2, c_estimate_hops = 1, c_percent = 0, c_rate = 1000, c_burst = 2000,
     c_allow_private = 0, c_rule_map = replicate 3 0, c_rule_count = 0, c_variants = replicate 4 0\<rparr>"

definition option_defaults :: ff_options where
  "option_defaults = \<lparr>o_kernel = kernel_defaults, o_devices = [], o_tcp_entries = 8192, o_udp_entries = 8192,
     o_lease = 10, o_tcp_payload = ''http'', o_udp_payload = ''sip'', o_hostname = ''www.example.com'',
     o_sip_uri = ''sip:service@example.com'', o_tcp_file = [], o_udp_file = [], o_rules = [], o_warning = [],
     o_tcp_template = zero_template, o_udp_template = zero_template,
     o_plan = replicate 4 \<lparr>pl_kind = FF_VARIANT_SAME, pl_variants = 0, pl_rand = []\<rparr>\<rparr>"

definition reader_start :: reader where
  "reader_start = \<lparr>rd_op = option_defaults, rd_section = [], rd_seen = [], rd_sections = [], rd_version = 0,
     rd_ports_given = False, rd_https_hostname = [], rd_https_file = []\<rparr>"

section \<open>Section headers\<close>

definition empty_device :: ff_device where
  "empty_device = \<lparr>d_name = [], d_mode = FF_ETHERNET\<rparr>"

definition read_header :: "string \<Rightarrow> reader \<Rightarrow> reader option" where
  "read_header s rd =
     (let op = rd_op rd in
      if s = ''[[interfaces]]'' then
        if length (o_devices op) = FF_INTERFACES then None
        else Some (rd\<lparr>rd_op := op\<lparr>o_devices := o_devices op @ [empty_device]\<rparr>, rd_section := ''interfaces''\<rparr>)
      else if s = ''[[tcp.rule]]'' then
        if length (o_rules op) = unat FF_TCP_RULES_MAX then None
        else Some (rd\<lparr>rd_op := op\<lparr>o_rules := o_rules op @ [zero_rule\<lparr>r_enabled := 1\<rparr>]\<rparr>, rd_section := ''tcp.rule''\<rparr>)
      else if s \<in> set [''[tcp]'', ''[udp]'', ''[injection]'', ''[runtime]''] then
        let name = butlast (tl s) in
        if name \<in> set (rd_sections rd) then None
        else Some (rd\<lparr>rd_sections := name # rd_sections rd, rd_section := name\<rparr>)
      else None)"

section \<open>Settings, section by section\<close>

text \<open>\<open>None\<close> is a value that was refused or a key the section does not have (\<open>rc\<close> stays -1).\<close>

definition set_last :: "('a \<Rightarrow> 'a) \<Rightarrow> 'a list \<Rightarrow> 'a list" where
  "set_last f xs = xs[length xs - 1 := f (last xs)]"

definition set_interface :: "string \<Rightarrow> string \<Rightarrow> ff_options \<Rightarrow> ff_options option" where
  "set_interface s v op =
     (if s = ''name'' then
        map_option (\<lambda>n. op\<lparr>o_devices := set_last (\<lambda>d. d\<lparr>d_name := n\<rparr>) (o_devices op)\<rparr>) (string_value 16 v)
      else if s = ''mode'' then
        Option.bind (string_value 16 v) (\<lambda>mode.
          map_option (\<lambda>m. op\<lparr>o_devices := set_last (\<lambda>d. d\<lparr>d_mode := m\<rparr>) (o_devices op)\<rparr>)
            (if mode = ''ethernet'' then Some FF_ETHERNET
             else if mode = ''l3'' then Some FF_L3
             else if mode = ''pppoe'' then Some FF_PPPOE else None))
      else None)"

definition set_rule :: "string \<Rightarrow> string \<Rightarrow> ff_options \<Rightarrow> ff_options option" where
  "set_rule s v op =
     (let upd = (\<lambda>f. op\<lparr>o_rules := set_last f (o_rules op)\<rparr>) in
      if s = ''type'' then
        Option.bind (string_value 16 v) (\<lambda>t.
          if t \<in> set [''http'', ''tls'', ''custom''] then Some (upd (\<lambda>r. r\<lparr>r_type := t\<rparr>)) else None)
      else if s = ''payload'' then map_option (\<lambda>p. upd (\<lambda>r. r\<lparr>r_payload := p\<rparr>)) (string_value 1024 v)
      else if s = ''enabled'' then map_option (\<lambda>b. upd (\<lambda>r. r\<lparr>r_enabled := b\<rparr>)) (boolean v)
      else if s = ''comment'' then map_option (\<lambda>_. op) (string_value 128 v)
      else None)"

definition directions :: "string \<Rightarrow> u32 option" where
  "directions v =
     (let q = [CHR 0x22]; c = compact v; active = q @ ''active'' @ q; passive = q @ ''passive'' @ q in
      if c = ''['' @ active @ '']'' then Some 1
      else if c = ''['' @ passive @ '']'' then Some 2
      else if c = ''['' @ active @ '','' @ passive @ '']'' \<or> c = ''['' @ passive @ '','' @ active @ '']'' then Some 3
      else None)"

text \<open>A value that is one of two quoted words.\<close>

definition word_value :: "string \<Rightarrow> string \<Rightarrow> string \<Rightarrow> u32 option" where
  "word_value one zero v =
     (let q = [CHR 0x22] in if v = q @ one @ q then Some 1 else if v = q @ zero @ q then Some 0 else None)"

definition set_tcp :: "string \<Rightarrow> string \<Rightarrow> reader \<Rightarrow> reader option" where
  "set_tcp s v rd =
     (let op = rd_op rd;
          opt = (\<lambda>f. rd\<lparr>rd_op := f op\<rparr>);
          ker = (\<lambda>f. rd\<lparr>rd_op := op\<lparr>o_kernel := f (o_kernel op)\<rparr>\<rparr>) in
      if s = ''enabled'' then map_option (\<lambda>b. ker (\<lambda>c. c\<lparr>c_tcp_enabled := b\<rparr>)) (boolean v)
      else if s = ''payload'' then map_option (\<lambda>p. opt (\<lambda>x. x\<lparr>o_tcp_payload := p\<rparr>)) (string_value 16 v)
      else if s = ''hostname'' then map_option (\<lambda>p. opt (\<lambda>x. x\<lparr>o_hostname := p\<rparr>)) (string_value 254 v)
      else if s = ''payload_file'' then map_option (\<lambda>p. opt (\<lambda>x. x\<lparr>o_tcp_file := p\<rparr>)) (string_value 1024 v)
      else if s = ''https_hostname'' then map_option (\<lambda>p. rd\<lparr>rd_https_hostname := p\<rparr>) (string_value 254 v)
      else if s = ''https_payload_file'' then map_option (\<lambda>p. rd\<lparr>rd_https_file := p\<rparr>) (string_value 1024 v)
      else if s = ''directions'' then map_option (\<lambda>d. ker (\<lambda>c. c\<lparr>c_directions := d\<rparr>)) (directions v)
      else if s = ''tfo'' then map_option (\<lambda>b. ker (\<lambda>c. c\<lparr>c_strip_tfo := b\<rparr>)) (word_value ''strip-syn'' ''preserve'' v)
      else if s = ''https_ports'' then map_option (\<lambda>_. rd\<lparr>rd_ports_given := True\<rparr>) (ports v)
      else if s = ''max_batches'' then map_option (\<lambda>n. ker (\<lambda>c. c\<lparr>c_tcp_batches := n\<rparr>)) (number 1 32 v)
      else None)"

definition set_udp :: "string \<Rightarrow> string \<Rightarrow> ff_options \<Rightarrow> ff_options option" where
  "set_udp s v op =
     (let ker = (\<lambda>f. op\<lparr>o_kernel := f (o_kernel op)\<rparr>) in
      if s = ''enabled'' then map_option (\<lambda>b. ker (\<lambda>c. c\<lparr>c_udp_enabled := b\<rparr>)) (boolean v)
      else if s = ''payload'' then map_option (\<lambda>p. op\<lparr>o_udp_payload := p\<rparr>) (string_value 16 v)
      else if s = ''sip_uri'' then map_option (\<lambda>p. op\<lparr>o_sip_uri := p\<rparr>) (string_value 254 v)
      else if s = ''payload_file'' then map_option (\<lambda>p. op\<lparr>o_udp_file := p\<rparr>) (string_value 1024 v)
      else if s = ''trigger'' then map_option (\<lambda>b. ker (\<lambda>c. c\<lparr>c_udp_both := b\<rparr>)) (word_value ''both'' ''egress'' v)
      else if s = ''initial_packets'' then map_option (\<lambda>n. ker (\<lambda>c. c\<lparr>c_udp_packets := n\<rparr>)) (number 1 32 v)
      else if s = ''idle_timeout_seconds'' then map_option (\<lambda>n. ker (\<lambda>c. c\<lparr>c_udp_idle := n\<rparr>)) (number 1 3600 v)
      else None)"

definition set_injection :: "string \<Rightarrow> string \<Rightarrow> ff_config \<Rightarrow> ff_config option" where
  "set_injection s v c =
     (if s = ''ttl'' then map_option (\<lambda>n. c\<lparr>c_ttl := n\<rparr>) (number 1 255 v)
      else if s = ''repeat'' then map_option (\<lambda>n. c\<lparr>c_repeat := n\<rparr>) (number 1 8 v)
      else if s = ''estimate_hops'' then map_option (\<lambda>b. c\<lparr>c_estimate_hops := b\<rparr>) (boolean v)
      else if s = ''dynamic_percent'' then map_option (\<lambda>n. c\<lparr>c_percent := n\<rparr>) (number 0 99 v)
      else if s = ''max_packets_per_second'' then map_option (\<lambda>n. c\<lparr>c_rate := n\<rparr>) (number 1 1000000 v)
      else if s = ''burst'' then map_option (\<lambda>n. c\<lparr>c_burst := n\<rparr>) (number 1 1000000 v)
      else if s = ''allow_private'' then map_option (\<lambda>b. c\<lparr>c_allow_private := b\<rparr>) (boolean v)
      else None)"

definition set_runtime :: "string \<Rightarrow> string \<Rightarrow> ff_options \<Rightarrow> ff_options option" where
  "set_runtime s v op =
     (if s = ''tcp_entries'' then map_option (\<lambda>n. op\<lparr>o_tcp_entries := n\<rparr>) (number 64 1048576 v)
      else if s = ''udp_entries'' then map_option (\<lambda>n. op\<lparr>o_udp_entries := n\<rparr>) (number 64 1048576 v)
      else if s = ''lease_seconds'' then map_option (\<lambda>n. op\<lparr>o_lease := n\<rparr>) (number 4 60 v)
      else None)"

definition set_key :: "string \<Rightarrow> string \<Rightarrow> reader \<Rightarrow> reader option" where
  "set_key s v rd =
     (let op = rd_op rd; upd = (\<lambda>x. rd\<lparr>rd_op := x\<rparr>); section = rd_section rd in
      if section = [] then
        if s = ''version'' then map_option (\<lambda>n. rd\<lparr>rd_version := n\<rparr>) (number 1 1 v) else None
      else if section = ''interfaces'' then map_option upd (set_interface s v op)
      else if section = ''tcp.rule'' then map_option upd (set_rule s v op)
      else if section = ''tcp'' then set_tcp s v rd
      else if section = ''udp'' then map_option upd (set_udp s v op)
      else if section = ''injection'' then map_option (\<lambda>c. upd (op\<lparr>o_kernel := c\<rparr>)) (set_injection s v (o_kernel op))
      else if section = ''runtime'' then map_option upd (set_runtime s v op)
      else None)"

section \<open>The file\<close>

text \<open>The identity of a setting: its section, the entry of a repeated section, and its key.\<close>

definition key_id :: "string \<Rightarrow> reader \<Rightarrow> string" where
  "key_id s rd =
     (let section = rd_section rd;
          index = (if section = ''interfaces'' then length (o_devices (rd_op rd))
            else if section = ''tcp.rule'' then length (o_rules (rd_op rd)) else 0)
      in section @ ''.'' @ decimal index @ ''.'' @ s)"

definition read_setting :: "string \<Rightarrow> reader \<Rightarrow> reader option" where
  "read_setting l rd =
     (if CHR ''='' \<notin> set l then None
      else
       (let s = trim (takeWhile (\<lambda>c. c \<noteq> CHR ''='') l);
            v = trim (tl (dropWhile (\<lambda>c. c \<noteq> CHR ''='') l));
            i = key_id s rd
        in if 96 \<le> length i \<or> i \<in> set (rd_seen rd) \<or> length (rd_seen rd) = 128 then None
           else set_key s v (rd\<lparr>rd_seen := i # rd_seen rd\<rparr>)))"

definition read_line :: "string \<Rightarrow> bool \<Rightarrow> reader \<Rightarrow> reader option" where
  "read_line line eof rd =
     (let line = zero_terminated line in
      if CHR 0x0A \<notin> set line \<and> \<not> eof then None
      else
       (let s = trim (strip_comment False line) in
        if s = [] then Some rd
        else if hd s = CHR ''['' then read_header s rd
        else read_setting s rd))"

fun read_lines :: "nat \<Rightarrow> string \<Rightarrow> reader \<Rightarrow> config_error + reader" where
  "read_lines n f rd =
     (case fgets f of
        None \<Rightarrow> Inr rd
      | Some (line, eof, rest) \<Rightarrow>
          (case read_line line eof rd of
             None \<Rightarrow> Inl (BadLine (n + 1))
           | Some rd \<Rightarrow> read_lines (n + 1) rest rd))"

declare read_lines.simps [simp del]

section \<open>The checks on the whole\<close>

definition name_char :: "char \<Rightarrow> bool" where
  "name_char c \<longleftrightarrow> 97 \<le> code c \<and> code c \<le> 122 \<or> 65 \<le> code c \<and> code c \<le> 90 \<or> isdigit c \<or> c \<in> set ''_.-:''"

fun check_names :: "string list \<Rightarrow> string list \<Rightarrow> config_error option" where
  "check_names earlier [] = None"
| "check_names earlier (n # ns) =
     (if n = [] \<or> \<not> list_all name_char n then Some BadInterfaceName
      else if n \<in> set earlier then Some (DuplicateInterface n)
      else check_names (earlier @ [n]) ns)"

text \<open>A configuration without rule blocks: the deprecated keys become the first two rules.\<close>

definition legacy_rules :: "reader \<Rightarrow> ff_rule list" where
  "legacy_rules rd =
     (let op = rd_op rd;
          rule = (\<lambda>t p. zero_rule\<lparr>r_enabled := 1, r_type := t, r_payload := p\<rparr>);
          r0 = (if o_tcp_payload op = ''custom'' then rule ''custom'' (o_tcp_file op)
                else if o_tcp_payload op = ''tls'' then rule ''tls'' (o_hostname op)
                else rule ''http'' (o_hostname op));
          r1 = (if rd_https_file rd \<noteq> [] then rule ''custom'' (rd_https_file rd)
                else rule ''tls'' (rd_https_hostname rd))
      in if rd_https_hostname rd = [] \<and> rd_https_file rd = [] then [r0] else [r0, r1])"

definition translate_legacy :: "reader \<Rightarrow> ff_options" where
  "translate_legacy rd =
     (let op = rd_op rd in
      if o_rules op = [] then
        op\<lparr>o_rules := legacy_rules rd,
           o_warning := (if rd_ports_given rd
             then ''tcp.https_ports is ignored: TCP rules are not selected by port'' else o_warning op)\<rparr>
      else if rd_https_hostname rd \<noteq> [] \<or> rd_https_file rd \<noteq> [] \<or> o_tcp_payload op \<noteq> ''http'' \<or>
              o_hostname op \<noteq> ''www.example.com'' \<or> o_tcp_file op \<noteq> [] \<or> rd_ports_given rd
      then op\<lparr>o_warning :=
        ''tcp.payload/hostname/payload_file/https_* are ignored while [[tcp.rule]] entries exist''\<rparr>
      else op)"

text \<open>
  The payload of an enabled rule becomes its file or its host name. The code copies a host name of
  any length below 1024 into an array of 254 bytes: from 254 characters on that is \<open>Overflow\<close>.
\<close>

definition resolve_rule :: "nat \<Rightarrow> ff_rule \<Rightarrow> config_error + ff_rule" where
  "resolve_rule i r =
     (if r_enabled r = 0 then Inr r
      else if r_type r = [] then Inl (TypeRequired (i + 1))
      else if r_payload r = [] then Inl (PayloadRequired (i + 1))
      else if r_type r = ''custom'' then
        (if hd (r_payload r) \<noteq> CHR ''/'' then Inl (PayloadNotPath (i + 1)) else Inr (r\<lparr>r_file := r_payload r\<rparr>))
      else if list_ex (\<lambda>c. c \<in> set ''/: '') (r_payload r) then Inl (HostnameNotBare (i + 1))
      else if 254 \<le> length (r_payload r) then Inl Overflow
      else Inr (r\<lparr>r_hostname := r_payload r\<rparr>))"

fun resolve_rules :: "nat \<Rightarrow> ff_rule list \<Rightarrow> config_error + ff_rule list" where
  "resolve_rules i [] = Inr []"
| "resolve_rules i (r # rs) =
     (case resolve_rule i r of
        Inl e \<Rightarrow> Inl e
      | Inr r \<Rightarrow> map_sum id ((#) r) (resolve_rules (i + 1) rs))"

text \<open>What follows the last line, up to the rendering of the templates.\<close>

definition finish :: "reader \<Rightarrow> config_error + ff_options" where
  "finish rd =
     (let op = rd_op rd in
      if rd_version rd = 0 \<or> o_devices op = [] then Inl IncompleteConfig
      else case check_names [] (map d_name (o_devices op)) of
        Some e \<Rightarrow> Inl e
      | None \<Rightarrow>
          if c_burst (o_kernel op) < c_repeat (o_kernel op) then Inl BurstTooSmall
          else
           (let op = translate_legacy rd in
            case resolve_rules 0 (o_rules op) of
              Inl e \<Rightarrow> Inl e
            | Inr rules \<Rightarrow>
                if o_udp_payload op = ''custom'' \<and> ''udp.0.sip_uri'' \<in> set (rd_seen rd) then Inl CustomWithSipUri
                else Inr (op\<lparr>o_rules := rules\<rparr>)))"

definition ff_config_read ::
  "'r random \<Rightarrow> (string \<Rightarrow> u8 list option) \<Rightarrow> string \<Rightarrow> 'r \<Rightarrow> (config_error + ff_options) \<times> 'r" where
  "ff_config_read G files path rs =
     (case files path of
        None \<Rightarrow> (Inl CannotOpen, rs)
      | Some f \<Rightarrow>
          (case read_lines 0 (bytes_string f) reader_start of
             Inl e \<Rightarrow> (Inl e, rs)
           | Inr rd \<Rightarrow>
               (case finish rd of
                  Inl e \<Rightarrow> (Inl e, rs)
                | Inr op \<Rightarrow> ff_templates G files op rs)))"

end
