(* ===== verification/Reading.thy ===== *)
theory Reading
  imports Config
begin

text \<open>
  The invariant of the configuration reader: the ranges of all numbers and the sizes of all strings,
  kept by every section header and every setting.
\<close>

section \<open>Values\<close>

lemma string_value_length: "string_value cap v = Some t \<Longrightarrow> length t < cap \<and> list_all string_char t"
  by (auto simp: string_value_def Let_def split: if_splits)

lemma number_range:
  assumes "number lo hi v = Some w" and "hi < 4294967296"
  shows "of_nat lo \<le> w" and "w \<le> of_nat hi" and "unat w = digits_value v"
proof -
  from assms(1) obtain n where n: "n = digits_value v" "lo \<le> n" "n \<le> hi" "w = of_nat n"
    by (auto simp: number_def Let_def not_less split: if_splits)
  then show "of_nat lo \<le> w" "w \<le> of_nat hi" "unat w = digits_value v"
    using assms(2) by (simp_all add: word_le_nat_alt unat_of_nat)
qed

lemma boolean_range: "boolean v = Some w \<Longrightarrow> w \<le> 1"
  by (auto simp: boolean_def split: if_splits)

lemma word_value_range: "word_value a b v = Some w \<Longrightarrow> w \<le> 1"
  by (auto simp: word_value_def Let_def split: if_splits)

lemma directions_range: "directions v = Some w \<Longrightarrow> 1 \<le> w \<and> w \<le> 3"
  by (auto simp: directions_def Let_def split: if_splits)

section \<open>The type of accepted options\<close>

text \<open>The ranges of \<open>struct ff_config\<close>.\<close>

definition tcp_ok :: "ff_config \<Rightarrow> bool" where
  "tcp_ok c \<longleftrightarrow> c_tcp_enabled c \<le> 1 \<and> 1 \<le> c_directions c \<and> c_directions c \<le> 3 \<and> c_strip_tfo c \<le> 1 \<and>
     1 \<le> c_tcp_batches c \<and> c_tcp_batches c \<le> 32"

definition udp_ok :: "ff_config \<Rightarrow> bool" where
  "udp_ok c \<longleftrightarrow> c_udp_enabled c \<le> 1 \<and> c_udp_both c \<le> 1 \<and> 1 \<le> c_udp_packets c \<and> c_udp_packets c \<le> 32 \<and>
     1 \<le> c_udp_idle c \<and> c_udp_idle c \<le> 3600"

definition injection_ok :: "ff_config \<Rightarrow> bool" where
  "injection_ok c \<longleftrightarrow> 1 \<le> c_ttl c \<and> c_ttl c \<le> 255 \<and> 1 \<le> c_repeat c \<and> c_repeat c \<le> 8 \<and> c_estimate_hops c \<le> 1 \<and>
     c_percent c \<le> 99 \<and> 1 \<le> c_rate c \<and> c_rate c \<le> 1000000 \<and> 1 \<le> c_burst c \<and> c_burst c \<le> 1000000 \<and>
     c_allow_private c \<le> 1"

text \<open>The sizes of the strings of \<open>struct ff_options\<close> and the ranges of its numbers.\<close>

definition runtime_ok :: "ff_options \<Rightarrow> bool" where
  "runtime_ok op \<longleftrightarrow> 64 \<le> o_tcp_entries op \<and> o_tcp_entries op \<le> 1048576 \<and> 64 \<le> o_udp_entries op \<and>
     o_udp_entries op \<le> 1048576 \<and> 4 \<le> o_lease op \<and> o_lease op \<le> 60"

definition strings_fit :: "ff_options \<Rightarrow> bool" where
  "strings_fit op \<longleftrightarrow> length (o_tcp_payload op) < 16 \<and> length (o_udp_payload op) < 16 \<and> length (o_hostname op) < 254 \<and>
     length (o_sip_uri op) < 254 \<and> length (o_tcp_file op) < 1024 \<and> length (o_udp_file op) < 1024 \<and> length (o_warning op) < 192"

definition device_fits :: "ff_device \<Rightarrow> bool" where
  "device_fits d \<longleftrightarrow> length (d_name d) < 16"

definition rule_fits :: "ff_rule \<Rightarrow> bool" where
  "rule_fits r \<longleftrightarrow> r_type r \<in> set ['''', ''http'', ''tls'', ''custom''] \<and> length (r_payload r) < 1024 \<and>
     length (r_hostname r) < 254 \<and> length (r_file r) < 1024 \<and> r_enabled r \<le> 1"

definition options_ok :: "ff_options \<Rightarrow> bool" where
  "options_ok op \<longleftrightarrow> config_shape (o_kernel op) \<and> tcp_ok (o_kernel op) \<and> udp_ok (o_kernel op) \<and>
     injection_ok (o_kernel op) \<and> runtime_ok op \<and> strings_fit op \<and>
     length (o_devices op) \<le> 8 \<and> list_all device_fits (o_devices op) \<and>
     length (o_rules op) \<le> 3 \<and> list_all rule_fits (o_rules op)"

lemmas ranges = tcp_ok_def udp_ok_def injection_ok_def runtime_ok_def strings_fit_def

lemma number_in: "number lo hi v = Some w \<Longrightarrow> hi < 4294967296 \<Longrightarrow> of_nat lo \<le> w \<and> w \<le> of_nat hi"
  using number_range by blast

lemmas number_ranges = number_in [of 1 32, simplified] number_in [of 1 255, simplified] number_in [of 1 3600, simplified]
  number_in [of 1 8, simplified] number_in [of 0 99, simplified] number_in [of 1 1000000, simplified]
  number_in [of 64 1048576, simplified] number_in [of 4 60, simplified]

lemmas value_ranges = number_ranges boolean_range word_value_range directions_range

lemma options_start: "options_ok option_defaults"
  by (simp add: options_ok_def option_defaults_def kernel_defaults_def ranges config_shape_def)

lemma list_all_set_last: "list_all P xs \<Longrightarrow> (\<And>x. P x \<Longrightarrow> P (f x)) \<Longrightarrow> xs \<noteq> [] \<Longrightarrow> list_all P (set_last f xs)"
  by (auto simp: list_all_length nth_list_update set_last_def last_conv_nth)

lemma length_set_last [simp]: "length (set_last f xs) = length xs"
  by (simp add: set_last_def)

text \<open>A setting is one branch of a chain of keys; which key it was does not matter here.\<close>

lemma if_branch: "(if b then x else y) = Some z \<Longrightarrow> (x = Some z \<Longrightarrow> P) \<Longrightarrow> (y = Some z \<Longrightarrow> P) \<Longrightarrow> P"
  by (simp split: if_splits)

lemma map_branch: "map_option f x = Some z \<Longrightarrow> (\<And>a. x = Some a \<Longrightarrow> z = f a \<Longrightarrow> P) \<Longrightarrow> P"
  by auto

lemma if_split_asm_branch: "(if b then x else y) = Some z \<Longrightarrow> (b \<Longrightarrow> x = Some z \<Longrightarrow> P) \<Longrightarrow> (y = Some z \<Longrightarrow> P) \<Longrightarrow> P"
  by (simp split: if_splits)

lemma bind_branch: "Option.bind x f = Some z \<Longrightarrow> (\<And>a. x = Some a \<Longrightarrow> f a = Some z \<Longrightarrow> P) \<Longrightarrow> P"
  by (auto simp: Option.bind_eq_Some_conv)

lemmas branches = if_branch map_branch bind_branch

lemma set_interface_cases:
  assumes "set_interface s v op = Some op'"
  obtains (name) n where "string_value 16 v = Some n" "op' = op\<lparr>o_devices := set_last (\<lambda>d. d\<lparr>d_name := n\<rparr>) (o_devices op)\<rparr>"
    | (mode) m where "op' = op\<lparr>o_devices := set_last (\<lambda>d. d\<lparr>d_mode := m\<rparr>) (o_devices op)\<rparr>"
  using assms unfolding set_interface_def by (elim branches) (blast | simp)+

lemma set_interface_ok:
  assumes "set_interface s v op = Some op'" and "options_ok op" and "o_devices op \<noteq> []"
  shows "options_ok op'" and "o_devices op' \<noteq> []"
proof -
  have keeps: "device_fits d \<Longrightarrow> device_fits (d\<lparr>d_mode := m\<rparr>)"
    "string_value 16 v = Some n \<Longrightarrow> device_fits (d\<lparr>d_name := n\<rparr>)" for d m n
    using string_value_length [of 16 v n] by (simp_all add: device_fits_def)
  from assms(1) have "\<exists>f. op' = op\<lparr>o_devices := set_last f (o_devices op)\<rparr> \<and> (\<forall>d. device_fits d \<longrightarrow> device_fits (f d))"
    by (cases rule: set_interface_cases) (use keeps in blast)+
  then obtain f where f: "op' = op\<lparr>o_devices := set_last f (o_devices op)\<rparr>" "\<And>d. device_fits d \<Longrightarrow> device_fits (f d)"
    by blast
  with assms(2,3) show "options_ok op'"
    by (simp add: options_ok_def list_all_set_last ranges)
  show "o_devices op' \<noteq> []" using f(1) assms(3) by (simp add: set_last_def)
qed

text \<open>What a setting may do to the last rule.\<close>

definition rule_keeper :: "(ff_rule \<Rightarrow> ff_rule) \<Rightarrow> bool" where
  "rule_keeper f \<longleftrightarrow> (\<forall>r. rule_fits r \<longrightarrow> rule_fits (f r)) \<and> (\<forall>r. r_tpl (f r) = r_tpl r)"

lemma rule_keeper_updates:
  "length p < 1024 \<Longrightarrow> rule_keeper (\<lambda>r. r\<lparr>r_payload := p\<rparr>)"
  "b \<le> 1 \<Longrightarrow> rule_keeper (\<lambda>r. r\<lparr>r_enabled := b\<rparr>)"
  "t \<in> set [''http'', ''tls'', ''custom''] \<Longrightarrow> rule_keeper (\<lambda>r. r\<lparr>r_type := t\<rparr>)"
  by (auto simp: rule_fits_def rule_keeper_def)

lemma set_rule_cases:
  assumes "set_rule s v op = Some op'"
  obtains (ty) t where "t \<in> set [''http'', ''tls'', ''custom'']" "op' = op\<lparr>o_rules := set_last (\<lambda>r. r\<lparr>r_type := t\<rparr>) (o_rules op)\<rparr>"
    | (payload) p where "string_value 1024 v = Some p" "op' = op\<lparr>o_rules := set_last (\<lambda>r. r\<lparr>r_payload := p\<rparr>) (o_rules op)\<rparr>"
    | (enabled) b where "boolean v = Some b" "op' = op\<lparr>o_rules := set_last (\<lambda>r. r\<lparr>r_enabled := b\<rparr>) (o_rules op)\<rparr>"
    | (comment) "op' = op"
proof -
  from assms show ?thesis unfolding set_rule_def Let_def
    by - (elim map_branch bind_branch if_split_asm_branch, rule that(1), assumption, simp, simp, rule that(2), assumption+,
        rule that(3), assumption+, rule that(4), assumption, simp)
qed

lemma set_rule_update:
  assumes "set_rule s v op = Some op'"
  shows "op' = op \<or> (\<exists>f. op' = op\<lparr>o_rules := set_last f (o_rules op)\<rparr> \<and> rule_keeper f)"
  using assms
  by (cases rule: set_rule_cases) (use rule_keeper_updates string_value_length boolean_range in blast)+

lemma set_rule_ok:
  assumes "set_rule s v op = Some op'" and "options_ok op" and "o_rules op \<noteq> []"
  shows "options_ok op'" and "o_rules op' \<noteq> []"
proof -
  have update: "options_ok (op\<lparr>o_rules := set_last f (o_rules op)\<rparr>)" if "rule_keeper f" for f
    using assms(2,3) that by (simp add: options_ok_def list_all_set_last runtime_ok_def strings_fit_def rule_keeper_def)
  from set_rule_update [OF assms(1)] show "options_ok op'"
    using assms(2) update by blast
  have "o_rules (op\<lparr>o_rules := set_last f (o_rules op)\<rparr>) \<noteq> []" for f
    using assms(3) by (simp add: set_last_def)
  with set_rule_update [OF assms(1)] show "o_rules op' \<noteq> []"
    using assms(3) by metis
qed

text \<open>A change of the numbers only.\<close>

lemma options_ok_kernel:
  "options_ok op \<Longrightarrow> tcp_ok c \<Longrightarrow> udp_ok c \<Longrightarrow> injection_ok c \<Longrightarrow> config_shape c \<Longrightarrow> options_ok (op\<lparr>o_kernel := c\<rparr>)"
  by (simp add: options_ok_def runtime_ok_def strings_fit_def)

lemma options_okD:
  assumes "options_ok op"
  shows "tcp_ok (o_kernel op)" "udp_ok (o_kernel op)" "injection_ok (o_kernel op)" "config_shape (o_kernel op)"
    "runtime_ok op" "strings_fit op"
  using assms by (simp_all add: options_ok_def)

lemma set_injection_ok:
  assumes "set_injection s v c = Some c'" and "injection_ok c"
  shows "injection_ok c'"
  using assms unfolding set_injection_def
  by (elim if_branch map_branch) (auto simp: injection_ok_def dest: value_ranges)

lemma set_injection_frame:
  assumes "set_injection s v c = Some c'"
  shows "tcp_ok c' = tcp_ok c" "udp_ok c' = udp_ok c" "config_shape c' = config_shape c"
  using assms unfolding set_injection_def
  by (elim if_branch map_branch; simp add: tcp_ok_def udp_ok_def config_shape_def)+

lemma injection_ok_frame [simp]:
  "injection_ok (c\<lparr>c_tcp_enabled := b\<rparr>) = injection_ok c" "injection_ok (c\<lparr>c_directions := b\<rparr>) = injection_ok c"
  "injection_ok (c\<lparr>c_strip_tfo := b\<rparr>) = injection_ok c" "injection_ok (c\<lparr>c_tcp_batches := b\<rparr>) = injection_ok c"
  "injection_ok (c\<lparr>c_udp_enabled := b\<rparr>) = injection_ok c" "injection_ok (c\<lparr>c_udp_both := b\<rparr>) = injection_ok c"
  "injection_ok (c\<lparr>c_udp_packets := b\<rparr>) = injection_ok c" "injection_ok (c\<lparr>c_udp_idle := b\<rparr>) = injection_ok c"
  by (simp_all add: injection_ok_def)

lemma set_tcp_ok:
  assumes "set_tcp s v rd = Some rd'" and ok: "options_ok (rd_op rd)"
  shows "options_ok (rd_op rd')"
proof -
  note k = options_okD [OF ok]
  have kernel: "options_ok (rd_op rd\<lparr>o_kernel := c\<rparr>)"
    if "tcp_ok c" "udp_ok c = udp_ok (o_kernel (rd_op rd))" "injection_ok c = injection_ok (o_kernel (rd_op rd))"
      "config_shape c = config_shape (o_kernel (rd_op rd))" for c
    using options_ok_kernel [OF ok, of c] that k by simp
  have strings: "options_ok (rd_op rd\<lparr>o_tcp_payload := p\<rparr>)" if "string_value 16 v = Some p" for p
    using ok string_value_length [OF that] by (simp add: options_ok_def runtime_ok_def strings_fit_def)
  have strings2: "options_ok (rd_op rd\<lparr>o_hostname := p\<rparr>)" if "string_value 254 v = Some p" for p
    using ok string_value_length [OF that] by (simp add: options_ok_def runtime_ok_def strings_fit_def)
  have strings3: "options_ok (rd_op rd\<lparr>o_tcp_file := p\<rparr>)" if "string_value 1024 v = Some p" for p
    using ok string_value_length [OF that] by (simp add: options_ok_def runtime_ok_def strings_fit_def)
  from assms(1) show ?thesis
    unfolding set_tcp_def Let_def
    by (elim branches)
      (use k(1) ok in \<open>auto simp: strings strings2 strings3 tcp_ok_def udp_ok_def config_shape_def dest: value_ranges intro!: kernel\<close>)
qed

lemma set_udp_ok:
  assumes "set_udp s v op = Some op'" and ok: "options_ok op"
  shows "options_ok op'"
proof -
  note k = options_okD [OF ok]
  have kernel: "options_ok (op\<lparr>o_kernel := c\<rparr>)"
    if "udp_ok c" "tcp_ok c = tcp_ok (o_kernel op)" "injection_ok c = injection_ok (o_kernel op)"
      "config_shape c = config_shape (o_kernel op)" for c
    using options_ok_kernel [OF ok, of c] that k by simp
  have strings: "options_ok (op\<lparr>o_udp_payload := p\<rparr>)" if "string_value 16 v = Some p" for p
    using ok string_value_length [OF that] by (simp add: options_ok_def runtime_ok_def strings_fit_def)
  have strings2: "options_ok (op\<lparr>o_sip_uri := p\<rparr>)" if "string_value 254 v = Some p" for p
    using ok string_value_length [OF that] by (simp add: options_ok_def runtime_ok_def strings_fit_def)
  have strings3: "options_ok (op\<lparr>o_udp_file := p\<rparr>)" if "string_value 1024 v = Some p" for p
    using ok string_value_length [OF that] by (simp add: options_ok_def runtime_ok_def strings_fit_def)
  from assms(1) show ?thesis
    unfolding set_udp_def Let_def
    by (elim branches)
      (use k(2) ok in \<open>auto simp: strings strings2 strings3 tcp_ok_def udp_ok_def config_shape_def dest: value_ranges intro!: kernel\<close>)
qed

lemma set_runtime_ok:
  assumes "set_runtime s v op = Some op'" and ok: "options_ok op"
  shows "options_ok op'"
proof -
  have "runtime_ok op'"
    using assms(1) options_okD(5) [OF ok] unfolding set_runtime_def
    by (elim branches) (auto simp: runtime_ok_def dest: value_ranges)
  moreover from assms(1) have "runtime_ok op' \<longrightarrow> options_ok op'"
    using ok unfolding set_runtime_def
    by (elim branches) (auto simp: options_ok_def strings_fit_def)
  ultimately show ?thesis by blast
qed

section \<open>The invariant of the reader\<close>

definition reader_ok :: "reader \<Rightarrow> bool" where
  "reader_ok rd \<longleftrightarrow> options_ok (rd_op rd) \<and>
     (rd_section rd = ''interfaces'' \<longrightarrow> o_devices (rd_op rd) \<noteq> []) \<and>
     (rd_section rd = ''tcp.rule'' \<longrightarrow> o_rules (rd_op rd) \<noteq> []) \<and>
     list_all (\<lambda>r. r_tpl r = zero_template) (o_rules (rd_op rd)) \<and>
     length (rd_https_hostname rd) < 254 \<and> length (rd_https_file rd) < 1024"

text \<open>Everything but the entries of the two repeated sections.\<close>

definition same_entries :: "ff_options \<Rightarrow> ff_options \<Rightarrow> bool" where
  "same_entries op op' \<longleftrightarrow> o_devices op' = o_devices op \<and> o_rules op' = o_rules op"

lemma set_tcp_entries:
  assumes "set_tcp s v rd = Some rd'"
  shows "same_entries (rd_op rd) (rd_op rd')" and "rd_section rd' = rd_section rd"
    and "length (rd_https_hostname rd) < 254 \<Longrightarrow> length (rd_https_hostname rd') < 254"
    and "length (rd_https_file rd) < 1024 \<Longrightarrow> length (rd_https_file rd') < 1024"
  using assms unfolding set_tcp_def Let_def
  by (elim branches; auto simp: same_entries_def dest: string_value_length)+

lemma set_udp_entries: "set_udp s v op = Some op' \<Longrightarrow> same_entries op op'"
  unfolding set_udp_def Let_def by (elim branches) (auto simp: same_entries_def)

lemma set_runtime_entries: "set_runtime s v op = Some op' \<Longrightarrow> same_entries op op'"
  unfolding set_runtime_def by (elim branches) (auto simp: same_entries_def)

lemma set_interface_rules: "set_interface s v op = Some op' \<Longrightarrow> o_rules op' = o_rules op"
  by (erule set_interface_cases) simp_all

lemma set_rule_entries:
  assumes "set_rule s v op = Some op'" and "o_rules op \<noteq> []" and "list_all (\<lambda>r. r_tpl r = zero_template) (o_rules op)"
  shows "list_all (\<lambda>r. r_tpl r = zero_template) (o_rules op')" and "o_devices op' = o_devices op"
proof -
  have update: "list_all (\<lambda>r. r_tpl r = zero_template) (set_last f (o_rules op))" if "rule_keeper f" for f
    using assms(2,3) that by (intro list_all_set_last) (simp_all add: rule_keeper_def)
  from set_rule_update [OF assms(1)] consider "op' = op" | f where "op' = op\<lparr>o_rules := set_last f (o_rules op)\<rparr>" "rule_keeper f"
    by blast
  then have "list_all (\<lambda>r. r_tpl r = zero_template) (o_rules op') \<and> o_devices op' = o_devices op"
    by cases (use assms(3) update in simp_all)
  then show "list_all (\<lambda>r. r_tpl r = zero_template) (o_rules op')" "o_devices op' = o_devices op" by simp_all
qed

lemma reader_ok_op:
  assumes "reader_ok rd" and "options_ok op" and "same_entries (rd_op rd) op"
  shows "reader_ok (rd\<lparr>rd_op := op\<rparr>)"
  using assms by (simp add: reader_ok_def same_entries_def)

text \<open>One lemma per section; \<open>set_key\<close> dispatches on it.\<close>

lemma set_key_sections:
  assumes "set_key s v rd = Some rd'"
  obtains (top) n where "rd' = rd\<lparr>rd_version := n\<rparr>"
    | (interfaces) op where "rd_section rd = ''interfaces''" "set_interface s v (rd_op rd) = Some op" "rd' = rd\<lparr>rd_op := op\<rparr>"
    | (rule) op where "rd_section rd = ''tcp.rule''" "set_rule s v (rd_op rd) = Some op" "rd' = rd\<lparr>rd_op := op\<rparr>"
    | (tcp) "set_tcp s v rd = Some rd'"
    | (udp) op where "set_udp s v (rd_op rd) = Some op" "rd' = rd\<lparr>rd_op := op\<rparr>"
    | (injection) c where "set_injection s v (o_kernel (rd_op rd)) = Some c" "rd' = rd\<lparr>rd_op := rd_op rd\<lparr>o_kernel := c\<rparr>\<rparr>"
    | (runtime) op where "set_runtime s v (rd_op rd) = Some op" "rd' = rd\<lparr>rd_op := op\<rparr>"
proof -
  from assms show ?thesis unfolding set_key_def Let_def
  by - (elim if_split_asm_branch map_branch, rule that(1), assumption, simp, rule that(2), assumption+, rule that(3),
      assumption+, rule that(4), assumption, rule that(5), assumption+, rule that(6), assumption+, rule that(7),
      assumption+, simp)
qed

lemma set_key_ok:
  assumes ok: "reader_ok rd" and key: "set_key s v rd = Some rd'"
  shows "reader_ok rd'"
proof -
  have op: "options_ok (rd_op rd)" using ok by (simp add: reader_ok_def)
  from key show ?thesis
  proof (cases rule: set_key_sections)
    case top
    with ok show ?thesis by (simp add: reader_ok_def)
  next
    case interfaces
    with ok have "o_devices (rd_op rd) \<noteq> []" by (simp add: reader_ok_def)
    from set_interface_ok [OF interfaces(2) op this] ok interfaces show ?thesis
      by (simp add: reader_ok_def set_interface_rules [OF interfaces(2)])
  next
    case rule
    with ok have ne: "o_rules (rd_op rd) \<noteq> []" and z: "list_all (\<lambda>r. r_tpl r = zero_template) (o_rules (rd_op rd))"
      by (simp_all add: reader_ok_def)
    from set_rule_ok [OF rule(2) op ne] set_rule_entries [OF rule(2) ne z] ok rule show ?thesis
      by (simp add: reader_ok_def)
  next
    case tcp
    from set_tcp_entries [OF tcp] set_tcp_ok [OF tcp op] ok show ?thesis
      by (simp add: reader_ok_def same_entries_def)
  next
    case udp
    with reader_ok_op [OF ok set_udp_ok [OF udp(1) op] set_udp_entries [OF udp(1)]] show ?thesis by simp
  next
    case (injection c)
    have "options_ok (rd_op rd\<lparr>o_kernel := c\<rparr>)"
      using set_injection_ok [OF injection(1)] set_injection_frame [OF injection(1)] options_okD [OF op] op
      by (simp add: options_ok_kernel)
    with reader_ok_op [OF ok this] injection(2) show ?thesis by (simp add: same_entries_def)
  next
    case runtime
    with reader_ok_op [OF ok set_runtime_ok [OF runtime(1) op] set_runtime_entries [OF runtime(1)]] show ?thesis by simp
  qed
qed

lemma if_cases: "(if b then x else y) = Some z \<Longrightarrow> (b \<Longrightarrow> x = Some z \<Longrightarrow> P) \<Longrightarrow> (\<not> b \<Longrightarrow> y = Some z \<Longrightarrow> P) \<Longrightarrow> P"
  by (simp split: if_splits)

lemma read_header_ok:
  assumes ok: "reader_ok rd" and h: "read_header s rd = Some rd'"
  shows "reader_ok rd'"
proof -
  let ?op = "rd_op rd"
  from h consider
      "length (o_devices ?op) \<noteq> 8" "rd' = rd\<lparr>rd_op := ?op\<lparr>o_devices := o_devices ?op @ [empty_device]\<rparr>, rd_section := ''interfaces''\<rparr>"
    | "length (o_rules ?op) \<noteq> 3" "rd' = rd\<lparr>rd_op := ?op\<lparr>o_rules := o_rules ?op @ [zero_rule\<lparr>r_enabled := 1\<rparr>]\<rparr>, rd_section := ''tcp.rule''\<rparr>"
    | "s \<in> set [''[tcp]'', ''[udp]'', ''[injection]'', ''[runtime]'']" "rd' = rd\<lparr>rd_sections := butlast (tl s) # rd_sections rd, rd_section := butlast (tl s)\<rparr>"
    unfolding read_header_def Let_def abi_consts
    by (elim if_cases) simp_all
  then show ?thesis
  proof cases
    case 1
    with ok show ?thesis
      by (auto simp: reader_ok_def options_ok_def runtime_ok_def strings_fit_def empty_device_def device_fits_def)
  next
    case 2
    with ok show ?thesis
      by (auto simp: reader_ok_def options_ok_def runtime_ok_def strings_fit_def rule_fits_def zero_rule_def)
  next
    case 3
    then have "butlast (tl s) \<noteq> ''interfaces'' \<and> butlast (tl s) \<noteq> ''tcp.rule''" by auto
    with ok 3(2) show ?thesis by (simp add: reader_ok_def)
  qed
qed

lemma read_line_ok:
  assumes ok: "reader_ok rd" and l: "read_line line eof rd = Some rd'"
  shows "reader_ok rd'"
proof -
  have seen: "reader_ok (rd\<lparr>rd_seen := is\<rparr>)" for "is" using ok by (simp add: reader_ok_def)
  from l have "rd' = rd \<or> (\<exists>s. read_header s rd = Some rd') \<or> (\<exists>s v is. set_key s v (rd\<lparr>rd_seen := is\<rparr>) = Some rd')"
    unfolding read_line_def read_setting_def Let_def by (auto split: if_splits)
  then show ?thesis
    using ok read_header_ok [OF ok] set_key_ok [OF seen] by blast
qed

lemma read_lines_ok:
  "read_lines n f rd = Inr rd' \<Longrightarrow> reader_ok rd \<Longrightarrow> reader_ok rd'"
proof (induction n f rd rule: read_lines.induct)
  case (1 n f rd)
  show ?case
  proof (cases "fgets f")
    case None
    with "1.prems" show ?thesis by (simp add: read_lines.simps)
  next
    case (Some l)
    then obtain line eof rest where l: "fgets f = Some (line, eof, rest)" by (cases l) auto
    with "1.prems"(1) obtain rd1 where r: "read_line line eof rd = Some rd1" "read_lines (n + 1) rest rd1 = Inr rd'"
      by (subst (asm) read_lines.simps) (auto split: option.splits)
    show ?thesis
      by (rule "1.IH" [OF l refl refl r(1) r(2) read_line_ok [OF "1.prems"(2) r(1)]])
  qed
qed

lemma reader_start_ok: "reader_ok reader_start"
  using options_start by (simp add: reader_ok_def reader_start_def) (simp add: option_defaults_def)

end
