(* ===== verification/Hello.thy ===== *)
theory Hello
  imports Templates
begin

text \<open>
  The ClientHello of \<open>ebpf/user/templates.c\<close> read back by an independent reader of the TLS layers.
\<close>

section \<open>Reading a ClientHello back\<close>

text \<open>
  A reader of the record and handshake layers after RFC 8446 (4.1.2, 5.1) and RFC 6066 (3), written
  independently of the renderer: every length is checked, and nothing may be left over.
\<close>

definition be :: "u8 \<Rightarrow> u8 \<Rightarrow> nat" where
  "be a b = 256 * unat a + unat b"

definition split_at :: "nat \<Rightarrow> u8 list \<Rightarrow> (u8 list \<times> u8 list) option" where
  "split_at n xs = (if n \<le> length xs then Some (take n xs, drop n xs) else None)"

fun vec8 :: "u8 list \<Rightarrow> (u8 list \<times> u8 list) option" where
  "vec8 (a # xs) = split_at (unat a) xs"
| "vec8 _ = None"

fun vec16 :: "u8 list \<Rightarrow> (u8 list \<times> u8 list) option" where
  "vec16 (a # b # xs) = split_at (be a b) xs"
| "vec16 _ = None"

lemma vec16_shorter [termination_simp]: "vec16 xs = Some (d, ys) \<Longrightarrow> length ys < length xs"
  by (cases xs rule: vec16.cases) (auto simp: split_at_def split: if_splits)

fun extensions :: "u8 list \<Rightarrow> (nat \<times> u8 list) list option" where
  "extensions [] = Some []"
| "extensions [a] = None"
| "extensions (a # b # xs) =
     (case vec16 xs of
        None \<Rightarrow> None
      | Some (d, ys) \<Rightarrow> map_option ((#) (be a b, d)) (extensions ys))"

record hello =
  h_version :: nat
  h_random :: "u8 list"
  h_session :: "u8 list"
  h_suites :: "u8 list"
  h_compression :: "u8 list"
  h_extensions :: "(nat \<times> u8 list) list"

definition read_body :: "u8 list \<Rightarrow> hello option" where
  "read_body xs =
     (case xs of
        a # b # ys \<Rightarrow> Option.bind (split_at 32 ys) (\<lambda>(random, ys).
          Option.bind (vec8 ys) (\<lambda>(session, ys).
          Option.bind (vec16 ys) (\<lambda>(suites, ys).
          Option.bind (vec8 ys) (\<lambda>(compression, ys).
          Option.bind (vec16 ys) (\<lambda>(exts, ys).
            if ys \<noteq> [] then None
            else map_option (\<lambda>es. \<lparr>h_version = be a b, h_random = random, h_session = session,
              h_suites = suites, h_compression = compression, h_extensions = es\<rparr>) (extensions exts))))))
      | _ \<Rightarrow> None)"

definition read_handshake :: "u8 list \<Rightarrow> hello option" where
  "read_handshake xs =
     (case xs of
        t # a # b # c # ys \<Rightarrow>
          if t = 1 \<and> 65536 * unat a + be b c = length ys then read_body ys else None
      | _ \<Rightarrow> None)"

definition read_record :: "u8 list \<Rightarrow> hello option" where
  "read_record xs =
     (case xs of
        t # a # b # ys \<Rightarrow>
          if t = 22 \<and> a = 3 then
            Option.bind (vec16 ys) (\<lambda>(f, rest). if rest = [] then read_handshake f else None)
          else None
      | _ \<Rightarrow> None)"

text \<open>The host name of a server name extension.\<close>

definition server_name :: "u8 list \<Rightarrow> u8 list option" where
  "server_name d =
     Option.bind (vec16 d) (\<lambda>(l, rest).
       case l of
         t # xs \<Rightarrow> if t = 0 \<and> rest = [] then
             Option.bind (vec16 xs) (\<lambda>(name, rest). if rest = [] then Some name else None)
           else None
       | _ \<Rightarrow> None)"

section \<open>The rendered bytes\<close>

lemma length_put16 [simp, size_simps]: "length (put16 n) = 2"
  by (simp add: put16_def)

lemma put_append:
  "length bs \<le> k \<Longrightarrow> put bs (xs @ replicate k 0, length xs) = ((xs @ bs) @ replicate (k - length bs) 0, length (xs @ bs))"
  by (simp add: put_def blit_def)

lemma put_numeral: "n = length xs \<Longrightarrow> length bs \<le> k \<Longrightarrow>
    put bs (xs @ replicate k 0, n) = ((xs @ bs) @ replicate (k - length bs) 0, n + length bs)"
  by (simp add: put_def blit_def)

lemma be_put16: "n < 65536 \<Longrightarrow> be (of_nat (n div 256)) (of_nat n) = n"
  by (simp add: be_def unat_of_nat)

lemma vec16_put16: "n < 65536 \<Longrightarrow> vec16 (put16 n @ xs) = split_at n xs"
  by (simp add: put16_def be_put16)

lemma split_at_append [simp]: "n = length xs \<Longrightarrow> split_at n (xs @ ys) = Some (xs, ys)"
  by (simp add: split_at_def)

definition hello_extensions :: "string \<Rightarrow> u8 list" where
  "hello_extensions hostname = tls_server_name hostname @ tls_groups @ tls_signatures @ tls_formats @ tls_alpn @
     put16 21 @ put16 (351 - length hostname) @ replicate (351 - length hostname) 0"

definition hello_bytes :: "string \<Rightarrow> u8 list \<Rightarrow> u8 list \<Rightarrow> u8 list" where
  "hello_bytes hostname random session =
     [22, 3, 1, 1, 251, 1, 0, 1, 247, 3, 3] @ random @ [32] @ session @ put16 12 @ tls_suites @ [1, 0] @
     put16 418 @ hello_extensions hostname"

lemma length_tls_server_name [simp]: "length (tls_server_name h) = length h + 9"
  by (simp add: tls_server_name_def Let_def)

lemma tls_lengths [simp]: "length tls_suites = 12" "length tls_groups = 12" "length tls_signatures = 18"
  "length tls_formats = 6" "length tls_alpn = 18"
  by (simp_all add: tls_suites_def tls_groups_def tls_signatures_def tls_formats_def tls_alpn_def)

lemma length_hello_extensions [simp]: "length h \<le> 253 \<Longrightarrow> length (hello_extensions h) = 418"
  by (simp add: hello_extensions_def)

lemma tls_start:
  assumes "length r = 32" and "length s = 32"
  shows "blit 44 s ((blit 11 r (blit 9 (put16 0x0303) ((blit 1 (put16 0x0301) ((replicate 1200 0)[0 := 22]))[5 := 1])))[43 := 32]) =
    ([22, 3, 1, 0, 0, 1, 0, 0, 0, 3, 3] @ r @ [32] @ s) @ replicate 1124 0" (is "?l = ?r")
proof -
  have z: "replicate 1200 0 = [0,0,0,0,0,0,0,0,0,0,0] @ replicate 32 0 @ [0] @ replicate 32 0 @ replicate 1124 (0::u8)"
    by (simp add: replicate_add [symmetric] flip: replicate_Suc)
  show ?thesis unfolding z using assms by (simp add: blit_def put16_def list_update_append)
qed

lemma tls_bytes:
  assumes n: "length hostname \<le> 253" and G: "G 32 rs = (r, rs1)" "G 32 rs1 = (s, rs2)"
    and r: "length r = 32" and s: "length s = 32"
  shows "tls G hostname rs =
    (Some \<lparr>t_len = 512, t_data = hello_bytes hostname r s @ replicate 688 0\<rparr>, rs2)"
proof -
  define hd where "hd = [22, 3, 1, 0, 0, 1, 0, 0, 0, 3, 3::u8] @ r @ [32] @ s"
  have lh: "length hd = 76" using r s by (simp add: hd_def)
  define m where "m = hd @ put16 12 @ tls_suites @ [1, 0]"
  have lm: "length m = 92" using lh by (simp add: m_def)
  have p1: "put [1, 0] (put tls_suites (put (put16 (length tls_suites)) (hd @ replicate 1124 0, 76))) =
      (m @ replicate 1108 0, 92)"
    using lh by (simp add: put_numeral m_def del: append_assoc)
  define e where "e = (m @ [0, 0]) @ tls_server_name hostname @ tls_groups @ tls_signatures @ tls_formats @ tls_alpn"
  have le: "length e = 157 + length hostname" using lm by (simp add: e_def)
  have z: "replicate 1108 0 = [0, 0] @ replicate 1106 (0::u8)"
    by (simp add: replicate_add [symmetric] flip: replicate_Suc)
  have p2: "put tls_alpn (put tls_formats (put tls_signatures (put tls_groups (put (tls_server_name hostname)
      (m @ replicate 1108 0, 94))))) = (e @ replicate (1043 - length hostname) 0, 157 + length hostname)"
    unfolding z append_assoc [symmetric, of m] using n lm
    by (simp add: put_numeral e_def del: append_assoc)
  have p3: "put (put16 21) (e @ replicate (1043 - length hostname) 0, 157 + length hostname) =
      ((e @ put16 21) @ replicate (1041 - length hostname) 0, 159 + length hostname)"
    using n le by (simp add: put_numeral del: append_assoc)
  have p4: "put (put16 (351 - length hostname)) ((e @ put16 21) @ replicate (1041 - length hostname) 0, 159 + length hostname)
      = ((e @ put16 21 @ put16 (351 - length hostname)) @ replicate (1039 - length hostname) 0, 161 + length hostname)"
    using n le by (simp add: put_numeral del: append_assoc)
  have z3: "replicate (1039 - length hostname) (0::u8) = replicate (351 - length hostname) 0 @ replicate 688 0"
    using n by (simp add: replicate_add [symmetric])
  let ?t = "(e @ put16 21 @ put16 (351 - length hostname)) @ replicate (1039 - length hostname) 0"
  have fin: "(blit 3 (put16 507) (blit 92 (put16 418) ?t))[6 := of_nat (503 div 65536), 7 := of_nat (503 div 256), 8 := of_nat 503] =
      hello_bytes hostname r s @ replicate 688 0"
    unfolding z3 e_def using r s
    by (simp add: m_def hd_def hello_bytes_def hello_extensions_def blit_def put16_def list_update_append)
  show ?thesis
    using n G r s tls_start [OF r s, folded hd_def] p1 p2 p3 p4 fin
    by (simp add: tls_def Let_def FF_TLS_HELLO_BYTES_def)
qed

lemma split_at_all [simp]: "n = length xs \<Longrightarrow> split_at n xs = Some (xs, [])"
  by (simp add: split_at_def)

lemma split_at_one [simp]: "split_at (Suc 0) (x # xs) = Some ([x], xs)"
  by (simp add: split_at_def)

lemma extensions_step:
  "t < 65536 \<Longrightarrow> length d < 65536 \<Longrightarrow> length d = n \<Longrightarrow>
    extensions (put16 t @ put16 n @ d @ rest) = map_option ((#) (t, d)) (extensions rest)"
  by (simp add: put16_def be_put16)

lemma tls_extensions:
  "tls_server_name h = put16 0 @ put16 (length h + 5) @ drop 4 (tls_server_name h)"
  "tls_groups = put16 10 @ put16 8 @ drop 4 tls_groups"
  "tls_signatures = put16 13 @ put16 14 @ drop 4 tls_signatures"
  "tls_formats = put16 11 @ put16 2 @ drop 4 tls_formats"
  "tls_alpn = put16 16 @ put16 14 @ drop 4 tls_alpn"
  by (simp_all add: tls_server_name_def tls_groups_def tls_signatures_def tls_formats_def tls_alpn_def Let_def)

lemma read_extensions:
  assumes n: "length hostname \<le> 253"
  shows "extensions (hello_extensions hostname) = Some [(0, drop 4 (tls_server_name hostname)),
      (10, drop 4 tls_groups), (13, drop 4 tls_signatures), (11, drop 4 tls_formats), (16, drop 4 tls_alpn),
      (21, replicate (351 - length hostname) 0)]"
proof -
  have p: "extensions (put16 21 @ put16 (351 - length hostname) @ replicate (351 - length hostname) 0) =
      Some [(21, replicate (351 - length hostname) 0)]"
    using extensions_step [of 21 "replicate (351 - length hostname) 0" "351 - length hostname" "[]"] by simp
  show ?thesis
    unfolding hello_extensions_def
    by (subst tls_extensions(1), subst tls_extensions(2), subst tls_extensions(3), subst tls_extensions(4),
        subst tls_extensions(5)) (use n in \<open>simp add: extensions_step p del: drop_append\<close>)
qed

lemma read_hello_bytes:
  assumes n: "length hostname \<le> 253" and r: "length r = 32" and s: "length s = 32"
  shows "read_record (hello_bytes hostname r s) =
    Some \<lparr>h_version = 0x0303, h_random = r, h_session = s, h_suites = tls_suites, h_compression = [0],
      h_extensions = [(0, drop 4 (tls_server_name hostname)), (10, drop 4 tls_groups), (13, drop 4 tls_signatures),
        (11, drop 4 tls_formats), (16, drop 4 tls_alpn), (21, replicate (351 - length hostname) 0)]\<rparr>"
  using r s n read_extensions [OF n]
  by (simp add: hello_bytes_def read_record_def read_handshake_def read_body_def be_def put16_def)

lemma server_name_hostname:
  "length hostname \<le> 253 \<Longrightarrow> server_name (drop 4 (tls_server_name hostname)) = Some (string_bytes hostname)"
  by (simp add: server_name_def tls_server_name_def Let_def vec16_put16)

text \<open>
  Property C37. A reader of the TLS record and handshake layers that checks every length and accepts
  no left-over byte reads the rendered ClientHello: it has the random and session id drawn, the
  suites and extensions of the source, and the server name extension names the configured host. The
  message is 512 bytes whatever the host name, so its length says nothing about the host.
\<close>
theorem client_hello_roundtrip:
  assumes "length hostname \<le> 253" and "G 32 rs = (r, rs1)" and "G 32 rs1 = (s, rs2)"
    and "length r = 32" and "length s = 32"
  shows "\<exists>t h. tls G hostname rs = (Some t, rs2) \<and> t_len t = 512 \<and> length (t_data t) = FF_PAYLOAD_MAX \<and>
    read_record (take 512 (t_data t)) = Some h \<and> h_version h = 0x0303 \<and> h_random h = r \<and> h_session h = s \<and>
    h_suites h = tls_suites \<and> map fst (h_extensions h) = [0, 10, 13, 11, 16, 21] \<and>
    map_option server_name (map_of (h_extensions h) 0) = Some (Some (string_bytes hostname))"
proof -
  have "length (hello_bytes hostname r s) = 512" using assms by (simp add: hello_bytes_def)
  then show ?thesis
    using tls_bytes [where G = G, OF assms] read_hello_bytes [OF assms(1,4,5)] server_name_hostname [OF assms(1)] by simp
qed

text \<open>A random source for the witnesses: it counts, and delivers what is asked for.\<close>

definition counting_source :: "nat random" where
  "counting_source n i = (map of_nat [i..<i + n], i + n)"

theorem client_hello_roundtrip_witness:
  "\<exists>t h. tls counting_source ''www.example.com'' 0 = (Some t, 64) \<and> t_len t = 512 \<and>
    read_record (take 512 (t_data t)) = Some h \<and>
    map_option server_name (map_of (h_extensions h) 0) = Some (Some (string_bytes ''www.example.com''))"
proof -
  have c: "counting_source 32 0 = (map of_nat [0..<32], 32)" "counting_source 32 32 = (map of_nat [32..<64], 64)"
    by (simp_all add: counting_source_def)
  have n: "length ''www.example.com'' \<le> 253" by simp
  show ?thesis
    using client_hello_roundtrip [where G = counting_source, OF n c] by (simp del: upt.simps) blast
qed

end
