(* ===== verification/Variants.thy ===== *)
theory Variants
  imports Hello
begin

text \<open>
  What rendering promises (\<open>ff_templates\<close> and \<open>ff_variants\<close> of \<open>ebpf/user/templates.c\<close>): the
  templates of the rules are what their types say, the rotation's table lists the enabled rules, the
  recorded fields are inside the datagram and hexadecimal, and every variant is its canonical
  template up to those fields.
\<close>

section \<open>What a template is\<close>

definition template_shape :: "ff_template \<Rightarrow> bool" where
  "template_shape t \<longleftrightarrow> unat (t_len t) \<le> FF_PAYLOAD_MAX \<and> length (t_data t) = FF_PAYLOAD_MAX"

definition template_ok :: "ff_template \<Rightarrow> bool" where
  "template_ok t \<longleftrightarrow> template_shape t \<and> 0 < t_len t"

lemma zero_template_shape [simp]: "template_shape zero_template" "t_len zero_template = 0"
  by (simp_all add: template_shape_def zero_template_def)

lemma custom_ok:
  assumes "custom files path = Some t"
  obtains bs where "files path = Some bs" "template_ok t" "unat (t_len t) = length bs" "take (length bs) (t_data t) = bs"
proof -
  from assms obtain bs where f: "files path = Some bs" "bs \<noteq> []" "length bs \<le> 1200"
    and t: "t = \<lparr>t_len = of_nat (length bs), t_data = bs @ replicate (FF_PAYLOAD_MAX - length bs) 0\<rparr>"
    by (auto simp: custom_def split: option.splits if_splits)
  have l: "unat (of_nat (length bs) :: u32) = length bs"
    using f(3) by (simp add: unat_of_nat)
  with f t have "template_ok t" by (simp add: template_ok_def template_shape_def word_gt_0 flip: unat_eq_zero)
  with f t l show ?thesis by (intro that [of bs]) simp_all
qed

lemma text_template_ok:
  assumes "text_template s = Some t" and "s \<noteq> []"
  shows "template_ok t" and "unat (t_len t) = length s" and "take (length s) (t_data t) = string_bytes s"
proof -
  from assms have f: "length s < 1200" "t = \<lparr>t_len = of_nat (length s), t_data = string_bytes s @ replicate (FF_PAYLOAD_MAX - length s) 0\<rparr>"
    by (auto simp: text_template_def split: if_splits)
  have l: "unat (of_nat (length s) :: u32) = length s" using f(1) by (simp add: unat_of_nat)
  with f assms(2) show "template_ok t"
    by (simp add: template_ok_def template_shape_def word_gt_0 flip: unat_eq_zero)
  from f l show "unat (t_len t) = length s" "take (length s) (t_data t) = string_bytes s" by simp_all
qed

text \<open>A template that reads as a ClientHello for a host.\<close>

definition hello_for :: "string \<Rightarrow> ff_template \<Rightarrow> bool" where
  "hello_for host t \<longleftrightarrow> t_len t = 512 \<and> length (t_data t) = FF_PAYLOAD_MAX \<and>
     map_option (\<lambda>h. map_option server_name (map_of (h_extensions h) 0)) (read_record (take 512 (t_data t))) =
       Some (Some (Some (string_bytes host)))"

lemma hello_for_ok: "hello_for host t \<Longrightarrow> template_ok t"
  by (simp add: hello_for_def template_ok_def template_shape_def)

lemma tls_hello:
  assumes "tls G hostname rs = (Some t, rs')"
  shows "hello_for hostname t" and "length hostname \<le> 253"
proof -
  obtain r rs1 where r: "G 32 rs = (r, rs1)" by fastforce
  obtain s rs2 where s: "G 32 rs1 = (s, rs2)" by fastforce
  from assms r s have n: "length hostname \<le> 253" "length r = 32" "length s = 32"
    by (auto simp: tls_def Let_def split: if_splits prod.splits)
  have l: "length (hello_bytes hostname r s) = 512" using n by (simp add: hello_bytes_def)
  have "t = \<lparr>t_len = 512, t_data = hello_bytes hostname r s @ replicate 688 0\<rparr>"
    using tls_bytes [where G = G, OF n(1) r s n(2,3)] assms by simp
  then show "hello_for hostname t"
    using l read_hello_bytes [OF n] server_name_hostname [OF n(1)] by (simp add: hello_for_def)
  show "length hostname \<le> 253" by (rule n)
qed

text \<open>A random source that always delivers.\<close>

definition delivers :: "'r random \<Rightarrow> bool" where
  "delivers G \<longleftrightarrow> (\<forall>n rs. length (fst (G n rs)) = n)"

lemma deliversD: "delivers G \<Longrightarrow> G n rs = (bs, rs') \<Longrightarrow> length bs = n"
  unfolding delivers_def by (metis fst_conv)

lemma tls_delivers:
  assumes "delivers G" and "length hostname \<le> 253"
  obtains t rs' where "tls G hostname rs = (Some t, rs')"
proof -
  obtain r rs1 where r: "G 32 rs = (r, rs1)" by fastforce
  obtain s rs2 where s: "G 32 rs1 = (s, rs2)" by fastforce
  show ?thesis
    by (rule that) (rule tls_bytes [where G = G, OF assms(2) r s deliversD [OF assms(1) r] deliversD [OF assms(1) s]])
qed

section \<open>Random tokens are hexadecimal\<close>

lemma hex_digit_is_hex: "n < 16 \<Longrightarrow> is_hex (hex_digit n)"
  by (auto simp: hex_digit_def is_hex_def word_less_nat_alt word_le_nat_alt unat_word_ariths split: if_splits)

lemma nibbles: "drop_bit 4 (b :: u8) < 16" "b AND 15 < 16"
proof -
  show "drop_bit 4 b < 16"
    using unat_u8 [of b] by (simp only: word_less_nat_alt unat_drop_bit_eq) (simp add: drop_bit_eq_div)
  show "b AND 15 < 16" using word_and_le1 [of b 15] by (simp add: word_le_nat_alt word_less_nat_alt)
qed

lemma hex_raw_hex:
  assumes "hex_raw G n rs = (h, rs')"
  shows "length h = 2 * min n 32" and "list_all is_hex h"
proof -
  obtain b rs1 where g: "G (min n 32) rs = (b, rs1)" by fastforce
  define r where "r = (if length b \<noteq> min n 32 then map (\<lambda>i. of_nat (i * 37 + 11)) [0..<min n 32] else b)"
  have "h = concat (map (\<lambda>b. [hex_digit (drop_bit 4 b), hex_digit (b AND 15)]) r)"
    using assms g by (simp add: hex_raw_def Let_def r_def del: map_map)
  moreover have "length r = min n 32" by (simp add: r_def)
  ultimately show "length h = 2 * min n 32" "list_all is_hex h"
    by (simp_all add: length_concat comp_def sum_list_triv list_all_iff hex_digit_is_hex nibbles)
qed

section \<open>The recorded fields and their patches\<close>

definition in_field :: "ff_rand_field list \<Rightarrow> nat \<Rightarrow> bool" where
  "in_field fs j \<longleftrightarrow> list_ex (\<lambda>f. rf_off f \<le> j \<and> j < rf_off f + 2 * rf_bytes f) fs"

definition fields_ok :: "ff_template \<Rightarrow> ff_rand_field list \<Rightarrow> bool" where
  "fields_ok t fs \<longleftrightarrow> list_all (\<lambda>f. rf_off f + 2 * rf_bytes f < unat (t_len t)) fs \<and>
     (\<forall>j. in_field fs j \<longrightarrow> is_hex (t_data t ! j))"

lemma in_field_simps [simp]: "\<not> in_field [] j"
  "in_field (f # fs) j \<longleftrightarrow> rf_off f \<le> j \<and> j < rf_off f + 2 * rf_bytes f \<or> in_field fs j"
  by (simp_all add: in_field_def)

lemma locate_from_ok:
  "locate_from ms t = Some fs \<Longrightarrow> template_shape t \<Longrightarrow>
    fields_ok t fs \<and> map rf_bytes fs = map (\<lambda>(m, k, n, e). n) ms"
proof (induction ms arbitrary: fs)
  case Nil
  then show ?case by (simp add: fields_ok_def)
next
  case (Cons m ms)
  obtain mk k n e where m: "m = (mk, k, n, e)" by (cases m) auto
  with Cons.prems obtain q fs' where q: "find_bytes (string_bytes mk) (c_string (t_data t)) = Some q"
    and b: "q + k + n * 2 < unat (t_len t)"
    and h: "list_all is_hex (take (n * 2) (drop (q + k) (t_data t)))"
    and fs: "locate_from ms t = Some fs'" "fs = \<lparr>rf_off = q + k, rf_bytes = n\<rparr> # fs'"
    by (auto simp: Let_def split: option.splits if_splits)
  have l: "length (t_data t) = 1200" "unat (t_len t) \<le> 1200" using Cons.prems(2) by (simp_all add: template_shape_def)
  have "is_hex (t_data t ! j)" if "q + k \<le> j" "j < q + k + 2 * n" for j
  proof -
    have "take (n * 2) (drop (q + k) (t_data t)) ! (j - (q + k)) = t_data t ! j" using that b l by simp
    moreover have "j - (q + k) < length (take (n * 2) (drop (q + k) (t_data t)))" using that b l by simp
    ultimately show ?thesis using h by (metis list_all_length)
  qed
  with Cons.IH [OF fs(1) Cons.prems(2)] fs(2) b m show ?case by (auto simp: fields_ok_def)
qed

lemma locate_ok:
  assumes "locate t = Some fs" and "template_shape t"
  shows "fields_ok t fs" and "map rf_bytes fs = [16, 4, 16]"
  using locate_from_ok [OF assms(1) [unfolded locate_def] assms(2)] by (simp_all add: rand_marks_def)

text \<open>\<open>t'\<close> is \<open>t\<close> with hexadecimal digits in the fields.\<close>

definition patched :: "ff_rand_field list \<Rightarrow> ff_template \<Rightarrow> ff_template \<Rightarrow> bool" where
  "patched fs t t' \<longleftrightarrow> t_len t' = t_len t \<and> length (t_data t') = length (t_data t) \<and>
     (\<forall>j < length (t_data t). if in_field fs j then is_hex (t_data t' ! j) else t_data t' ! j = t_data t ! j)"

lemma patch_fields_patched:
  "fields_ok t fs \<Longrightarrow> template_shape t \<Longrightarrow> \<exists>t' rs'. patch_fields G fs t rs = (Some t', rs') \<and> patched fs t t'"
proof (induction fs arbitrary: t rs)
  case Nil
  then show ?case by (simp add: patched_def)
next
  case (Cons f fs)
  have l: "length (t_data t) = 1200" "unat (t_len t) \<le> 1200" "rf_off f + 2 * rf_bytes f < unat (t_len t)"
    using Cons.prems by (simp_all add: template_shape_def fields_ok_def)
  show ?case
  proof (cases "rf_bytes f = 0")
    case True
    with Cons.prems have "fields_ok t fs" by (simp add: fields_ok_def)
    from Cons.IH [OF this Cons.prems(2), of rs] True show ?thesis
      by (auto simp: patched_def)
  next
    case False
    obtain h rs1 where h: "hex_raw G (rf_bytes f) rs = (h, rs1)" by fastforce
    note hh = hex_raw_hex [OF h]
    let ?t = "t\<lparr>t_data := blit (rf_off f) h (t_data t)\<rparr>"
    have le: "rf_off f + length h \<le> length (t_data t)" using hh(1) l by simp
    have nth: "t_data ?t ! j = (if rf_off f \<le> j \<and> j < rf_off f + length h then h ! (j - rf_off f) else t_data t ! j)"
      if "j < 1200" for j using nth_blit [OF le] that l by simp
    have hex: "is_hex (h ! i)" if "i < length h" for i using hh(2) that by (simp add: list_all_length)
    have infield: "j < 1200" if "in_field (f # fs) j" for j
      using Cons.prems(1) that l by (fastforce simp: fields_ok_def in_field_def list_all_iff list_ex_iff)
    have ok: "is_hex (t_data ?t ! j)" if "in_field (f # fs) j" for j
      using Cons.prems(1) that nth [OF infield [OF that]] hex [of "j - rf_off f"]
      by (auto simp: fields_ok_def)
    have "fields_ok ?t fs" using Cons.prems(1) ok by (simp add: fields_ok_def)
    moreover have shape: "template_shape ?t" using Cons.prems(2) le by (simp add: template_shape_def size_simps)
    ultimately obtain t' rs' where r: "patch_fields G fs ?t rs1 = (Some t', rs')" "patched fs ?t t'"
      using Cons.IH [of ?t rs1] by blast
    have len: "length (t_data ?t) = 1200" using shape by (simp add: template_shape_def)
    have "patched (f # fs) t t'"
      unfolding patched_def
    proof (intro conjI allI impI)
      show "t_len t' = t_len t" "length (t_data t') = length (t_data t)"
        using r(2) len l by (simp_all add: patched_def)
      fix j assume "j < length (t_data t)"
      with l have j: "j < 1200" by simp
      then have p: "if in_field fs j then is_hex (t_data t' ! j) else t_data t' ! j = t_data ?t ! j"
        using r(2) len unfolding patched_def by simp
      show "if in_field (f # fs) j then is_hex (t_data t' ! j) else t_data t' ! j = t_data t ! j"
        using p ok [of j] nth [OF j] hh(1) by (auto split: if_splits)
    qed
    moreover have "patch_fields G (f # fs) t rs = (Some t', rs')"
      using False l(3) h r(1) by simp
    ultimately show ?thesis by blast
  qed
qed

section \<open>The variants of a plan\<close>

definition plan_fits :: "ff_plan \<Rightarrow> string \<Rightarrow> ff_template \<Rightarrow> bool" where
  "plan_fits p host base \<longleftrightarrow> template_shape base \<and>
     (case pl_kind p of
        FF_VARIANT_SAME \<Rightarrow> True
      | FF_VARIANT_PATCH \<Rightarrow> fields_ok base (pl_rand p)
      | FF_VARIANT_RENDER \<Rightarrow> hello_for host base \<and> length host \<le> 253)"

definition variant_of :: "ff_plan \<Rightarrow> string \<Rightarrow> ff_template \<Rightarrow> ff_template \<Rightarrow> bool" where
  "variant_of p host base t \<longleftrightarrow>
     (case pl_kind p of
        FF_VARIANT_SAME \<Rightarrow> t = base
      | FF_VARIANT_PATCH \<Rightarrow> patched (pl_rand p) base t
      | FF_VARIANT_RENDER \<Rightarrow> hello_for host t)"

lemma base_variant: "plan_fits p host base \<Longrightarrow> variant_of p host base base"
  by (auto simp: plan_fits_def variant_of_def patched_def fields_ok_def split: ff_variant_kind.splits)

lemma variant_len: "plan_fits p host base \<Longrightarrow> variant_of p host base t \<Longrightarrow>
    t_len t = t_len base \<and> template_shape t"
  by (auto simp: plan_fits_def variant_of_def patched_def hello_for_def template_shape_def split: ff_variant_kind.splits)

lemma render_variant_ok:
  assumes "plan_fits p host base" and "render_variant G p base host v rs = (Some t, rs')"
  shows "variant_of p host base t" and "v = 0 \<Longrightarrow> t = base"
proof -
  show "v = 0 \<Longrightarrow> t = base" using assms(2) by (simp add: render_variant_def)
  show "variant_of p host base t"
  proof (cases "v = 0")
    case True
    with assms base_variant show ?thesis by (auto simp: render_variant_def)
  next
    case False
    show ?thesis
    proof (cases "pl_kind p")
      case FF_VARIANT_PATCH
      with assms patch_fields_patched [of base "pl_rand p" G rs] False show ?thesis
        by (auto simp: render_variant_def variant_of_def plan_fits_def)
    qed (use assms False in \<open>auto simp: render_variant_def variant_of_def tls_hello(1)\<close>)
  qed
qed

lemma render_variant_total:
  assumes "delivers G" and "plan_fits p host base"
  obtains t rs' where "render_variant G p base host v rs = (Some t, rs')"
proof (cases "pl_kind p")
  case FF_VARIANT_PATCH
  with assms(2) patch_fields_patched [of base "pl_rand p" G rs] that show ?thesis
    by (cases "v = 0") (auto simp: render_variant_def plan_fits_def)
next
  case FF_VARIANT_RENDER
  with assms obtain t rs' where "tls G host rs = (Some t, rs')"
    using tls_delivers [OF assms(1), of host rs] by (auto simp: plan_fits_def)
  with FF_VARIANT_RENDER that show ?thesis by (cases "v = 0") (auto simp: render_variant_def)
next
  case FF_VARIANT_SAME
  with that show ?thesis by (cases "v = 0") (auto simp: render_variant_def)
qed

lemma render_variants_ok:
  assumes "plan_fits p host base"
  shows "render_variants G p base host v k rs = (Some ts, rs') \<Longrightarrow>
    length ts = k \<and> list_all (variant_of p host base) ts \<and> (v = 0 \<and> 0 < k \<longrightarrow> hd ts = base)"
proof (induction k arbitrary: v rs ts)
  case (Suc k)
  from Suc.prems obtain t rs1 ts' where r: "render_variant G p base host v rs = (Some t, rs1)"
    "render_variants G p base host (v + 1) k rs1 = (Some ts', rs')" "ts = t # ts'"
    by (auto split: prod.splits option.splits)
  from Suc.IH [OF r(2)] render_variant_ok [OF assms r(1)] r(3) show ?case by simp
qed simp

lemma render_variants_total:
  assumes "delivers G" and "plan_fits p host base"
  shows "\<exists>ts rs'. render_variants G p base host v k rs = (Some ts, rs')"
proof (induction k arbitrary: v rs)
  case (Suc k)
  obtain t rs1 where r: "render_variant G p base host v rs = (Some t, rs1)"
    using render_variant_total [OF assms] by blast
  from Suc.IH [of "v + 1" rs1] r show ?case by fastforce
qed simp

definition plan_host :: "ff_options \<Rightarrow> nat \<Rightarrow> string" where
  "plan_host op plan = (if plan < 3 then r_hostname (rule_at op plan) else [])"

text \<open>What the variants of one plan are to the options they are rendered from.\<close>

definition variants_ok :: "ff_options \<Rightarrow> nat \<Rightarrow> nat \<Rightarrow> ff_template list \<Rightarrow> bool" where
  "variants_ok op n plan ts \<longleftrightarrow> length ts = n \<and> hd ts = plan_base op plan \<and>
     list_all (\<lambda>t. variant_of (o_plan op ! plan) (plan_host op plan) (plan_base op plan) t \<and>
       t_len t = t_len (plan_base op plan) \<and> template_shape t) ts"

definition plans_fit :: "ff_options \<Rightarrow> bool" where
  "plans_fit op \<longleftrightarrow> length (o_plan op) = 4 \<and>
     list_all (\<lambda>i. plan_fits (o_plan op ! i) (plan_host op i) (plan_base op i)) [0..<4]"

lemma plan_variants_ok:
  assumes fit: "plan_fits (o_plan op ! plan) (plan_host op plan) (plan_base op plan)" and n: "0 < n"
    and run: "plan_variants G op n plan rs = (Some ts, rs')"
  shows "variants_ok op n plan ts"
proof -
  let ?p = "o_plan op ! plan"
  let ?count = "min (if pl_variants ?p = 0 then 1 else pl_variants ?p) n"
  from run obtain us where r: "render_variants G ?p (plan_base op plan) (plan_host op plan) 0 ?count rs = (Some us, rs')"
    and ts: "ts = us @ replicate (n - ?count) (plan_base op plan)"
    by (auto simp: plan_variants_def plan_host_def Let_def split: prod.splits option.splits)
  have c: "0 < ?count" "?count \<le> n" using n by auto
  note ok = render_variants_ok [OF fit r]
  have "us \<noteq> []" using ok c by auto
  then have "hd ts = plan_base op plan" using ok c(1) ts by (simp add: hd_append)
  moreover have "length ts = n" using ok c(2) ts by simp
  moreover have "list_all (variant_of ?p (plan_host op plan) (plan_base op plan)) ts"
    using ok base_variant [OF fit] ts by (auto simp: list_all_iff)
  ultimately show ?thesis
    using variant_len [OF fit] by (simp add: variants_ok_def list_all_iff)
qed

lemma plan_variants_total:
  assumes "delivers G" and "plan_fits (o_plan op ! plan) (plan_host op plan) (plan_base op plan)"
  shows "\<exists>ts rs'. plan_variants G op n plan rs = (Some ts, rs')"
proof -
  let ?p = "o_plan op ! plan"
  obtain us rs' where "render_variants G ?p (plan_base op plan) (plan_host op plan) 0
      (min (if pl_variants ?p = 0 then 1 else pl_variants ?p) n) rs = (Some us, rs')"
    using render_variants_total [OF assms] by blast
  then show ?thesis by (simp add: plan_variants_def plan_host_def Let_def)
qed

lemma all_plans_ok:
  "all_plans G op n plans rs = (Some tss, rs') \<Longrightarrow> 0 < n \<Longrightarrow>
    list_all (\<lambda>i. plan_fits (o_plan op ! i) (plan_host op i) (plan_base op i)) plans \<Longrightarrow>
    list_all2 (variants_ok op n) plans tss"
proof (induction plans arbitrary: rs tss)
  case (Cons plan plans)
  from Cons.prems(1) obtain ts rs1 tss' where r: "plan_variants G op n plan rs = (Some ts, rs1)"
    "all_plans G op n plans rs1 = (Some tss', rs')" "tss = ts # tss'"
    by (auto split: prod.splits option.splits)
  with Cons plan_variants_ok [OF _ Cons.prems(2) r(1)] show ?case by simp
qed simp

lemma all_plans_total:
  "delivers G \<Longrightarrow> list_all (\<lambda>i. plan_fits (o_plan op ! i) (plan_host op i) (plan_base op i)) plans \<Longrightarrow>
    \<exists>tss rs'. all_plans G op n plans rs = (Some tss, rs')"
proof (induction plans arbitrary: rs)
  case (Cons plan plans)
  obtain ts rs1 where "plan_variants G op n plan rs = (Some ts, rs1)"
    using plan_variants_total [OF Cons.prems(1)] Cons.prems(2) by fastforce
  with Cons.IH [of rs1] Cons.prems show ?case by fastforce
qed simp

lemma ff_variants_ok:
  assumes "plans_fit op" and "ff_variants G op n rs = (Some tss, rs')"
  shows "list_all2 (variants_ok op n) [0..<4] tss"
  using assms all_plans_ok [of G op n "[0..<4]" rs tss rs']
  by (simp add: ff_variants_def plans_fit_def split: if_splits del: upt_rec_numeral)

lemma ff_variants_total:
  assumes "plans_fit op" and "delivers G" and "0 < n" and "n \<le> 32"
  obtains tss rs' where "ff_variants G op n rs = (Some tss, rs')"
  using assms all_plans_total [of G op "[0..<4]" n rs]
  by (auto simp: ff_variants_def plans_fit_def simp del: upt_rec_numeral)

section \<open>The rendered rules\<close>

text \<open>What the template of a rule has to be.\<close>

definition rule_renders :: "(string \<Rightarrow> u8 list option) \<Rightarrow> ff_rule \<Rightarrow> ff_template \<Rightarrow> bool" where
  "rule_renders files r t \<longleftrightarrow> template_ok t \<and>
     (if r_type r = ''custom'' then files (r_file r) = Some (take (unat (t_len t)) (t_data t))
      else safe_text (r_hostname r) \<and>
        (if r_type r = ''http'' then take (unat (t_len t)) (t_data t) = string_bytes (http_text (r_hostname r))
         else r_type r = ''tls'' \<and> hello_for (r_hostname r) t \<and> length (r_hostname r) \<le> 253))"

lemma http_text_nonempty: "http_text h \<noteq> []"
  by (simp add: http_text_def)

lemma rule_template_renders:
  assumes "rule_template G files r rs = (Inr (t, again), rs')"
  shows "rule_renders files r t" and "again \<longleftrightarrow> r_type r = ''tls''"
proof -
  consider (custom) "r_type r = ''custom''" "custom files (r_file r) = Some t" "\<not> again"
    | (http) "r_type r = ''http''" "safe_text (r_hostname r)" "http (r_hostname r) = Some t" "\<not> again"
    | (tls) "r_type r = ''tls''" "safe_text (r_hostname r)" "tls G (r_hostname r) rs = (Some t, rs')" "again"
    using assms by (auto simp: rule_template_def split: if_splits option.splits prod.splits)
  then have "rule_renders files r t \<and> (again \<longleftrightarrow> r_type r = ''tls'')"
  proof cases
    case custom
    then obtain bs where "files (r_file r) = Some bs" "template_ok t" "unat (t_len t) = length bs" "take (length bs) (t_data t) = bs"
      using custom_ok by blast
    with custom show ?thesis by (simp add: rule_renders_def)
  next
    case http
    with text_template_ok [OF http(3) [unfolded http_def] http_text_nonempty] show ?thesis
      by (simp add: rule_renders_def)
  next
    case tls
    with tls_hello [OF tls(3)] show ?thesis by (simp add: rule_renders_def hello_for_ok)
  qed
  then show "rule_renders files r t" "again \<longleftrightarrow> r_type r = ''tls''" by simp_all
qed

text \<open>The options the renderer starts from: what the configuration reader leaves.\<close>

definition renderable :: "ff_options \<Rightarrow> bool" where
  "renderable op \<longleftrightarrow> length (o_rules op) \<le> 3 \<and> list_all (\<lambda>r. r_tpl r = zero_template) (o_rules op) \<and>
     length (c_rule_map (o_kernel op)) = 3"

definition enabled :: "ff_options \<Rightarrow> nat \<Rightarrow> bool" where
  "enabled op i \<longleftrightarrow> r_enabled (rule_at op i) \<noteq> 0"

text \<open>One rule and its plan once the renderer is past it.\<close>

definition rule_done :: "(string \<Rightarrow> u8 list option) \<Rightarrow> ff_options \<Rightarrow> nat \<Rightarrow> bool" where
  "rule_done files op i \<longleftrightarrow>
     (if enabled op i then rule_renders files (rule_at op i) (r_tpl (rule_at op i)) \<and>
        o_plan op ! i = (if r_type (rule_at op i) = ''tls''
          then \<lparr>pl_kind = FF_VARIANT_RENDER, pl_variants = 32, pl_rand = []\<rparr> else zero_plan)
      else r_tpl (rule_at op i) = zero_template \<and> o_plan op ! i = zero_plan)"

definition rule_todo :: "ff_options \<Rightarrow> nat \<Rightarrow> bool" where
  "rule_todo op i \<longleftrightarrow> r_tpl (rule_at op i) = zero_template \<and> o_plan op ! i = zero_plan"

text \<open>\<open>rule_map\<close> lists the enabled rules below \<open>i\<close>.\<close>

definition map_lists :: "ff_options \<Rightarrow> nat \<Rightarrow> bool" where
  "map_lists op i \<longleftrightarrow> length (c_rule_map (o_kernel op)) = 3 \<and>
     unat (c_rule_count (o_kernel op)) \<le> 3 \<and>
     map unat (take (unat (c_rule_count (o_kernel op))) (c_rule_map (o_kernel op))) = filter (enabled op) [0..<i]"

definition rendering :: "(string \<Rightarrow> u8 list option) \<Rightarrow> ff_options \<Rightarrow> nat \<Rightarrow> bool" where
  "rendering files op i \<longleftrightarrow> length (o_rules op) \<le> 3 \<and> length (o_plan op) = 4 \<and> o_plan op ! 3 = zero_plan \<and>
     map_lists op i \<and> (\<forall>j < i. rule_done files op j) \<and> (\<forall>j \<in> {i..<3}. rule_todo op j)"

text \<open>What rendering leaves alone.\<close>

definition same_rules :: "ff_options \<Rightarrow> ff_options \<Rightarrow> bool" where
  "same_rules op op' \<longleftrightarrow> map (\<lambda>r. r\<lparr>r_tpl := zero_template\<rparr>) (o_rules op') = map (\<lambda>r. r\<lparr>r_tpl := zero_template\<rparr>) (o_rules op) \<and>
     (\<exists>rules plans m n. op' = op\<lparr>o_rules := rules, o_plan := plans,
        o_kernel := (o_kernel op)\<lparr>c_rule_map := m, c_rule_count := n\<rparr>\<rparr>)"

lemma same_rules_refl [simp]: "same_rules op op"
  unfolding same_rules_def by (intro conjI exI [of _ "o_rules op"] exI [of _ "o_plan op"]
    exI [of _ "c_rule_map (o_kernel op)"] exI [of _ "c_rule_count (o_kernel op)"]) simp_all

lemma same_rules_trans: "same_rules a b \<Longrightarrow> same_rules b c \<Longrightarrow> same_rules a c"
  unfolding same_rules_def by fastforce

lemma rule_at_update:
  "rule_at (op\<lparr>o_rules := (o_rules op)[i := r]\<rparr>) j = (if j = i \<and> i < length (o_rules op) then r else rule_at op j)"
  by (simp add: rule_at_def nth_list_update)

lemma length_filter_upt: "length (filter P [0..<i]) \<le> i"
  using length_filter_le [of P "[0..<i]"] by simp

lemma rendering_skip:
  assumes "rendering files op i" and "i < 3" and "\<not> enabled op i"
  shows "rendering files op (i + 1)"
  using assms by (auto simp: rendering_def map_lists_def rule_todo_def rule_done_def less_Suc_eq)

lemma rule_at_add_rule:
  "i < length (o_rules op) \<Longrightarrow> rule_at (add_rule op i t again) j = (if j = i then (rule_at op i)\<lparr>r_tpl := t\<rparr> else rule_at op j)"
  by (simp add: rule_at_def add_rule_def Let_def nth_list_update)

lemma kernel_add_rule:
  "o_kernel (add_rule op i t again) = (o_kernel op)\<lparr>
     c_rule_map := (c_rule_map (o_kernel op))[unat (c_rule_count (o_kernel op)) := of_nat i],
     c_rule_count := c_rule_count (o_kernel op) + 1\<rparr>"
  by (simp add: add_rule_def Let_def)

lemma enabled_add_rule: "i < length (o_rules op) \<Longrightarrow> enabled (add_rule op i t again) = enabled op"
  by (rule ext) (simp add: enabled_def rule_at_add_rule)

lemma plan_add_rule:
  "i < length (o_plan op) \<Longrightarrow> o_plan (add_rule op i t again) ! j = (if j = i \<and> again
     then \<lparr>pl_kind = FF_VARIANT_RENDER, pl_variants = 32, pl_rand = []\<rparr> else o_plan op ! j)"
  by (simp add: add_rule_def Let_def nth_list_update)

lemma map_lists_add:
  assumes m: "map_lists op i" and i: "i < 3" and e: "enabled op i" and l: "i < length (o_rules op)"
  shows "map_lists (add_rule op i t again) (i + 1)"
proof -
  let ?c = "c_rule_count (o_kernel op)" and ?m = "c_rule_map (o_kernel op)"
  have len: "length ?m = 3" and eq: "map unat (take (unat ?c) ?m) = filter (enabled op) [0..<i]"
    and c3: "unat ?c \<le> 3"
    using m by (simp_all add: map_lists_def)
  have "unat ?c = length (filter (enabled op) [0..<i])"
    using arg_cong [OF eq, of length] len c3 by simp
  with length_filter_upt [of "enabled op" i] i have c: "unat ?c < 3" by simp
  then have c1: "unat (?c + 1) = unat ?c + 1" by (simp add: unat_add_small)
  have "take (unat ?c + 1) (?m[unat ?c := of_nat i]) = take (unat ?c) ?m @ [of_nat i]"
    using c len by (simp add: take_Suc_conv_app_nth)
  then show ?thesis
    using len c c1 eq i e by (simp add: map_lists_def enabled_add_rule [OF l] kernel_add_rule unat_of_nat)
qed

lemma rendering_add:
  assumes inv: "rendering files op i" and i: "i < 3" and e: "enabled op i"
    and t: "rule_renders files (rule_at op i) t" and again: "again \<longleftrightarrow> r_type (rule_at op i) = ''tls''"
  shows "rendering files (add_rule op i t again) (i + 1)" and "same_rules op (add_rule op i t again)"
proof -
  let ?op = "add_rule op i t again"
  have l: "i < length (o_rules op)" using e by (auto simp: enabled_def rule_at_def zero_rule_def split: if_splits)
  have len: "length (o_plan op) = 4" using inv by (simp add: rendering_def)
  have li: "i < length (o_plan op)" using len i by simp
  note upd = rule_at_add_rule [OF l] plan_add_rule [OF li] enabled_add_rule [OF l]
  have todo: "rule_todo op i" using inv i by (simp add: rendering_def)
  have rr: "rule_renders files (r\<lparr>r_tpl := u\<rparr>) t = rule_renders files r t" for r u
    by (simp add: rule_renders_def)
  have "rule_done files ?op j" if "j < i + 1" for j
  proof (cases "j = i")
    case True
    with e t again todo l show ?thesis by (simp add: rule_done_def upd rule_todo_def rr)
  next
    case False
    with that inv show ?thesis by (simp add: rendering_def rule_done_def upd)
  qed
  moreover have "rule_todo ?op j" if "j \<in> {i + 1..<3}" for j
    using that inv by (simp add: rendering_def rule_todo_def upd)
  moreover have "map_lists ?op (i + 1)"
    using inv by (intro map_lists_add i e l) (simp add: rendering_def)
  moreover have "o_plan ?op ! 3 = zero_plan" using inv i by (simp add: rendering_def upd)
  moreover have "length (o_rules ?op) \<le> 3" "length (o_plan ?op) = 4"
    using inv by (simp_all add: rendering_def add_rule_def Let_def)
  ultimately show "rendering files ?op (i + 1)" by (simp add: rendering_def)
  have "map (\<lambda>r. r\<lparr>r_tpl := zero_template\<rparr>) (o_rules ?op) = map (\<lambda>r. r\<lparr>r_tpl := zero_template\<rparr>) (o_rules op)"
    using l by (simp add: add_rule_def Let_def map_update rule_at_def) (metis (no_types, lifting) length_map list_update_id nth_map)
  moreover have "\<exists>rules plans m n. ?op = op\<lparr>o_rules := rules, o_plan := plans,
      o_kernel := (o_kernel op)\<lparr>c_rule_map := m, c_rule_count := n\<rparr>\<rparr>"
    unfolding add_rule_def Let_def by blast
  ultimately show "same_rules op ?op" by (simp add: same_rules_def)
qed

lemma render_rules_rendering:
  "render_rules G files i k op rs = (Inr op', rs') \<Longrightarrow> rendering files op i \<Longrightarrow> i + k \<le> 3 \<Longrightarrow>
    rendering files op' (i + k) \<and> same_rules op op'"
proof (induction k arbitrary: i op rs)
  case (Suc k)
  show ?case
  proof (cases "enabled op i")
    case False
    with Suc.prems have "render_rules G files (i + 1) k op rs = (Inr op', rs')" by (simp add: enabled_def)
    from Suc.IH [OF this rendering_skip [OF Suc.prems(2) _ False]] Suc.prems show ?thesis by simp
  next
    case True
    with Suc.prems obtain t again rs1 where t: "rule_template G files (rule_at op i) rs = (Inr (t, again), rs1)"
      "render_rules G files (i + 1) k (add_rule op i t again) rs1 = (Inr op', rs')"
      by (auto simp: enabled_def split: prod.splits sum.splits)
    have i: "i < 3" using Suc.prems by simp
    note add = rendering_add [OF Suc.prems(2) i True rule_template_renders [OF t(1)]]
    from Suc.IH [OF t(2) add(1)] Suc.prems same_rules_trans [OF add(2)] show ?thesis by simp
  qed
qed simp

section \<open>The rendered options\<close>

lemma list_all_upt: "list_all P [0..<n] \<longleftrightarrow> (\<forall>i < n. P i)"
  by (auto simp: list_all_iff)

definition udp_done :: "(string \<Rightarrow> u8 list option) \<Rightarrow> ff_options \<Rightarrow> bool" where
  "udp_done files op \<longleftrightarrow> template_ok (o_udp_template op) \<and>
     (let t = o_udp_template op; text = take (unat (t_len t)) (t_data t); p = o_plan op ! 3 in
      if o_udp_payload op = ''custom'' then files (o_udp_file op) = Some text \<and> p = zero_plan
      else o_udp_payload op = ''sip'' \<and> safe_text (o_sip_uri op) \<and>
        pl_kind p = FF_VARIANT_PATCH \<and> pl_variants p = 32 \<and> map rf_bytes (pl_rand p) = [16, 4, 16] \<and>
        fields_ok t (pl_rand p) \<and>
        (\<exists>branch tag callid. text = string_bytes (sip_text (o_sip_uri op) (sip_user (drop 4 (o_sip_uri op)))
           (sip_host (drop 4 (o_sip_uri op))) branch tag callid)))"

definition rendered :: "(string \<Rightarrow> u8 list option) \<Rightarrow> ff_options \<Rightarrow> bool" where
  "rendered files op \<longleftrightarrow> length (o_rules op) \<le> 3 \<and> length (o_plan op) = 4 \<and>
     list_all (rule_done files op) [0..<3] \<and> map_lists op 3 \<and> 0 < c_rule_count (o_kernel op) \<and> udp_done files op"

text \<open>Rendering changes the templates, the plans and the rotation's table, nothing else.\<close>

definition same_settings :: "ff_options \<Rightarrow> ff_options \<Rightarrow> bool" where
  "same_settings op op' \<longleftrightarrow> map (\<lambda>r. r\<lparr>r_tpl := zero_template\<rparr>) (o_rules op') = map (\<lambda>r. r\<lparr>r_tpl := zero_template\<rparr>) (o_rules op) \<and>
     (\<exists>rules plans m n t u. op' = op\<lparr>o_rules := rules, o_plan := plans,
        o_kernel := (o_kernel op)\<lparr>c_rule_map := m, c_rule_count := n\<rparr>, o_tcp_template := t, o_udp_template := u\<rparr>)"

lemma rendering_skip_all:
  "rendering files op i \<Longrightarrow> i + k \<le> 3 \<Longrightarrow> (\<And>j. i \<le> j \<Longrightarrow> \<not> enabled op j) \<Longrightarrow> rendering files op (i + k)"
proof (induction k)
  case (Suc k)
  then have "rendering files op (i + k)" by simp
  from rendering_skip [OF this] Suc.prems show ?case by simp
qed simp

lemma sip_text_nonempty: "sip_text u a h b t c \<noteq> []"
  by (simp add: sip_text_def)

lemma udp_template_done:
  assumes run: "udp_template G files op rs = (Inr op', rs')" and len: "length (o_plan op) = 4" and z: "o_plan op ! 3 = zero_plan"
  obtains t p where "op' = op\<lparr>o_udp_template := t, o_plan := (o_plan op)[3 := p]\<rparr>" "udp_done files op'"
proof (cases "o_udp_payload op = ''custom''")
  case True
  with run obtain t where t: "custom files (o_udp_file op) = Some t" "op' = op\<lparr>o_udp_template := t\<rparr>"
    by (auto simp: udp_template_def split: option.splits)
  obtain bs where c: "files (o_udp_file op) = Some bs" "template_ok t" "unat (t_len t) = length bs" "take (length bs) (t_data t) = bs"
    using custom_ok [OF t(1)] by blast
  have "(o_plan op)[3 := zero_plan] = o_plan op" using z by (metis list_update_id)
  with t have "op' = op\<lparr>o_udp_template := t, o_plan := (o_plan op)[3 := zero_plan]\<rparr>" by simp
  moreover have "udp_done files op'" using True t(2) c z by (simp add: udp_done_def Let_def)
  ultimately show ?thesis by (rule that)
next
  case False
  let ?u = "drop 4 (o_sip_uri op)"
  from run False obtain b t c tpl fs where g: "o_udp_payload op = ''sip''" "safe_text (o_sip_uri op)"
    and t: "text_template (sip_text (o_sip_uri op) (sip_user ?u) (sip_host ?u) b t c) = Some tpl"
    and l: "locate tpl = Some fs"
    and o': "op' = op\<lparr>o_udp_template := tpl, o_plan := (o_plan op)[3 := \<lparr>pl_kind = FF_VARIANT_PATCH,
        pl_variants = 32, pl_rand = fs\<rparr>]\<rparr>"
    by (auto simp: udp_template_def Let_def split: option.splits prod.splits if_splits)
  note ok = text_template_ok [OF t sip_text_nonempty]
  have shape: "template_shape tpl" using ok(1) by (simp add: template_ok_def)
  have "udp_done files op'"
    using False g ok locate_ok [OF l shape] o' len by (auto simp: udp_done_def Let_def)
  with o' show ?thesis by (rule that)
qed

lemma ff_templates_rendered:
  assumes ok: "renderable op" and run: "ff_templates G files op rs = (Inr op', rs')"
  shows "rendered files op'" and "same_settings op op'"
    and "o_tcp_template op' = r_tpl (rule_at op' (unat (c_rule_map (o_kernel op') ! 0)))"
proof -
  let ?op = "op\<lparr>o_tcp_template := zero_template, o_udp_template := zero_template,
    o_plan := replicate 4 zero_plan, o_kernel := (o_kernel op)\<lparr>c_rule_count := 0\<rparr>\<rparr>"
  let ?n = "length (o_rules op)"
  have n: "?n \<le> 3" using ok by (simp add: renderable_def)
  from run obtain op1 rs1 where r: "render_rules G files 0 (min ?n 3) ?op rs = (Inr op1, rs1)"
    and c: "c_rule_count (o_kernel op1) \<noteq> 0"
    and u: "udp_template G files (op1\<lparr>o_tcp_template := r_tpl (rule_at op1 (unat (c_rule_map (o_kernel op1) ! 0)))\<rparr>) rs1 = (Inr op', rs')"
    by (auto simp: ff_templates_def Let_def split: prod.splits sum.splits if_splits)
  have start: "rendering files ?op 0"
    using ok by (auto simp: rendering_def renderable_def map_lists_def rule_todo_def rule_at_def list_all_length zero_rule_def)
  from render_rules_rendering [OF r start] n have inv: "rendering files op1 ?n" and same: "same_rules ?op op1" by simp_all
  have "length (o_rules op1) = ?n" using same by (auto simp: same_rules_def dest: map_eq_imp_length_eq)
  then have "\<not> enabled op1 j" if "?n \<le> j" for j using that by (simp add: enabled_def rule_at_def zero_rule_def)
  from rendering_skip_all [OF inv, of "3 - ?n"] n this have inv3: "rendering files op1 3" by simp
  obtain t p where t: "op' = op1\<lparr>o_tcp_template := r_tpl (rule_at op1 (unat (c_rule_map (o_kernel op1) ! 0))),
      o_udp_template := t, o_plan := (o_plan op1)[3 := p]\<rparr>" and ud: "udp_done files op'"
    by (rule udp_template_done [OF u]) (use inv3 in \<open>simp_all add: rendering_def\<close>)
  have at: "rule_at op' j = rule_at op1 j" for j by (simp add: t rule_at_def)
  then have en: "enabled op' = enabled op1" by (simp add: enabled_def fun_eq_iff)
  have plan: "o_plan op' ! j = o_plan op1 ! j" if "j < 3" for j using that by (simp add: t)
  have "rule_done files op' j" if "j < 3" for j
    using inv3 that unfolding rendering_def rule_done_def at en plan [OF that] by blast
  moreover have "map_lists op' 3"
    using inv3 by (simp add: rendering_def map_lists_def en) (simp add: t)
  moreover have "length (o_rules op') \<le> 3" "length (o_plan op') = 4" "0 < c_rule_count (o_kernel op')"
    using inv3 c by (simp_all add: rendering_def t word_gt_0)
  ultimately show "rendered files op'" using ud by (simp add: rendered_def list_all_upt del: upt_rec_numeral)
  show "same_settings op op'"
  proof -
    from same obtain rules plans m n where "op1 = ?op\<lparr>o_rules := rules, o_plan := plans,
        o_kernel := (o_kernel ?op)\<lparr>c_rule_map := m, c_rule_count := n\<rparr>\<rparr>"
      unfolding same_rules_def by blast
    then have "op' = op\<lparr>o_rules := rules, o_plan := plans[3 := p], o_kernel := (o_kernel op)\<lparr>c_rule_map := m, c_rule_count := n\<rparr>,
        o_tcp_template := r_tpl (rule_at op1 (unat (c_rule_map (o_kernel op1) ! 0))), o_udp_template := t\<rparr>"
      by (simp add: t)
    then have "\<exists>rules plans m n t u. op' = op\<lparr>o_rules := rules, o_plan := plans,
        o_kernel := (o_kernel op)\<lparr>c_rule_map := m, c_rule_count := n\<rparr>, o_tcp_template := t, o_udp_template := u\<rparr>" by blast
    moreover have "map (\<lambda>r. r\<lparr>r_tpl := zero_template\<rparr>) (o_rules op') = map (\<lambda>r. r\<lparr>r_tpl := zero_template\<rparr>) (o_rules op)"
      using same by (simp add: same_rules_def t)
    ultimately show ?thesis unfolding same_settings_def by blast
  qed
  show "o_tcp_template op' = r_tpl (rule_at op' (unat (c_rule_map (o_kernel op') ! 0)))"
    by (simp add: t rule_at_def)
qed

lemma rule_done_fits:
  assumes d: "rule_done files op i" and i: "i < 3"
  shows "plan_fits (o_plan op ! i) (plan_host op i) (plan_base op i)"
proof (cases "enabled op i")
  case False
  with d i show ?thesis by (simp add: plan_fits_def rule_done_def plan_base_def zero_plan_def)
next
  case True
  with d have r: "rule_renders files (rule_at op i) (r_tpl (rule_at op i))"
    and p: "o_plan op ! i = (if r_type (rule_at op i) = ''tls''
      then \<lparr>pl_kind = FF_VARIANT_RENDER, pl_variants = 32, pl_rand = []\<rparr> else zero_plan)"
    by (simp_all add: rule_done_def)
  have s: "template_shape (r_tpl (rule_at op i))" using r unfolding rule_renders_def template_ok_def by blast
  show ?thesis
  proof (cases "r_type (rule_at op i) = ''tls''")
    case True
    with r p s i show ?thesis by (simp add: plan_fits_def plan_base_def plan_host_def rule_renders_def)
  next
    case False
    with p s i show ?thesis by (simp add: plan_fits_def plan_base_def zero_plan_def)
  qed
qed

lemma rendered_plans_fit:
  assumes "rendered files op"
  shows "plans_fit op"
proof -
  have rules: "plan_fits (o_plan op ! i) (plan_host op i) (plan_base op i)" if "i < 3" for i
    using assms that unfolding rendered_def list_all_upt by (intro rule_done_fits [where files = files]) simp_all
  have u: "udp_done files op" using assms unfolding rendered_def by blast
  then have "template_shape (o_udp_template op)" by (simp add: udp_done_def template_ok_def)
  then have udp: "plan_fits (o_plan op ! 3) (plan_host op 3) (plan_base op 3)"
    using u by (cases "o_udp_payload op = ''custom''")
      (simp_all add: udp_done_def Let_def plan_fits_def plan_base_def zero_plan_def)
  have "plan_fits (o_plan op ! i) (plan_host op i) (plan_base op i)" if "i < 4" for i
  proof -
    from that consider "i < 3" | "i = 3" by linarith
    then show ?thesis by cases (use rules udp in blast)+
  qed
  then show ?thesis using assms unfolding plans_fit_def rendered_def list_all_upt by blast
qed

section \<open>Properties of the renderer\<close>

text \<open>
  Property C38. When rendering succeeds, every enabled rule has a template of 1 to 1200 bytes that is
  what its type says: the file's content, the HTTP request for the host, or a ClientHello naming it;
  disabled rules have none. The rotation's table lists exactly the enabled rules in configured order,
  at least one. The UDP template is the configured file or the INVITE for the SIP URI with three
  located hexadecimal fields. No setting other than the templates, the plans and the table changes.
\<close>
theorem templates_rendered:
  assumes "renderable op" and "ff_templates G files op rs = (Inr op', rs')"
  shows "rendered files op' \<and> same_settings op op'"
  by (intro conjI ff_templates_rendered(1,2) [OF assms])

text \<open>
  Property C39. Every rendered set of variants has one list per plan with as many entries as asked
  for, the first being the canonical template; every entry has the canonical length, and it is the
  canonical template itself, or differs from it only in the recorded fields, where it has hexadecimal
  digits, or is again a ClientHello for the rule's host.
\<close>
theorem variants_of_rendered:
  assumes "renderable op" and "ff_templates G files op rs = (Inr op', rs1)"
    and "ff_variants G' op' n rs2 = (Some tss, rs3)"
  shows "list_all2 (variants_ok op' n) [0..<4] tss"
  by (rule ff_variants_ok [OF rendered_plans_fit [OF ff_templates_rendered(1) [OF assms(1,2)]] assms(3)])

section \<open>Witnesses\<close>

definition sample_kernel :: ff_config where
  "sample_kernel = \<lparr>c_generation = 0, c_tcp_enabled = 1, c_udp_enabled = 1, c_directions = 3,
     c_strip_tfo = 1, c_tcp_batches = 3, c_udp_both = 0, c_udp_packets = 5, c_udp_idle = 30, c_ttl = 3, c_repeat = 2,
     c_estimate_hops = 1, c_percent = 0, c_rate = 1000, c_burst = 2000, c_allow_private = 0,
     c_rule_map = replicate 3 0, c_rule_count = 0, c_variants = replicate 4 0\<rparr>"

definition sample_rule :: "string \<Rightarrow> string \<Rightarrow> ff_rule" where
  "sample_rule ty host = \<lparr>r_type = ty, r_payload = host, r_hostname = host, r_file = [], r_enabled = 1, r_tpl = zero_template\<rparr>"

text \<open>A TLS rule, a disabled one and an HTTP rule; a file for UDP.\<close>

definition sample_options :: ff_options where
  "sample_options = \<lparr>o_kernel = sample_kernel, o_devices = [\<lparr>d_name = ''wan'', d_mode = FF_ETHERNET\<rparr>],
     o_tcp_entries = 8192, o_udp_entries = 8192, o_lease = 10, o_tcp_payload = ''http'', o_udp_payload = ''custom'',
     o_hostname = ''www.example.com'', o_sip_uri = [], o_tcp_file = [], o_udp_file = ''/u'',
     o_rules = [sample_rule ''tls'' ''a.org'', (sample_rule ''http'' ''b.org'')\<lparr>r_enabled := 0\<rparr>, sample_rule ''http'' ''c.org''],
     o_warning = [], o_tcp_template = zero_template, o_udp_template = zero_template, o_plan = replicate 4 zero_plan\<rparr>"

definition sample_files :: "string \<Rightarrow> u8 list option" where
  "sample_files path = (if path = ''/u'' then Some [1, 2, 3] else None)"

lemma counting_source_delivers: "delivers counting_source"
  by (simp add: delivers_def counting_source_def)

lemma sample_renderable: "renderable sample_options"
  by (simp add: renderable_def sample_options_def sample_rule_def sample_kernel_def)

lemma sample_rendered: "\<exists>op' rs'. ff_templates counting_source sample_files sample_options 0 = (Inr op', rs')"
proof -
  obtain t rs1 where t: "tls counting_source ''a.org'' 0 = (Some t, rs1)"
    by (rule tls_delivers [OF counting_source_delivers, of "''a.org''" 0]) simp_all
  have s: "safe_text ''a.org''" "safe_text ''c.org''" by (simp_all add: safe_text_def code_def)
  have h: "http ''c.org'' = Some \<lparr>t_len = of_nat (length (http_text ''c.org'')),
      t_data = string_bytes (http_text ''c.org'') @ replicate (1200 - length (http_text ''c.org'')) 0\<rparr>"
    by (simp add: http_def text_template_def http_text_def crlf_def)
  show ?thesis
    by (simp add: ff_templates_def sample_options_def numeral_3_eq_3 rule_at_def sample_rule_def rule_template_def s t h
      add_rule_def sample_kernel_def udp_template_def custom_def sample_files_def)
qed

theorem templates_rendered_witness:
  "\<exists>op' rs'. ff_templates counting_source sample_files sample_options 0 = (Inr op', rs') \<and> rendered sample_files op'"
proof -
  obtain op' rs' where r: "ff_templates counting_source sample_files sample_options 0 = (Inr op', rs')"
    using sample_rendered by blast
  with templates_rendered [OF sample_renderable r] show ?thesis by blast
qed

theorem variants_of_rendered_witness:
  "\<exists>op' rs' tss rs3. ff_templates counting_source sample_files sample_options 0 = (Inr op', rs') \<and>
     ff_variants counting_source op' 2 0 = (Some tss, rs3) \<and> list_all2 (variants_ok op' 2) [0..<4] tss"
proof -
  obtain op' rs' where r: "ff_templates counting_source sample_files sample_options 0 = (Inr op', rs')"
    using sample_rendered by blast
  note fit = rendered_plans_fit [OF ff_templates_rendered(1) [OF sample_renderable r]]
  obtain tss rs3 where v: "ff_variants counting_source op' 2 0 = (Some tss, rs3)"
    by (rule ff_variants_total [OF fit counting_source_delivers, of 2 0]) simp_all
  from r v variants_of_rendered [OF sample_renderable r v] show ?thesis by blast
qed

end
