(* ===== verification/Accepted.thy ===== *)
theory Accepted
  imports Reading Variants
begin

text \<open>
  What the configuration reader promises for the file as a whole: the type of accepted options,
  reading by lines, the round trip of values, and the host name that does not fit its array.
\<close>

section \<open>Accepted options\<close>

definition device_named :: "ff_device \<Rightarrow> bool" where
  "device_named d \<longleftrightarrow> d_name d \<noteq> [] \<and> list_all name_char (d_name d)"

definition bare_name :: "string \<Rightarrow> bool" where
  "bare_name s \<longleftrightarrow> \<not> list_ex (\<lambda>c. c \<in> set ''/: '') s"

text \<open>An enabled rule has a type and a payload, and the field its type reads holds the payload.\<close>

definition rule_resolved :: "ff_rule \<Rightarrow> bool" where
  "rule_resolved r \<longleftrightarrow> (if r_enabled r = 0 then True
     else r_type r \<in> set [''http'', ''tls'', ''custom''] \<and> r_payload r \<noteq> [] \<and>
       (if r_type r = ''custom'' then hd (r_payload r) = CHR ''/'' \<and> r_file r = r_payload r
        else bare_name (r_payload r) \<and> r_hostname r = r_payload r))"

definition accepted :: "ff_options \<Rightarrow> bool" where
  "accepted op \<longleftrightarrow> options_ok op \<and> o_devices op \<noteq> [] \<and> distinct (map d_name (o_devices op)) \<and>
     list_all device_named (o_devices op) \<and> c_repeat (o_kernel op) \<le> c_burst (o_kernel op) \<and>
     o_rules op \<noteq> [] \<and> list_all rule_resolved (o_rules op)"

lemma check_names_none:
  "check_names earlier ns = None \<Longrightarrow> list_all (\<lambda>n. n \<noteq> [] \<and> list_all name_char n) ns \<and> distinct ns \<and> set ns \<inter> set earlier = {}"
proof (induction ns arbitrary: earlier)
  case (Cons n ns)
  from Cons.prems have n: "n \<noteq> []" "list_all name_char n" "n \<notin> set earlier" "check_names (earlier @ [n]) ns = None"
    by (simp_all split: if_splits)
  from Cons.IH [OF n(4)] n(1-3) show ?case by auto
qed simp

lemma legacy_rules_fit:
  assumes "strings_fit (rd_op rd)" and "length (rd_https_hostname rd) < 254" and "length (rd_https_file rd) < 1024"
  shows "list_all rule_fits (legacy_rules rd)" and "list_all (\<lambda>r. r_tpl r = zero_template) (legacy_rules rd)"
    and "legacy_rules rd \<noteq> []" and "length (legacy_rules rd) \<le> 2"
  using assms by (simp_all add: legacy_rules_def Let_def zero_rule_def rule_fits_def strings_fit_def)

lemma translate_legacy_ok:
  assumes "reader_ok rd"
  shows "options_ok (translate_legacy rd)" and "o_rules (translate_legacy rd) \<noteq> []"
    and "list_all (\<lambda>r. r_tpl r = zero_template) (o_rules (translate_legacy rd))"
    and "o_devices (translate_legacy rd) = o_devices (rd_op rd)"
    and "o_kernel (translate_legacy rd) = o_kernel (rd_op rd)"
proof -
  let ?op = "rd_op rd"
  have ok: "options_ok ?op" and z: "list_all (\<lambda>r. r_tpl r = zero_template) (o_rules ?op)"
    and https: "length (rd_https_hostname rd) < 254" "length (rd_https_file rd) < 1024"
    using assms by (simp_all add: reader_ok_def)
  note legacy = legacy_rules_fit [OF options_okD(6) [OF ok] https]
  have warn: "options_ok (?op\<lparr>o_warning := w\<rparr>)" if "length w < 192" for w
    using ok that by (simp add: options_ok_def runtime_ok_def strings_fit_def)
  have rules: "options_ok (?op\<lparr>o_rules := legacy_rules rd, o_warning := w\<rparr>)" if "length w < 192" for w
    using warn [OF that] legacy by (simp add: options_ok_def runtime_ok_def strings_fit_def)
  have w: "length (o_warning ?op) < 192" using options_okD(6) [OF ok] by (simp add: strings_fit_def)
  show "options_ok (translate_legacy rd)"
    unfolding translate_legacy_def Let_def
    by (simp add: rules warn w ok)
  show "o_rules (translate_legacy rd) \<noteq> []"
    unfolding translate_legacy_def Let_def using legacy(3) by simp
  show "list_all (\<lambda>r. r_tpl r = zero_template) (o_rules (translate_legacy rd))"
    unfolding translate_legacy_def Let_def using legacy(2) z by simp
  show "o_devices (translate_legacy rd) = o_devices ?op" "o_kernel (translate_legacy rd) = o_kernel ?op"
    unfolding translate_legacy_def Let_def by simp_all
qed

lemma resolve_rule_resolved:
  assumes "resolve_rule i r = Inr r'" and "rule_fits r"
  shows "rule_fits r' \<and> rule_resolved r' \<and> r_tpl r' = r_tpl r"
proof -
  have ty: "r_type r \<in> set ['''', ''http'', ''tls'', ''custom'']" and p: "length (r_payload r) < 1024"
    using assms(2) unfolding rule_fits_def by blast+
  show ?thesis
  proof (cases "r_enabled r = 0")
    case True
    with assms show ?thesis by (simp add: resolve_rule_def rule_resolved_def)
  next
    case False
    with assms(1) have ne: "r_type r \<noteq> []" "r_payload r \<noteq> []"
      unfolding resolve_rule_def by (metis Inl_Inr_False)+
    show ?thesis
    proof (cases "r_type r = ''custom''")
      case True
      with assms(1) False ne have "hd (r_payload r) = CHR ''/''" "r' = r\<lparr>r_file := r_payload r\<rparr>"
        unfolding resolve_rule_def by (simp_all split: if_splits)
      with True False ne p assms(2) show ?thesis by (simp add: rule_fits_def rule_resolved_def)
    next
      case other: False
      have "(if \<not> bare_name (r_payload r) then Inl (HostnameNotBare (i + 1))
          else if 254 \<le> length (r_payload r) then Inl Overflow else Inr (r\<lparr>r_hostname := r_payload r\<rparr>)) = Inr r'"
        using assms(1) False ne other unfolding resolve_rule_def bare_name_def not_not by (simp only: if_False)
      then have r: "bare_name (r_payload r)" "length (r_payload r) < 254" "r' = r\<lparr>r_hostname := r_payload r\<rparr>"
        by (simp_all split: if_splits)
      have "r_type r \<in> set [''http'', ''tls'', ''custom'']" using ty ne(1) by simp
      with r other False ne assms(2) show ?thesis by (simp add: rule_fits_def rule_resolved_def)
    qed
  qed
qed

lemma resolve_rules_resolved:
  "resolve_rules i rs = Inr rs' \<Longrightarrow> list_all rule_fits rs \<Longrightarrow>
    list_all rule_fits rs' \<and> list_all rule_resolved rs' \<and> map r_tpl rs' = map r_tpl rs"
proof (induction rs arbitrary: i rs')
  case (Cons r rs)
  from Cons.prems(1) obtain r' rs1 where r: "resolve_rule i r = Inr r'" "resolve_rules (i + 1) rs = Inr rs1" "rs' = r' # rs1"
    by (cases "resolve_rules (i + 1) rs") (auto split: sum.splits)
  from Cons.IH [OF r(2)] resolve_rule_resolved [OF r(1)] Cons.prems(2) r(3) show ?case by simp
qed simp

lemma finish_accepted:
  assumes ok: "reader_ok rd" and run: "finish rd = Inr op"
  shows "accepted op" and "renderable op"
proof -
  let ?t = "translate_legacy rd"
  from run obtain rules where d: "o_devices (rd_op rd) \<noteq> []" and n: "check_names [] (map d_name (o_devices (rd_op rd))) = None"
    and b: "c_repeat (o_kernel (rd_op rd)) \<le> c_burst (o_kernel (rd_op rd))"
    and r: "resolve_rules 0 (o_rules ?t) = Inr rules" and op: "op = ?t\<lparr>o_rules := rules\<rparr>"
    unfolding finish_def Let_def by (simp add: not_less split: if_splits option.splits sum.splits)
  note t = translate_legacy_ok [OF ok]
  have "list_all rule_fits (o_rules ?t)" using t(1) by (simp add: options_ok_def)
  from resolve_rules_resolved [OF r this]
  have rs: "list_all rule_fits rules" "list_all rule_resolved rules" "map r_tpl rules = map r_tpl (o_rules ?t)"
    by simp_all
  have len: "length rules = length (o_rules ?t)" using rs(3) by (rule map_eq_imp_length_eq)
  have ops: "options_ok op" using t(1) rs(1) len op by (simp add: options_ok_def runtime_ok_def strings_fit_def)
  have "rules \<noteq> []" using t(2) len by auto
  then show "accepted op"
    using ops d b rs(2) check_names_none [OF n] t(4,5) op
    by (simp add: accepted_def list_all_iff device_named_def)
  have "list_all (\<lambda>x. x = zero_template) (map r_tpl rules)"
    unfolding rs(3) using t(3) by (simp add: list.pred_map comp_def)
  then have "list_all (\<lambda>r. r_tpl r = zero_template) rules" by (simp add: list.pred_map comp_def)
  moreover have "length rules \<le> 3" "length (c_rule_map (o_kernel op)) = 3"
    using ops op by (simp_all add: options_ok_def config_shape_def)
  ultimately show "renderable op" using op by (simp add: renderable_def)
qed

text \<open>Rendering keeps what was accepted.\<close>

lemma rule_fits_tpl: "rule_fits (r\<lparr>r_tpl := t\<rparr>) = rule_fits r" "rule_resolved (r\<lparr>r_tpl := t\<rparr>) = rule_resolved r"
  by (simp_all add: rule_fits_def rule_resolved_def)

lemma accepted_same_settings:
  assumes acc: "accepted op" and same: "same_settings op op'" and len: "length (c_rule_map (o_kernel op')) = 3"
  shows "accepted op'"
proof -
  have m: "map (\<lambda>r. r\<lparr>r_tpl := zero_template\<rparr>) (o_rules op') = map (\<lambda>r. r\<lparr>r_tpl := zero_template\<rparr>) (o_rules op)"
    using same by (simp add: same_settings_def)
  have all: "list_all P (o_rules op') = list_all P (o_rules op)" if "\<And>r t. P (r\<lparr>r_tpl := t\<rparr>) = P r" for P
  proof -
    have "list_all P xs = list_all P (map (\<lambda>r. r\<lparr>r_tpl := zero_template\<rparr>) xs)" for xs
      using that by (simp add: list.pred_map comp_def)
    then show ?thesis using m by metis
  qed
  obtain rules plans rm n t u where op': "op' = op\<lparr>o_rules := rules, o_plan := plans,
      o_kernel := (o_kernel op)\<lparr>c_rule_map := rm, c_rule_count := n\<rparr>, o_tcp_template := t, o_udp_template := u\<rparr>"
    using same unfolding same_settings_def by blast
  have l: "length (o_rules op') = length (o_rules op)" using m by (rule map_eq_imp_length_eq)
  have k: "tcp_ok (o_kernel op') = tcp_ok (o_kernel op)" "udp_ok (o_kernel op') = udp_ok (o_kernel op)"
    "injection_ok (o_kernel op') = injection_ok (o_kernel op)" "runtime_ok op' = runtime_ok op" "strings_fit op' = strings_fit op"
    by (simp_all add: op' tcp_ok_def udp_ok_def injection_ok_def runtime_ok_def strings_fit_def)
  have c: "config_shape (o_kernel op')"
    using acc len by (simp add: op' accepted_def options_ok_def config_shape_def)
  have "options_ok op'"
    using acc k c l all [of rule_fits, OF rule_fits_tpl(1)] by (simp add: accepted_def options_ok_def) (simp add: op')
  moreover have "o_rules op' \<noteq> []" using acc l by (auto simp: accepted_def)
  ultimately show ?thesis
    using acc all [of rule_resolved, OF rule_fits_tpl(2)] by (simp add: accepted_def) (simp add: op')
qed

lemma ff_config_read_cases:
  assumes "ff_config_read G files path rs = (Inr op, rs')"
  obtains f rd op1 where "files path = Some f" "read_lines 0 (bytes_string f) reader_start = Inr rd"
    "finish rd = Inr op1" "ff_templates G files op1 rs = (Inr op, rs')"
  using assms that by (auto simp: ff_config_read_def split: option.splits sum.splits)

lemma ff_config_read_accepted:
  assumes "ff_config_read G files path rs = (Inr op, rs')"
  shows "accepted op" and "rendered files op"
proof -
  from assms obtain f rd op1 where r: "read_lines 0 (bytes_string f) reader_start = Inr rd"
    and fin: "finish rd = Inr op1" and t: "ff_templates G files op1 rs = (Inr op, rs')"
    by (rule ff_config_read_cases)
  note acc = finish_accepted [OF read_lines_ok [OF r reader_start_ok] fin]
  note ren = ff_templates_rendered [OF acc(2) t]
  show "rendered files op" by (rule ren)
  then have "length (c_rule_map (o_kernel op)) = 3" by (simp add: rendered_def map_lists_def)
  then show "accepted op" by (rule accepted_same_settings [OF acc(1) ren(2)])
qed

section \<open>Reading line by line\<close>

text \<open>What the reader does with a file given as its lines.\<close>

fun read_all :: "nat \<Rightarrow> string list \<Rightarrow> reader \<Rightarrow> config_error + reader" where
  "read_all n [] rd = Inr rd"
| "read_all n (l # ls) rd =
     (case read_line (l @ [CHR 0x0A]) False rd of
        None \<Rightarrow> Inl (BadLine (n + 1))
      | Some rd \<Rightarrow> read_all (n + 1) ls rd)"

definition text_of :: "string list \<Rightarrow> string" where
  "text_of ls = concat (map (\<lambda>l. l @ [CHR 0x0A]) ls)"

definition plain_line :: "string \<Rightarrow> bool" where
  "plain_line l \<longleftrightarrow> length l < 2047 \<and> CHR 0x0A \<notin> set l"

lemma takeWhile_line: "CHR 0x0A \<notin> set l \<Longrightarrow> takeWhile (\<lambda>c. c \<noteq> CHR 0x0A) (l @ CHR 0x0A # r) = l"
  by (induction l) auto

lemma fgets_line:
  assumes "plain_line l"
  shows "fgets (l @ CHR 0x0A # r) = Some (l @ [CHR 0x0A], False, r)"
proof -
  have t: "take 2047 (l @ CHR 0x0A # r) = l @ CHR 0x0A # take (2046 - length l) r"
    using assms by (simp add: plain_line_def take_Cons' Suc_diff_Suc numeral_eq_Suc)
  show ?thesis
    using assms unfolding fgets_def t Let_def by (simp add: takeWhile_line plain_line_def)
qed

lemma read_lines_text: "list_all plain_line ls \<Longrightarrow> read_lines n (text_of ls) rd = read_all n ls rd"
proof (induction ls arbitrary: n rd)
  case Nil
  show ?case by (subst read_lines.simps) (simp add: text_of_def fgets_def)
next
  case (Cons l ls)
  have f: "fgets (text_of (l # ls)) = Some (l @ [CHR 0x0A], False, text_of ls)"
    using fgets_line [of l "text_of ls"] Cons.prems by (simp add: text_of_def)
  show ?case
    using Cons by (subst read_lines.simps) (simp add: f split: option.split)
qed

lemma bytes_string_bytes [simp]: "bytes_string (string_bytes s) = s"
proof -
  have "char_of (unat (of_char c :: u8)) = c" for c
  proof -
    have "(of_char c :: u8) = of_nat (of_char c :: nat)" by (rule of_nat_of_char [symmetric])
    then have "unat (of_char c :: u8) = of_char c mod 2 ^ LENGTH(8)"
      by (metis unat_of_nat)
    then have "unat (of_char c :: u8) = of_char c" by simp
    then show ?thesis by simp
  qed
  then show ?thesis by (simp add: bytes_string_def string_bytes_def comp_def)
qed

section \<open>Values round trip\<close>

definition quoted :: "string \<Rightarrow> string" where
  "quoted s = [CHR 0x22] @ s @ [CHR 0x22]"

lemma string_value_quoted:
  "string_value cap (quoted s) = (if length s < cap \<and> list_all string_char s then Some s else None)"
  by (auto simp: string_value_def quoted_def Let_def butlast_append)

lemma digits_value_append: "digits_value (s @ [c]) = 10 * digits_value s + (code c - 48)"
  by (simp add: digits_value_def)

lemma code_digit: "n < 10 \<Longrightarrow> code (char_of (48 + n)) = 48 + n"
  by (simp add: code_def)

declare decimal.simps [simp del]

lemma decimal_digits: "list_all isdigit (decimal n) \<and> decimal n \<noteq> [] \<and> digits_value (decimal n) = n"
proof (induction n rule: decimal.induct)
  case (1 n)
  show ?case
  proof (cases "n < 10")
    case True
    then show ?thesis by (subst (1 2 3) decimal.simps) (simp add: isdigit_def code_digit digits_value_def)
  next
    case False
    have "code (char_of (48 + n mod 10)) = 48 + n mod 10" by (rule code_digit) simp
    moreover from this have "isdigit (char_of (48 + n mod 10))" unfolding isdigit_def by simp
    ultimately show ?thesis using False "1.IH"
      by (subst (1 2 3) decimal.simps) (simp add: digits_value_append)
  qed
qed

lemma number_decimal:
  "number lo hi (decimal n) = (if lo \<le> n \<and> n \<le> hi then Some (of_nat n) else None)"
  using decimal_digits [of n] by (simp add: number_def Let_def not_less not_le)

section \<open>The host name that does not fit\<close>

definition overlong :: "ff_rule \<Rightarrow> bool" where
  "overlong r \<longleftrightarrow> r_enabled r \<noteq> 0 \<and> r_type r \<noteq> [] \<and> r_type r \<noteq> ''custom'' \<and> bare_name (r_payload r) \<and>
     254 \<le> length (r_payload r)"

lemma resolve_rule_overflow: "resolve_rule i r = Inl Overflow \<longleftrightarrow> overlong r"
  by (auto simp: resolve_rule_def overlong_def bare_name_def)

lemma resolve_rules_overflow:
  "resolve_rules i rs = Inl Overflow \<longleftrightarrow>
     (\<exists>ok r rest. rs = ok @ r # rest \<and> overlong r \<and> (\<exists>ok'. resolve_rules i ok = Inr ok'))"
proof (induction rs arbitrary: i)
  case (Cons a rs)
  show ?case
  proof (cases "resolve_rule i a")
    case (Inl e)
    have "rs' = [] \<and> overlong a" if "a # rs = rs' @ r # rest" "overlong r" "resolve_rules i rs' = Inr ok'" for rs' r rest ok'
      using that Inl by (cases rs') auto
    moreover have "e = Overflow \<longleftrightarrow> overlong a" using resolve_rule_overflow [of i a] Inl by simp
    ultimately show ?thesis
      using Inl by (auto intro: exI [of _ "[]"])
  next
    case (Inr a')
    have no: "\<not> overlong a" using resolve_rule_overflow [of i a] Inr by simp
    have "resolve_rules i (a # rs) = Inl Overflow \<longleftrightarrow> resolve_rules (i + 1) rs = Inl Overflow"
      using Inr by (cases "resolve_rules (i + 1) rs") simp_all
    also have "\<dots> \<longleftrightarrow> (\<exists>ok r rest. rs = ok @ r # rest \<and> overlong r \<and> (\<exists>ok'. resolve_rules (i + 1) ok = Inr ok'))"
      by (rule Cons.IH)
    also have "\<dots> \<longleftrightarrow> (\<exists>ok r rest. a # rs = ok @ r # rest \<and> overlong r \<and> (\<exists>ok'. resolve_rules i ok = Inr ok'))"
    proof (intro iffI; elim exE conjE)
      fix ok r rest ok'
      assume "rs = ok @ r # rest" "overlong r" "resolve_rules (i + 1) ok = Inr ok'"
      then show "\<exists>ok r rest. a # rs = ok @ r # rest \<and> overlong r \<and> (\<exists>ok'. resolve_rules i ok = Inr ok')"
        using Inr by (intro exI [of _ "a # ok"] exI [of _ r] exI [of _ rest]) simp
    next
      fix ok r rest ok'
      assume eq: "a # rs = ok @ r # rest" and r: "overlong r" and ok: "resolve_rules i ok = Inr ok'"
      then obtain ok1 where "ok = a # ok1" using no by (cases ok) auto
      with eq r ok Inr show "\<exists>ok r rest. rs = ok @ r # rest \<and> overlong r \<and> (\<exists>ok'. resolve_rules (i + 1) ok = Inr ok')"
        by (cases "resolve_rules (i + 1) ok1") auto
    qed
    finally show ?thesis .
  qed
qed simp

section \<open>Properties of the reader\<close>

lemma ff_templates_error:
  assumes "ff_templates G files op rs = (Inl e, rs')"
  shows "e = BadPayload \<or> e = BadPayloadFile"
proof -
  have rule: "e = BadPayload \<or> e = BadPayloadFile" if "rule_template G files r rs = (Inl e, rs')" for r rs rs' e
    using that by (auto simp: rule_template_def split: if_splits option.splits prod.splits)
  have rules: "render_rules G files i k op rs = (Inl e, rs') \<Longrightarrow> e = BadPayload \<or> e = BadPayloadFile" for i k op rs e rs'
  proof (induction k arbitrary: i op rs)
    case (Suc k)
    then show ?case
      by (auto split: if_splits prod.splits sum.splits dest: rule)
  qed simp
  have "e = BadPayload \<or> e = BadPayloadFile" if "udp_template G files op rs = (Inl e, rs')" for op rs
    using that by (auto simp: udp_template_def Let_def split: if_splits option.splits prod.splits)
  with assms show ?thesis
    by (auto simp: ff_templates_def Let_def split: if_splits prod.splits sum.splits dest: rules)
qed

text \<open>What the reader checks before it resolves the rules.\<close>

definition checked :: "reader \<Rightarrow> bool" where
  "checked rd \<longleftrightarrow> rd_version rd \<noteq> 0 \<and> o_devices (rd_op rd) \<noteq> [] \<and>
     check_names [] (map d_name (o_devices (rd_op rd))) = None \<and>
     c_repeat (o_kernel (rd_op rd)) \<le> c_burst (o_kernel (rd_op rd))"

lemma check_names_error:
  "check_names earlier ns = Some e \<Longrightarrow> e \<noteq> Overflow"
  by (induction earlier ns rule: check_names.induct) (auto split: if_splits)

lemma finish_overflow:
  "finish rd = Inl Overflow \<longleftrightarrow> checked rd \<and> resolve_rules 0 (o_rules (translate_legacy rd)) = Inl Overflow"
  unfolding finish_def checked_def Let_def
  using check_names_error [of "[]" "map d_name (o_devices (rd_op rd))" Overflow]
  by (auto simp: not_less split: option.split sum.split)

text \<open>
  Property C15. Whatever the file, options the reader accepts are well typed: every number is in its
  documented range, every string fits its array, there are one to eight interfaces with distinct
  well-formed names and one to three rules, every enabled rule's payload is resolved into the field its
  type reads, \<open>burst\<close> is at least \<open>repeat\<close>, and the templates, plans and rotation table are
  rendered from them.
\<close>
theorem config_type:
  assumes "ff_config_read G files path rs = (Inr op, rs')"
  shows "accepted op \<and> rendered files op"
  by (intro conjI ff_config_read_accepted [OF assms])

text \<open>
  Property C16. The reader copies a host name past the end of its array exactly when, the file being
  read and its interfaces and numbers checked, the first rule that does not resolve is an enabled HTTP or
  TLS rule with a bare payload of 254 characters or more: \<open>payload\<close> holds 1023, \<open>hostname\<close>
  253, and \<open>strcpy\<close> does not check.
\<close>
theorem hostname_overflow:
  assumes "files path = Some f" and "read_lines 0 (bytes_string f) reader_start = Inr rd"
  shows "fst (ff_config_read G files path rs) = Inl Overflow \<longleftrightarrow>
    checked rd \<and> (\<exists>ok r rest. o_rules (translate_legacy rd) = ok @ r # rest \<and> overlong r \<and> (\<exists>ok'. resolve_rules 0 ok = Inr ok'))"
proof -
  have "fst (ff_config_read G files path rs) = Inl Overflow \<longleftrightarrow> finish rd = Inl Overflow"
  proof (cases "finish rd")
    case (Inr op)
    then show ?thesis
      using assms ff_templates_error [of G files op rs Overflow]
      by (auto simp: ff_config_read_def) (metis config_error.distinct prod.collapse)+
  qed (simp add: ff_config_read_def assms)
  then show ?thesis unfolding finish_overflow resolve_rules_overflow .
qed

text \<open>
  Values round trip through their notation: a quoted string reads as itself exactly when it
  fits its array and has no quote, backslash or control character, and a number written in decimal reads as
  itself exactly when it is in range.
\<close>
theorem values_roundtrip:
  "string_value cap (quoted s) = (if length s < cap \<and> list_all string_char s then Some s else None) \<and>
   number lo hi (decimal n) = (if lo \<le> n \<and> n \<le> hi then Some (of_nat n) else None)"
  by (intro conjI string_value_quoted number_decimal)

section \<open>Witnesses\<close>

text \<open>A small file: a comment, a device, one rule, and a file for UDP.\<close>

definition rule_lines :: "string \<Rightarrow> string list" where
  "rule_lines host = [''version = 1 # the only one'', ''[[interfaces]]'', ''name = '' @ quoted ''wan'', ''[[tcp.rule]]'',
     ''type = '' @ quoted ''http'', ''payload = '' @ quoted host, ''[udp]'', ''payload = '' @ quoted ''custom'',
     ''payload_file = '' @ quoted ''/u'']"

definition sample_fs :: "string list \<Rightarrow> string \<Rightarrow> u8 list option" where
  "sample_fs ls path = (if path = ''/c'' then Some (string_bytes (text_of ls)) else if path = ''/u'' then Some [1, 2, 3] else None)"

definition sample_read :: "string \<Rightarrow> bool" where
  "sample_read host \<longleftrightarrow> (case read_all 0 (rule_lines host) reader_start of Inl _ \<Rightarrow> False
     | Inr rd \<Rightarrow> (case finish rd of Inl _ \<Rightarrow> False
     | Inr op \<Rightarrow> (case ff_templates counting_source (sample_fs (rule_lines host)) op 0 of (Inl _, _) \<Rightarrow> False | (Inr _, _) \<Rightarrow> True)))"

lemma sample_read_org: "sample_read ''a.org''"
  by code_simp

lemma sample_config_read:
  assumes "sample_read host" and "list_all plain_line (rule_lines host)"
  obtains op rs' where "ff_config_read counting_source (sample_fs (rule_lines host)) ''/c'' 0 = (Inr op, rs')"
proof -
  from assms(1) obtain rd op1 op rs' where r: "read_all 0 (rule_lines host) reader_start = Inr rd" "finish rd = Inr op1"
    and t: "ff_templates counting_source (sample_fs (rule_lines host)) op1 0 = (Inr op, rs')"
    unfolding sample_read_def by (auto split: sum.splits prod.splits)
  have f: "sample_fs (rule_lines host) ''/c'' = Some (string_bytes (text_of (rule_lines host)))"
    by (simp add: sample_fs_def)
  show ?thesis
    by (rule that [of op rs'])
      (simp only: ff_config_read_def f option.case bytes_string_bytes read_lines_text [OF assms(2)] r sum.case t)
qed

theorem config_type_witness:
  "\<exists>op rs'. ff_config_read counting_source (sample_fs (rule_lines ''a.org'')) ''/c'' 0 = (Inr op, rs') \<and>
     accepted op \<and> rendered (sample_fs (rule_lines ''a.org'')) op"
proof -
  have "list_all plain_line (rule_lines ''a.org'')" by (simp add: rule_lines_def plain_line_def quoted_def)
  then obtain op rs' where r: "ff_config_read counting_source (sample_fs (rule_lines ''a.org'')) ''/c'' 0 = (Inr op, rs')"
    by (rule sample_config_read [OF sample_read_org])
  with config_type [OF r] show ?thesis by blast
qed

text \<open>The same file with a host name of 254 letters.\<close>

definition long_host :: string where
  "long_host = replicate 254 CHR ''a''"

definition overflows :: "string \<Rightarrow> bool" where
  "overflows host \<longleftrightarrow> (case read_all 0 (rule_lines host) reader_start of Inl _ \<Rightarrow> False
     | Inr rd \<Rightarrow> checked rd \<and> (case o_rules (translate_legacy rd) of [r] \<Rightarrow> overlong r | _ \<Rightarrow> False))"

lemma long_host_overflows: "overflows long_host"
  by code_simp

theorem hostname_overflow_witness:
  "fst (ff_config_read counting_source (sample_fs (rule_lines long_host)) ''/c'' 0) = Inl Overflow"
proof -
  have p: "list_all plain_line (rule_lines long_host)"
    by (simp add: rule_lines_def plain_line_def quoted_def long_host_def)
  obtain rd r where rd: "read_all 0 (rule_lines long_host) reader_start = Inr rd" "checked rd"
    and r: "o_rules (translate_legacy rd) = [r]" "overlong r"
    using long_host_overflows unfolding overflows_def by (auto split: sum.splits list.splits)
  have "read_lines 0 (bytes_string (string_bytes (text_of (rule_lines long_host)))) reader_start = Inr rd"
    unfolding bytes_string_bytes read_lines_text [OF p] by (rule rd(1))
  note * = hostname_overflow [where files = "sample_fs (rule_lines long_host)" and path = "''/c''", OF _ this]
  have "\<exists>ok r rest. o_rules (translate_legacy rd) = ok @ r # rest \<and> overlong r \<and> (\<exists>ok'. resolve_rules 0 ok = Inr ok')"
    using r by (intro exI [of _ "[]"] exI [of _ r]) simp
  then show ?thesis using * rd(2) by (simp add: sample_fs_def)
qed

end
