(* ===== verification/Maps.thy ===== *)
theory Maps
  imports Abi
begin

text \<open>
  \<open>ebpf/bpf/maps.h\<close>: the records the kernel programs keep and the BPF maps that hold
  them, as one record \<open>world\<close>; the helpers \<open>stat\<close>, \<open>configuration\<close>, \<open>alive\<close> and
  \<open>flow_lock\<close>. A map is a partial function from its key type, also where it is an array:
  every null check of the code is then a branch of the model.

  The kernel's own helpers are not part of the repository. They are the fields of a record
  \<open>kern\<close> that every operation takes as its first argument; what a theorem needs of a helper
  is a named hypothesis about that field. The type variable \<open>'e\<close> is the kernel's private
  state (clock, random generator), which only the helpers read.
\<close>

section \<open>Records of the maps\<close>

text \<open>
  The fields \<open>active\<close>, \<open>stopped\<close> and \<open>outbound\<close> of \<open>struct ff_flow\<close> only ever hold
  0 or 1 and are truth values here.
\<close>

record ff_flow =
  f_rule :: u32
  f_syn_seq :: u32
  f_syn_bytes :: u32
  f_active :: bool
  f_stopped :: bool
  f_batches :: u32
  f_packets :: u32
  f_outbound :: bool
  f_remote_ttl :: u32
  f_seen :: u64
  f_emitted :: u64

definition zero_flow :: ff_flow where
  "zero_flow = \<lparr>f_rule = 0, f_syn_seq = 0, f_syn_bytes = 0, f_active = False, f_stopped = False,
     f_batches = 0, f_packets = 0, f_outbound = False, f_remote_ttl = 0, f_seen = 0, f_emitted = 0\<rparr>"

record ff_budget =
  b_generation :: u32
  b_at :: u64
  b_tokens :: u64

record ff_lock =
  l_reserved :: u32

record ff_request =
  rq_expires :: u64
  rq_state :: u32
  rq_ifindex :: u32
  rq_ifgen :: u32
  rq_config_gen :: u32
  rq_mode :: ff_mode
  rq_reverse :: bool
  rq_ttl :: u32
  rq_variant :: u32
  rq_saved_cb0 :: u32
  rq_saved_cb1 :: u32

record ff_lease =
  le_until :: u64
  le_reported :: u32
  le_pad :: u32

section \<open>Packets and the maps\<close>

text \<open>
  What the programs see of an \<open>__sk_buff\<close>: its fields and its bytes. \<open>sk_ip_summed\<close> is
  the kernel's checksum-offload state; no program reads it, only the helpers do.
\<close>

record skb =
  sk_len :: u32
  sk_ifindex :: u32
  sk_gso_segs :: u32
  sk_gso_size :: u32
  sk_vlan_present :: u32
  sk_vlan_tci :: u32
  sk_vlan_proto :: u32
  sk_cb0 :: u32
  sk_cb1 :: u32
  sk_data :: "u8 list"
  sk_ip_summed :: nat

record 'e world =
  m_active_config :: "u32 \<rightharpoonup> u32"
  m_configs :: "u32 \<rightharpoonup> ff_config"
  m_leases :: "u32 \<rightharpoonup> ff_lease"
  m_interfaces :: "u32 \<rightharpoonup> ff_interface"
  m_templates :: "u32 \<rightharpoonup> ff_template"
  m_tcp_flows :: "ff_key \<rightharpoonup> ff_flow"
  m_udp_flows :: "ff_key \<rightharpoonup> ff_flow"
  m_flow_locks :: "u32 \<rightharpoonup> ff_lock"
  m_requests :: "u64 \<rightharpoonup> ff_request"
  m_sequence :: "u32 \<rightharpoonup> u64"
  m_rotation :: "u32 \<rightharpoonup> u64"
  m_budgets :: "u32 \<rightharpoonup> ff_budget"
  m_stats :: "u32 \<rightharpoonup> u64"
  w_env :: 'e

text \<open>
  The kernel helpers. A helper that returns an error code returns \<open>True\<close> for a nonzero
  code; a helper that changes its packet or a map returns the new value. \<open>flow_insert\<close> and
  \<open>request_insert\<close> are \<open>bpf_map_update_elem\<close> with \<open>BPF_NOEXIST\<close>: they also return the
  map afterwards, since an LRU map evicts entries and another CPU may insert meanwhile.
  \<open>clone_redirect\<close> runs other programs before it returns, so it may change the world.
\<close>

record 'e kern =
  ktime_get_ns :: "'e \<Rightarrow> u64 \<times> 'e"
  get_prandom_u32 :: "'e \<Rightarrow> u32 \<times> 'e"
  skb_load_bytes :: "skb \<Rightarrow> u32 \<Rightarrow> nat \<Rightarrow> buf option"
  skb_store_bytes :: "skb \<Rightarrow> u32 \<Rightarrow> u8 list \<Rightarrow> u64 \<Rightarrow> bool \<times> skb"
  skb_pull_data :: "skb \<Rightarrow> u32 \<Rightarrow> bool \<times> skb"
  skb_change_tail :: "skb \<Rightarrow> u32 \<Rightarrow> bool \<times> skb"
  csum_diff :: "u8 list \<Rightarrow> u8 list \<Rightarrow> u32 \<Rightarrow> u64"
  l4_csum_replace :: "skb \<Rightarrow> u32 \<Rightarrow> u64 \<Rightarrow> u64 \<Rightarrow> u64 \<Rightarrow> bool \<times> skb"
  csum_level_reset :: "skb \<Rightarrow> skb"
  loop_refused :: bool
  flow_insert :: "ff_key \<Rightarrow> ff_flow \<Rightarrow> (ff_key \<rightharpoonup> ff_flow) \<Rightarrow> bool \<times> (ff_key \<rightharpoonup> ff_flow)"
  request_insert :: "u64 \<Rightarrow> ff_request \<Rightarrow> (u64 \<rightharpoonup> ff_request) \<Rightarrow> bool \<times> (u64 \<rightharpoonup> ff_request)"
  clone_redirect :: "skb \<Rightarrow> u32 \<Rightarrow> 'e world \<Rightarrow> bool \<times> 'e world"

text \<open>The verdicts a TC program returns; \<open>TC_ACT_REDIRECT\<close> is what \<open>bpf_redirect\<close> yields.\<close>

datatype verdict = TC_ACT_UNSPEC | TC_ACT_SHOT | TC_ACT_REDIRECT u32

section \<open>Documented behaviour of the insert helper\<close>

text \<open>
  A successful \<open>BPF_NOEXIST\<close> insert found no entry under the key and leaves the new value
  there. In both cases an entry under another key is kept or, in an LRU map, evicted.
\<close>

definition insert_noexist :: "('k \<Rightarrow> 'v \<Rightarrow> ('k \<rightharpoonup> 'v) \<Rightarrow> bool \<times> ('k \<rightharpoonup> 'v)) \<Rightarrow> bool" where
  "insert_noexist ins \<longleftrightarrow>
     (\<forall>k v m e m'. ins k v m = (e, m') \<longrightarrow>
        (\<not> e \<longrightarrow> m k = None \<and> m' k = Some v) \<and> (\<forall>k'. k' \<noteq> k \<longrightarrow> m' k' = m k' \<or> m' k' = None))"

lemma insert_noexistD:
  assumes "insert_noexist ins" and "ins k v m = (e, m')"
  shows "\<not> e \<Longrightarrow> m k = None" and "\<not> e \<Longrightarrow> m' k = Some v" and "k' \<noteq> k \<Longrightarrow> m' k' = m k' \<or> m' k' = None"
proof -
  have *: "(\<not> e \<longrightarrow> m k = None \<and> m' k = Some v) \<and> (\<forall>k'. k' \<noteq> k \<longrightarrow> m' k' = m k' \<or> m' k' = None)"
    by (rule assms(1) [unfolded insert_noexist_def, rule_format, OF assms(2)])
  from * show "\<not> e \<Longrightarrow> m k = None" by simp
  from * show "\<not> e \<Longrightarrow> m' k = Some v" by simp
  from * show "k' \<noteq> k \<Longrightarrow> m' k' = m k' \<or> m' k' = None" by simp
qed

text \<open>The plain sequential map: an insert fails exactly when the key is taken.\<close>

definition plain_insert :: "'k \<Rightarrow> 'v \<Rightarrow> ('k \<rightharpoonup> 'v) \<Rightarrow> bool \<times> ('k \<rightharpoonup> 'v)" where
  "plain_insert k v m = (if m k = None then (False, m(k \<mapsto> v)) else (True, m))"

lemma plain_insert_noexist [simp, intro]: "insert_noexist plain_insert"
  by (auto simp: insert_noexist_def plain_insert_def split: if_splits)

text \<open>The request map is a plain hash map: a failed insert changes nothing, a successful one adds its entry.\<close>

definition hash_insert :: "('k \<Rightarrow> 'v \<Rightarrow> ('k \<rightharpoonup> 'v) \<Rightarrow> bool \<times> ('k \<rightharpoonup> 'v)) \<Rightarrow> bool" where
  "hash_insert ins \<longleftrightarrow>
     (\<forall>k v m e m'. ins k v m = (e, m') \<longrightarrow> (if e then m' = m else m k = None \<and> m' = m(k \<mapsto> v)))"

lemma hash_insertD:
  assumes "hash_insert ins" and "ins k v m = (e, m')"
  shows "e \<Longrightarrow> m' = m" and "\<not> e \<Longrightarrow> m k = None" and "\<not> e \<Longrightarrow> m' = m(k \<mapsto> v)"
proof -
  have *: "if e then m' = m else m k = None \<and> m' = m(k \<mapsto> v)"
    by (rule assms(1) [unfolded hash_insert_def, rule_format, OF assms(2)])
  from * show "e \<Longrightarrow> m' = m" by simp
  from * show "\<not> e \<Longrightarrow> m k = None" by simp
  from * show "\<not> e \<Longrightarrow> m' = m(k \<mapsto> v)" by simp
qed

lemma plain_insert_hash [simp, intro]: "hash_insert plain_insert"
  by (simp add: hash_insert_def plain_insert_def)

section \<open>Operations of \<open>maps.h\<close>\<close>

definition stat :: "ff_stat \<Rightarrow> 'e world \<Rightarrow> 'e world" where
  "stat i w = (case m_stats w (stat_id i) of
      None \<Rightarrow> w
    | Some n \<Rightarrow> w\<lparr>m_stats := (m_stats w)(stat_id i \<mapsto> n + 1)\<rparr>)"

definition configuration :: "'e world \<Rightarrow> ff_config option" where
  "configuration w = (case m_active_config w 0 of
      None \<Rightarrow> None
    | Some gen \<Rightarrow> m_configs w gen)"

definition alive :: "u64 \<Rightarrow> 'e world \<Rightarrow> bool \<times> 'e world" where
  "alive now w = (case m_leases w 0 of
      None \<Rightarrow> (False, w)
    | Some l \<Rightarrow>
        if now < le_until l then (True, w)
        else if le_reported l = 0
        then (False, stat FF_LEASE_EXPIRED (w\<lparr>m_leases := (m_leases w)(0 \<mapsto> l\<lparr>le_reported := 1\<rparr>)\<rparr>))
        else (False, w))"

definition flow_lock :: "ff_key \<Rightarrow> 'e world \<Rightarrow> ff_lock option" where
  "flow_lock key w =
     m_flow_locks w ((ucast (k_local_port key XOR k_remote_port key) XOR k_ifindex key) AND 1023)"

definition ktime :: "'e kern \<Rightarrow> 'e world \<Rightarrow> u64 \<times> 'e world" where
  "ktime K w = (let (t, e) = ktime_get_ns K (w_env w) in (t, w\<lparr>w_env := e\<rparr>))"

definition prandom :: "'e kern \<Rightarrow> 'e world \<Rightarrow> u32 \<times> 'e world" where
  "prandom K w = (let (r, e) = get_prandom_u32 K (w_env w) in (r, w\<lparr>w_env := e\<rparr>))"

section \<open>Frame lemmas\<close>

text \<open>Counting an event changes the counters only.\<close>

lemma stat_frame [simp]:
  "m_active_config (stat i w) = m_active_config w" "m_configs (stat i w) = m_configs w"
  "m_leases (stat i w) = m_leases w" "m_interfaces (stat i w) = m_interfaces w"
  "m_templates (stat i w) = m_templates w" "m_tcp_flows (stat i w) = m_tcp_flows w"
  "m_udp_flows (stat i w) = m_udp_flows w" "m_flow_locks (stat i w) = m_flow_locks w"
  "m_requests (stat i w) = m_requests w" "m_sequence (stat i w) = m_sequence w"
  "m_rotation (stat i w) = m_rotation w" "m_budgets (stat i w) = m_budgets w"
  "w_env (stat i w) = w_env w"
  by (simp_all add: stat_def split: option.split)

lemma configuration_stat [simp]: "configuration (stat i w) = configuration w"
  by (simp add: configuration_def cong: option.case_cong)

lemma flow_lock_stat [simp]: "flow_lock k (stat i w) = flow_lock k w"
  by (simp add: flow_lock_def)

text \<open>\<open>count i w\<close> reads a counter; an absent one reads as 0.\<close>

definition count :: "ff_stat \<Rightarrow> 'e world \<Rightarrow> u64" where
  "count i w = (case m_stats w (stat_id i) of None \<Rightarrow> 0 | Some n \<Rightarrow> n)"

definition counting :: "'e world \<Rightarrow> bool" where
  "counting w \<longleftrightarrow> (\<forall>i. m_stats w (stat_id i) \<noteq> None)"

lemma count_stat:
  "counting w \<Longrightarrow> count i (stat j w) = (if i = j then count i w + 1 else count i w)"
proof -
  assume "counting w"
  then obtain n where "m_stats w (stat_id j) = Some n"
    by (auto simp: counting_def)
  then show ?thesis by (auto simp: count_def stat_def)
qed

lemma counting_stat [simp]: "counting (stat j w) \<longleftrightarrow> counting w"
  by (auto simp: counting_def stat_def split: option.split)

lemma alive_frame [simp]:
  "m_active_config (snd (alive t w)) = m_active_config w" "m_configs (snd (alive t w)) = m_configs w"
  "m_interfaces (snd (alive t w)) = m_interfaces w" "m_templates (snd (alive t w)) = m_templates w"
  "m_tcp_flows (snd (alive t w)) = m_tcp_flows w" "m_udp_flows (snd (alive t w)) = m_udp_flows w"
  "m_flow_locks (snd (alive t w)) = m_flow_locks w" "m_requests (snd (alive t w)) = m_requests w"
  "m_sequence (snd (alive t w)) = m_sequence w" "m_rotation (snd (alive t w)) = m_rotation w"
  "m_budgets (snd (alive t w)) = m_budgets w" "w_env (snd (alive t w)) = w_env w"
  by (simp_all add: alive_def split: option.split)

lemma alive_iff: "fst (alive t w) \<longleftrightarrow> (\<exists>l. m_leases w 0 = Some l \<and> t < le_until l)"
  by (auto simp: alive_def split: option.split)

lemma ktime_frame [simp]:
  "m_active_config (snd (ktime K w)) = m_active_config w" "m_configs (snd (ktime K w)) = m_configs w"
  "m_leases (snd (ktime K w)) = m_leases w"
  "m_interfaces (snd (ktime K w)) = m_interfaces w" "m_templates (snd (ktime K w)) = m_templates w"
  "m_tcp_flows (snd (ktime K w)) = m_tcp_flows w" "m_udp_flows (snd (ktime K w)) = m_udp_flows w"
  "m_flow_locks (snd (ktime K w)) = m_flow_locks w" "m_requests (snd (ktime K w)) = m_requests w"
  "m_sequence (snd (ktime K w)) = m_sequence w" "m_rotation (snd (ktime K w)) = m_rotation w"
  "m_budgets (snd (ktime K w)) = m_budgets w" "m_stats (snd (ktime K w)) = m_stats w"
  by (simp_all add: ktime_def split: prod.split)

end
