(* ===== verification/Attach.thy ===== *)
theory Attach
  imports Accepted Maps
begin

text \<open>
  \<open>ebpf/user/attach.c\<close> and \<open>attach.h\<close>: attaching and detaching TC filters, inspecting
  interfaces, and the read-only check. The kernel and the \<open>tc\<close> tool are the fields of a record
  \<open>host\<close>: each call reads and updates the environment \<open>'e\<close>, the private state that the
  kernel's helpers also use. What the calls print is not modelled.
\<close>

datatype tc_point = BPF_TC_INGRESS | BPF_TC_EGRESS

record ff_attachment =
  a_index :: u32
  a_point :: tc_point
  a_priority :: u32
  a_handle :: u32
  a_id :: u32

text \<open>
  \<open>tc_hook_create\<close> returns 0 or an error number, \<open>tc_attach\<close> the program id or nothing,
  \<open>tc_query\<close> the program id of the filter that is there, \<open>hwaddr_type\<close> and \<open>if_mtu\<close> nothing
  where the ioctl fails; \<open>unix_socket\<close> and \<open>unix_listen\<close> (which unlinks, binds and listens) whether they
  succeed; \<open>tc_filter_show\<close> is the output of the \<open>tc\<close> command, line by line as
  \<open>fgets\<close> delivers it, and whether it ended well, or nothing when it could not be run.
  The map operations are those of \<open>libbpf\<close>: an update returns \<open>True\<close> for an error and the map
  afterwards. \<open>config_keys\<close> is the order in which \<open>bpf_map_get_next_key\<close> visits the entries.
\<close>

record 'e host =
  monotime :: "'e \<Rightarrow> u64 \<times> 'e"
  if_nametoindex :: "string \<Rightarrow> 'e \<Rightarrow> u32 \<times> 'e"
  hwaddr_type :: "string \<Rightarrow> 'e \<Rightarrow> u32 option \<times> 'e"
  if_mtu :: "string \<Rightarrow> 'e \<Rightarrow> int option \<times> 'e"
  ioctl_socket :: "'e \<Rightarrow> bool \<times> 'e"
  tc_filter_show :: "string \<Rightarrow> string \<Rightarrow> 'e \<Rightarrow> (string list \<times> bool) option \<times> 'e"
  tc_hook_create :: "u32 \<Rightarrow> tc_point \<Rightarrow> 'e \<Rightarrow> int \<times> 'e"
  tc_attach :: "u32 \<Rightarrow> tc_point \<Rightarrow> string \<Rightarrow> u32 \<Rightarrow> u32 \<Rightarrow> 'e \<Rightarrow> u32 option \<times> 'e"
  tc_query :: "u32 \<Rightarrow> tc_point \<Rightarrow> u32 \<Rightarrow> u32 \<Rightarrow> 'e \<Rightarrow> u32 option \<times> 'e"
  tc_detach :: "u32 \<Rightarrow> tc_point \<Rightarrow> u32 \<Rightarrow> u32 \<Rightarrow> 'e \<Rightarrow> bool \<times> 'e"
  attach_tcx :: "u32 \<Rightarrow> 'e \<Rightarrow> bool \<times> 'e"
  link_destroy :: "u32 \<Rightarrow> 'e \<Rightarrow> 'e"
  unix_socket :: "'e \<Rightarrow> bool \<times> 'e"
  unix_listen :: "string \<Rightarrow> 'e \<Rightarrow> bool \<times> 'e"
  write_state :: "string list \<Rightarrow> 'e \<Rightarrow> bool \<times> 'e"
  config_keys :: "(u32 \<rightharpoonup> ff_config) \<Rightarrow> u32 list"
  template_insert :: "u32 \<Rightarrow> ff_template \<Rightarrow> (u32 \<rightharpoonup> ff_template) \<Rightarrow> bool \<times> (u32 \<rightharpoonup> ff_template)"
  config_insert :: "u32 \<Rightarrow> ff_config \<Rightarrow> (u32 \<rightharpoonup> ff_config) \<Rightarrow> bool \<times> (u32 \<rightharpoonup> ff_config)"
  active_update :: "u32 \<Rightarrow> u32 \<Rightarrow> (u32 \<rightharpoonup> u32) \<Rightarrow> bool \<times> (u32 \<rightharpoonup> u32)"
  lease_update :: "u32 \<Rightarrow> ff_lease \<Rightarrow> (u32 \<rightharpoonup> ff_lease) \<Rightarrow> bool \<times> (u32 \<rightharpoonup> ff_lease)"
  interface_update :: "u32 \<Rightarrow> ff_interface \<Rightarrow> (u32 \<rightharpoonup> ff_interface) \<Rightarrow> bool \<times> (u32 \<rightharpoonup> ff_interface)"

definition EEXIST :: int where "EEXIST = 17"
definition ARPHRD_ETHER :: u32 where "ARPHRD_ETHER = 1"
definition ARPHRD_PPP :: u32 where "ARPHRD_PPP = 512"
definition ARPHRD_NONE :: u32 where "ARPHRD_NONE = 0xFFFE"

fun infix_of :: "string \<Rightarrow> string \<Rightarrow> bool" where
  "infix_of m [] \<longleftrightarrow> m = []"
| "infix_of m (c # cs) \<longleftrightarrow> take (length m) (c # cs) = m \<or> infix_of m cs"

text \<open>\<open>True\<close> when a filter of priority 1 is there or \<open>tc\<close> failed.\<close>

definition ff_priority_available :: "'e host \<Rightarrow> string \<Rightarrow> string \<Rightarrow> 'e \<Rightarrow> bool \<times> 'e" where
  "ff_priority_available H name direction e =
     (case tc_filter_show H name direction e of
        (None, e) \<Rightarrow> (True, e)
      | (Some (ls, ok), e) \<Rightarrow> (list_ex (infix_of ''pref 1 '') ls \<or> \<not> ok, e))"

text \<open>\<open>None\<close> is an error; the handle is always 1.\<close>

definition ff_attach :: "'e host \<Rightarrow> u32 \<Rightarrow> tc_point \<Rightarrow> string \<Rightarrow> u32 \<Rightarrow> 'e \<Rightarrow> ff_attachment option \<times> 'e" where
  "ff_attach H idx point program priority e =
     (case tc_hook_create H idx point e of (err, e) \<Rightarrow>
      if err \<noteq> 0 \<and> err \<noteq> - EEXIST then (None, e)
      else case tc_attach H idx point program priority 1 e of (prog, e) \<Rightarrow>
        (map_option (\<lambda>i. \<lparr>a_index = idx, a_point = point, a_priority = priority, a_handle = 1, a_id = i\<rparr>) prog, e))"

text \<open>A filter is removed only while it is still the program that was attached.\<close>

definition ff_detach :: "'e host \<Rightarrow> ff_attachment \<Rightarrow> 'e \<Rightarrow> 'e" where
  "ff_detach H a e =
     (case tc_query H (a_index a) (a_point a) (a_priority a) (a_handle a) e of
        (Some prog, e) \<Rightarrow>
          if prog = a_id a then snd (tc_detach H (a_index a) (a_point a) (a_priority a) (a_handle a) e) else e
      | (None, e) \<Rightarrow> e)"

definition right_type :: "ff_mode \<Rightarrow> u32 \<Rightarrow> bool" where
  "right_type mode ty \<longleftrightarrow> (if mode = FF_L3 then ty = ARPHRD_PPP \<or> ty = ARPHRD_NONE else ty = ARPHRD_ETHER)"

text \<open>Index and MTU of an interface of the right kind; a PPPoE session takes 8 bytes of the MTU.\<close>

definition ff_link :: "'e host \<Rightarrow> string \<Rightarrow> ff_mode \<Rightarrow> 'e \<Rightarrow> (u32 \<times> u32) option \<times> 'e" where
  "ff_link H name mode e =
     (case if_nametoindex H name e of (idx, e) \<Rightarrow>
      if idx = 0 then (None, e)
      else case ioctl_socket H e of (ok, e) \<Rightarrow>
      if \<not> ok then (None, e)
      else case hwaddr_type H name e of
        (None, e) \<Rightarrow> (None, e)
      | (Some ty, e) \<Rightarrow>
          if \<not> right_type mode ty then (None, e)
          else case if_mtu H name e of
            (None, e) \<Rightarrow> (None, e)
          | (Some mtu, e) \<Rightarrow>
              if mode = FF_PPPOE \<and> mtu \<le> 8 then (None, e)
              else (Some (idx, of_int (mtu - (if mode = FF_PPPOE then 8 else 0))), e))"

text \<open>The pre-flight check: \<open>True\<close> when some interface is missing, of the wrong kind or taken.\<close>

fun check_devices :: "'e host \<Rightarrow> ff_device list \<Rightarrow> 'e \<Rightarrow> bool \<times> 'e" where
  "check_devices H [] e = (False, e)"
| "check_devices H (d # ds) e =
     (case ff_link H (d_name d) (d_mode d) e of
        (None, e) \<Rightarrow> (case check_devices H ds e of (_, e) \<Rightarrow> (True, e))
      | (Some _, e) \<Rightarrow>
          (case ff_priority_available H (d_name d) ''egress'' e of (taken, e) \<Rightarrow>
           case check_devices H ds e of (failed, e) \<Rightarrow> (taken \<or> failed, e)))"

definition ff_check :: "'e host \<Rightarrow> ff_options \<Rightarrow> 'e \<Rightarrow> bool \<times> 'e" where
  "ff_check H op e = check_devices H (o_devices op) e"

end
