(* ===== verification/Lifecycle.thy ===== *)
theory Lifecycle
  imports Attach
begin

text \<open>
  \<open>ebpf/user/lifecycle.c\<close>: what the daemon keeps and does. The state is a record \<open>runtime\<close>
  (the fields of \<open>struct runtime\<close> that the logic reads) beside the maps of the kernel programs; the
  random source has its own state. A result \<open>True\<close> is the error return -1. Loops over the map of
  configurations may not end for a map that is iterated badly, so they have option results.
\<close>

record runtime =
  rt_options :: ff_options
  rt_attached :: "ff_attachment list"
  rt_ingress :: "bool list"
  rt_index :: "u32 list"
  rt_generation :: "u32 list"
  rt_epoch :: u32
  rt_config_gen :: u32
  rt_l2 :: u32
  rt_l3 :: u32
  rt_dummy :: string
  rt_owner :: string
  rt_object :: bool
  rt_loaded :: bool
  rt_tun :: bool
  rt_server :: bool
  rt_lock :: bool
  rt_route :: bool
  rt_tun_name :: string
  rt_state :: string
  rt_socket :: string

section \<open>The lease\<close>

definition lease :: "'e host \<Rightarrow> runtime \<Rightarrow> bool \<Rightarrow> 'e world \<Rightarrow> bool \<times> 'e world" where
  "lease H r on w =
     (case (if on then monotime H (w_env w) else (0, w_env w)) of (now, e) \<Rightarrow>
      let v = \<lparr>le_until = (if on then now + ucast (o_lease (rt_options r)) * FF_NS else 0),
            le_reported = (if on then 0 else 1), le_pad = 0\<rparr>
      in case lease_update H 0 v (m_leases w) of (err, m) \<Rightarrow>
        (err, w\<lparr>m_leases := m, w_env := e\<rparr>))"

section \<open>Filters and interfaces\<close>

text \<open>The lines of the state file: one for each filter, one for the dummy device.\<close>

definition point_id :: "tc_point \<Rightarrow> nat" where
  "point_id p = (case p of BPF_TC_INGRESS \<Rightarrow> 1 | BPF_TC_EGRESS \<Rightarrow> 2)"

definition filter_line :: "ff_attachment \<Rightarrow> string" where
  "filter_line a = ''F '' @ decimal (unat (a_index a)) @ '' '' @ decimal (point_id (a_point a)) @ '' '' @
     decimal (unat (a_priority a)) @ '' '' @ decimal (unat (a_handle a)) @ '' '' @ decimal (unat (a_id a))"

definition state_lines :: "runtime \<Rightarrow> string list" where
  "state_lines r = map filter_line (rt_attached r) @
     (if rt_dummy r \<noteq> [] \<and> rt_l2 r \<noteq> 0
      then [''D '' @ decimal (unat (rt_l2 r)) @ '' '' @ rt_dummy r @ '' '' @ rt_owner r] else [])"

definition save_state :: "'e host \<Rightarrow> runtime \<Rightarrow> 'e world \<Rightarrow> bool \<times> 'e world" where
  "save_state H r w = (case write_state H (state_lines r) (w_env w) of (err, e) \<Rightarrow> (err, w\<lparr>w_env := e\<rparr>))"

definition FF_ATTACHED_MAX :: nat where "FF_ATTACHED_MAX = FF_INTERFACES * 2 + 4"

definition attach_one ::
  "'e host \<Rightarrow> u32 \<Rightarrow> tc_point \<Rightarrow> string \<Rightarrow> u32 \<Rightarrow> runtime \<times> 'e world \<Rightarrow> bool \<times> runtime \<times> 'e world" where
  "attach_one H index point name priority = (\<lambda>(r, w).
     if FF_ATTACHED_MAX \<le> length (rt_attached r) then (True, r, w)
     else case ff_attach H index point name priority (w_env w) of
       (None, e) \<Rightarrow> (True, r, w\<lparr>w_env := e\<rparr>)
     | (Some a, e) \<Rightarrow>
         let r = r\<lparr>rt_attached := rt_attached r @ [a]\<rparr> in
         (case save_state H r (w\<lparr>w_env := e\<rparr>) of (err, w) \<Rightarrow> (err, r, w)))"

text \<open>Detaching every filter of an interface: the last entry of the array takes the freed place.\<close>

function drop_filters :: "'e host \<Rightarrow> u32 \<Rightarrow> nat \<Rightarrow> ff_attachment list \<Rightarrow> 'e \<Rightarrow> ff_attachment list \<times> 'e" where
  "drop_filters H idx i as e =
     (if length as \<le> i then (as, e)
      else if a_index (as ! i) = idx then drop_filters H idx i (butlast (as[i := last as])) (ff_detach H (as ! i) e)
      else drop_filters H idx (i + 1) as e)"
  by pat_completeness auto

termination
  by (relation "measure (\<lambda>(H, idx, i, as, e). length as - i)") auto

declare drop_filters.simps [simp del]

text \<open>The links of the devices at this index, from device \<open>i\<close> on.\<close>

fun drop_links :: "'e host \<Rightarrow> u32 \<Rightarrow> u32 list \<Rightarrow> bool list \<Rightarrow> 'e \<Rightarrow> bool list \<times> 'e" where
  "drop_links H idx (j # js) (l # ls) e =
     (case drop_links H idx js ls (if j = idx \<and> l then link_destroy H idx e else e) of (ls, e) \<Rightarrow>
        ((if j = idx then False else l) # ls, e))"
| "drop_links H idx _ ls e = (ls, e)"

definition forget_index :: "'e host \<Rightarrow> u32 \<Rightarrow> runtime \<times> 'e world \<Rightarrow> runtime \<times> 'e world" where
  "forget_index H idx = (\<lambda>(r, w).
     if idx = 0 then (r, w)
     else
       let n = length (o_devices (rt_options r)); w = w\<lparr>m_interfaces := (m_interfaces w)(idx := None)\<rparr> in
       case drop_links H idx (take n (rt_index r)) (rt_ingress r) (w_env w) of (ls, e) \<Rightarrow>
       case drop_filters H idx 0 (rt_attached r) e of (as, e) \<Rightarrow>
       let r = r\<lparr>rt_ingress := ls, rt_attached := as\<rparr> in
       (r, snd (save_state H r (w\<lparr>w_env := e\<rparr>))))"

definition set_index :: "nat \<Rightarrow> u32 \<Rightarrow> runtime \<Rightarrow> runtime" where
  "set_index i idx r = r\<lparr>rt_index := (rt_index r)[i := idx]\<rparr>"

text \<open>A device that is there and not attached: TCX ingress link, egress filter, a fresh generation.\<close>

definition attach_device ::
  "'e host \<Rightarrow> nat \<Rightarrow> string \<Rightarrow> u32 \<Rightarrow> runtime \<times> 'e world \<Rightarrow> bool \<times> runtime \<times> 'e world" where
  "attach_device H i name idx = (\<lambda>(r, w).
     case ff_priority_available H name ''egress'' (w_env w) of (taken, e) \<Rightarrow>
     let w = w\<lparr>w_env := e\<rparr> in
     if taken then (True, r, w)
     else case attach_tcx H idx e of (ok, e) \<Rightarrow>
     let w = w\<lparr>w_env := e\<rparr> in
     if \<not> ok then (True, r, w)
     else
       let r = set_index i idx (r\<lparr>rt_ingress := (rt_ingress r)[i := True]\<rparr>) in
       case attach_one H idx BPF_TC_EGRESS ''ff_egress'' 1 (r, w) of (err, r, w) \<Rightarrow>
       if err then (case forget_index H idx (r, w) of (r, w) \<Rightarrow> (True, r, w))
       else
         let epoch = rt_epoch r + 1 in
         (False, set_index i idx r\<lparr>rt_epoch := epoch, rt_generation := (rt_generation r)[i := epoch]\<rparr>, w))"

definition interface_of :: "runtime \<Rightarrow> nat \<Rightarrow> ff_mode \<Rightarrow> u32 \<Rightarrow> ff_interface" where
  "interface_of r i mode mtu = \<lparr>i_generation = rt_generation r ! i, i_slot = of_nat i, i_mode = mode, i_mtu = mtu,
     i_builder = (if mode = FF_L3 then rt_l3 r else rt_l2 r)\<rparr>"

definition refresh_device ::
  "'e host \<Rightarrow> bool \<Rightarrow> nat \<Rightarrow> ff_device \<Rightarrow> runtime \<times> 'e world \<Rightarrow> bool \<times> runtime \<times> 'e world" where
  "refresh_device H initial i d = (\<lambda>(r, w).
     case ff_link H (d_name d) (d_mode d) (w_env w) of (link, e) \<Rightarrow>
     let w = w\<lparr>w_env := e\<rparr>;
         gone = (case link of None \<Rightarrow> True | Some (idx, mtu) \<Rightarrow> idx \<noteq> rt_index r ! i) in
     case (if gone then (case forget_index H (rt_index r ! i) (r, w) of (r, w) \<Rightarrow> (set_index i 0 r, w)) else (r, w)) of (r, w) \<Rightarrow>
     (case link of
        None \<Rightarrow> (initial, r, w)
      | Some (idx, mtu) \<Rightarrow>
          case (if rt_index r ! i = 0 then attach_device H i (d_name d) idx (r, w) else (False, r, w)) of (err, r, w) \<Rightarrow>
          if err then (True, r, w)
          else case interface_update H idx (interface_of r i (d_mode d) mtu) (m_interfaces w) of (err, m) \<Rightarrow>
            (err, r, w\<lparr>m_interfaces := m\<rparr>)))"

fun refresh_from ::
  "'e host \<Rightarrow> bool \<Rightarrow> nat \<Rightarrow> ff_device list \<Rightarrow> runtime \<times> 'e world \<Rightarrow> bool \<times> runtime \<times> 'e world" where
  "refresh_from H initial i [] (r, w) = (False, r, w)"
| "refresh_from H initial i (d # ds) (r, w) =
     (case refresh_device H initial i d (r, w) of (err, r, w) \<Rightarrow>
      if err then (True, r, w) else refresh_from H initial (i + 1) ds (r, w))"

definition refresh :: "'e host \<Rightarrow> bool \<Rightarrow> runtime \<times> 'e world \<Rightarrow> bool \<times> runtime \<times> 'e world" where
  "refresh H initial = (\<lambda>(r, w). refresh_from H initial 0 (o_devices (rt_options r)) (r, w))"

text \<open>The kernel reports that the interface of an index is gone, or that reports were lost.\<close>

definition forget_device :: "'e host \<Rightarrow> nat \<Rightarrow> runtime \<times> 'e world \<Rightarrow> runtime \<times> 'e world" where
  "forget_device H i = (\<lambda>(r, w). case forget_index H (rt_index r ! i) (r, w) of (r, w) \<Rightarrow> (set_index i 0 r, w))"

definition link_deleted :: "'e host \<Rightarrow> u32 \<Rightarrow> runtime \<times> 'e world \<Rightarrow> runtime \<times> 'e world" where
  "link_deleted H idx = (\<lambda>(r, w). fold (\<lambda>i (r, w). if rt_index r ! i = idx then forget_device H i (r, w) else (r, w))
     [0..<length (o_devices (rt_options r))] (r, w))"

definition events_lost :: "'e host \<Rightarrow> runtime \<times> 'e world \<Rightarrow> runtime \<times> 'e world" where
  "events_lost H = (\<lambda>(r, w). fold (forget_device H) [0..<length (o_devices (rt_options r))] (r, w))"

section \<open>Publishing a configuration\<close>

definition same_layout :: "ff_options \<Rightarrow> ff_options \<Rightarrow> bool" where
  "same_layout a b \<longleftrightarrow> o_devices a = o_devices b \<and> o_tcp_entries a = o_tcp_entries b \<and> o_udp_entries a = o_udp_entries b"

definition template_span :: u32 where
  "template_span = FF_TEMPLATE_PLAN_COUNT * FF_TEMPLATE_VARIANTS"

text \<open>Deleting the keys \<open>base\<close> up to \<open>base + n - 1\<close>.\<close>

fun clear_span :: "u32 \<Rightarrow> nat \<Rightarrow> (u32 \<rightharpoonup> ff_template) \<Rightarrow> (u32 \<rightharpoonup> ff_template)" where
  "clear_span base 0 m = m"
| "clear_span base (Suc n) m = (clear_span base n m)(base + of_nat n := None)"

text \<open>\<open>bpf_map_get_next_key\<close>: the first key for \<open>None\<close> or a key that is not there, else the next one.\<close>

definition next_key :: "u32 list \<Rightarrow> u32 option \<Rightarrow> u32 option" where
  "next_key ks key =
     (let rest = (case key of None \<Rightarrow> ks | Some k \<Rightarrow> if k \<in> set ks then tl (dropWhile (\<lambda>x. x \<noteq> k) ks) else ks)
      in if rest = [] then None else Some (hd rest))"

partial_function (option) reap_loop :: "'e host \<Rightarrow> u32 \<Rightarrow> u32 \<Rightarrow> 'e world \<Rightarrow> 'e world option" where
  "reap_loop H gen key w =
     (case next_key (config_keys H (m_configs w)) (if key = 0 then None else Some key) of
        None \<Rightarrow> Some w
      | Some key \<Rightarrow>
          if key + 1 < gen then
            reap_loop H gen 0 (w\<lparr>m_templates := clear_span (key * template_span) (unat template_span) (m_templates w),
              m_configs := (m_configs w)(key := None)\<rparr>)
          else reap_loop H gen key w)"

definition reap_configs :: "'e host \<Rightarrow> runtime \<Rightarrow> 'e world \<Rightarrow> 'e world option" where
  "reap_configs H r w = reap_loop H (rt_config_gen r) 0 w"

text \<open>The variants of one plan, from number \<open>v\<close> on; \<open>True\<close> as soon as an insert fails.\<close>

fun publish_variants ::
  "'e host \<Rightarrow> u32 \<Rightarrow> ff_template list \<Rightarrow> (u32 \<rightharpoonup> ff_template) \<Rightarrow> bool \<times> (u32 \<rightharpoonup> ff_template)" where
  "publish_variants H k [] m = (False, m)"
| "publish_variants H k (t # ts) m =
     (case template_insert H k t m of (err, m) \<Rightarrow>
      if err then (True, m) else publish_variants H (k + 1) ts m)"

definition plan_count :: "ff_options \<Rightarrow> nat \<Rightarrow> nat" where
  "plan_count op plan =
     (if t_len (plan_base op plan) = 0 then 0
      else let n = pl_variants (o_plan op ! plan) in min (if n = 0 then 1 else n) (unat FF_TEMPLATE_VARIANTS))"

fun publish_plans ::
  "'e host \<Rightarrow> u32 \<Rightarrow> ff_options \<Rightarrow> nat list \<Rightarrow> ff_template list list \<Rightarrow> (u32 \<rightharpoonup> ff_template) \<Rightarrow> bool \<times> (u32 \<rightharpoonup> ff_template)" where
  "publish_plans H base op (plan # plans) (ts # tss) m =
     (case publish_variants H (base + of_nat plan * FF_TEMPLATE_VARIANTS) (take (plan_count op plan) ts) m of (err, m) \<Rightarrow>
      if err then (True, m) else publish_plans H base op plans tss m)"
| "publish_plans H base op _ _ m = (False, m)"

definition published_config :: "u32 \<Rightarrow> ff_options \<Rightarrow> ff_config" where
  "published_config gen op = (o_kernel op)\<lparr>c_generation := gen, c_variants := map (\<lambda>p. of_nat (plan_count op p)) [0..<4]\<rparr>"

text \<open>Templates, then the configuration, then the switch; on an error all that was written goes again.\<close>

definition publish_maps :: "'e host \<Rightarrow> u32 \<Rightarrow> ff_options \<Rightarrow> ff_template list list \<Rightarrow> 'e world \<Rightarrow> bool \<times> 'e world" where
  "publish_maps H gen op tss w =
     (let base = gen * template_span;
          rollback = (\<lambda>w. (True, w\<lparr>m_templates := clear_span base (unat template_span) (m_templates w),
            m_configs := (m_configs w)(gen := None)\<rparr>))
      in
      case publish_plans H base op [0..<4] tss (m_templates w) of (err, m) \<Rightarrow>
      let w = w\<lparr>m_templates := m\<rparr> in
      if err then rollback w
      else case config_insert H gen (published_config gen op) (m_configs w) of (err, m) \<Rightarrow>
      let w = w\<lparr>m_configs := m\<rparr> in
      if err then rollback w
      else case active_update H 0 gen (m_active_config w) of (err, m) \<Rightarrow>
      let w = w\<lparr>m_active_config := m\<rparr> in
      if err then rollback w else (False, w))"

definition publish ::
  "'e host \<Rightarrow> 'r random \<Rightarrow> ff_options \<Rightarrow> runtime \<times> 'e world \<times> 'r \<Rightarrow> (bool \<times> runtime \<times> 'e world \<times> 'r) option" where
  "publish H G op = (\<lambda>(r, w, rs).
     let gen = rt_config_gen r + 1 in
     if 0xffffffff div template_span < gen then Some (True, r, w, rs)
     else Option.bind (reap_configs H r w) (\<lambda>w.
       case ff_variants G op (unat FF_TEMPLATE_VARIANTS) rs of
         (None, rs) \<Rightarrow> Some (True, r, w, rs)
       | (Some tss, rs) \<Rightarrow>
           (case publish_maps H gen op tss w of (err, w) \<Rightarrow>
            if err then Some (True, r, w, rs)
            else Some (False, r\<lparr>rt_config_gen := gen,
              rt_options := op\<lparr>o_kernel := published_config gen op\<rparr>\<rparr>, w, rs))))"

datatype reload_result =
    Reloaded u32
  | ConfigInvalid config_error
  | LayoutChanged
  | PublishFailed

definition reload ::
  "'e host \<Rightarrow> 'r random \<Rightarrow> (string \<Rightarrow> u8 list option) \<Rightarrow> string \<Rightarrow> runtime \<times> 'e world \<times> 'r \<Rightarrow>
    (reload_result \<times> runtime \<times> 'e world \<times> 'r) option" where
  "reload H G files path = (\<lambda>(r, w, rs).
     case ff_config_read G files path rs of
       (Inl e, rs) \<Rightarrow> Some (ConfigInvalid e, r, w, rs)
     | (Inr op, rs) \<Rightarrow>
         if \<not> same_layout (rt_options r) op then Some (LayoutChanged, r, w, rs)
         else Option.bind (publish H G op (r, w, rs)) (\<lambda>(err, r, w, rs).
           Some (if err then PublishFailed else Reloaded (rt_config_gen r), r, w, rs)))"

end
