(* ===== verification/Skb.thy ===== *)
theory Skb
  imports Maps
begin

text \<open>
  What the kernel documents of the helpers that read and write packet bytes, as named
  predicates on the helper record, and one list-backed kernel that satisfies them. The
  programs' theorems take the predicates as hypotheses; the list-backed kernel instantiates
  them in the witnesses.
\<close>

section \<open>Documented behaviour of the packet helpers\<close>

text \<open>A change of the checksum-offload state only.\<close>

definition same_packet :: "skb \<Rightarrow> skb \<Rightarrow> bool" where
  "same_packet s s' \<longleftrightarrow> s' = s\<lparr>sk_ip_summed := sk_ip_summed s'\<rparr>"

text \<open>A write of the bytes only.\<close>

definition same_but_data :: "skb \<Rightarrow> skb \<Rightarrow> bool" where
  "same_but_data s s' \<longleftrightarrow> s' = s\<lparr>sk_ip_summed := sk_ip_summed s', sk_data := sk_data s'\<rparr>"

text \<open>\<open>bpf_skb_load_bytes\<close> copies the packet's own bytes, or fails.\<close>

definition faithful_load :: "'e kern \<Rightarrow> bool" where
  "faithful_load K \<longleftrightarrow>
     (\<forall>s off n h. skb_load_bytes K s off n = Some h \<longrightarrow>
        unat off + n \<le> length (sk_data s) \<and> (\<forall>j < n. h j = sk_data s ! (unat off + j)))"

text \<open>
  \<open>bpf_skb_pull_data\<close> makes a prefix of the packet linear and writable and changes no byte.
  \<open>W s m\<close> says that the first \<open>m\<close> bytes of \<open>s\<close> are writable; a store inside them succeeds
  and leaves them writable, \<open>bpf_l4_csum_replace\<close> changes at most the two bytes it is told to.
\<close>

definition writable_access :: "'e kern \<Rightarrow> (skb \<Rightarrow> nat \<Rightarrow> bool) \<Rightarrow> bool" where
  "writable_access K W \<longleftrightarrow>
     (\<forall>s n e s'. skb_pull_data K s n = (e, s') \<longrightarrow> same_packet s s' \<and> (\<not> e \<longrightarrow> W s' (unat n))) \<and>
     (\<forall>s m off ys fl. W s m \<and> unat off + length ys \<le> m \<longrightarrow>
        m \<le> length (sk_data s) \<and>
        (\<exists>s'. skb_store_bytes K s off ys fl = (False, s') \<and> same_but_data s s' \<and>
              sk_data s' = blit (unat off) ys (sk_data s) \<and> W s' m)) \<and>
     (\<forall>s m off a b fl e s'. W s m \<and> unat off + 2 \<le> m \<and> l4_csum_replace K s off a b fl = (e, s') \<longrightarrow>
        W s' m \<and> same_but_data s s' \<and>
        (\<exists>c d. sk_data s' = blit (unat off) [c, d] (sk_data s)))"

lemma faithful_loadD:
  assumes "faithful_load K" and "skb_load_bytes K s off n = Some h"
  shows "unat off + n \<le> length (sk_data s)"
    and "j < n \<Longrightarrow> h j = sk_data s ! (unat off + j)"
    and "bytes_of h 0 n = take n (drop (unat off) (sk_data s))"
proof -
  have *: "unat off + n \<le> length (sk_data s) \<and> (\<forall>j < n. h j = sk_data s ! (unat off + j))"
    using assms unfolding faithful_load_def by blast
  then show "unat off + n \<le> length (sk_data s)" and "j < n \<Longrightarrow> h j = sk_data s ! (unat off + j)"
    by simp_all
  show "bytes_of h 0 n = take n (drop (unat off) (sk_data s))"
    using * by (intro nth_equalityI) auto
qed

lemma writable_pull:
  assumes "writable_access K W" and "skb_pull_data K s n = (e, s')"
  shows "same_packet s s'" and "\<not> e \<Longrightarrow> W s' (unat n)"
  using assms(1) [unfolded writable_access_def, THEN conjunct1, rule_format, OF assms(2)] by simp_all

lemma writable_store:
  assumes "writable_access K W" and "W s m" and "unat off + length ys \<le> m"
  obtains s' where "skb_store_bytes K s off ys fl = (False, s')" and "same_but_data s s'"
    and "sk_data s' = blit (unat off) ys (sk_data s)" and "W s' m" and "m \<le> length (sk_data s)"
  using assms(1) [unfolded writable_access_def, THEN conjunct2, THEN conjunct1, rule_format,
      OF conjI, OF assms(2,3), of fl] that by blast

lemma writable_csum:
  assumes "writable_access K W" and "W s m" and "unat off + 2 \<le> m"
    and "l4_csum_replace K s off a b fl = (e, s')"
  obtains c d where "W s' m" and "same_but_data s s'" and "sk_data s' = blit (unat off) [c, d] (sk_data s)"
  using assms(1) [unfolded writable_access_def, THEN conjunct2, THEN conjunct2, rule_format,
      OF conjI, OF assms(2) conjI, OF assms(3,4)] that by blast

lemma same_packet_simps:
  "same_packet s s' \<Longrightarrow> sk_data s' = sk_data s" "same_packet s s' \<Longrightarrow> sk_len s' = sk_len s"
  "same_packet s s" "same_packet s s' \<Longrightarrow> same_packet s' s'' \<Longrightarrow> same_packet s s''"
  by (simp_all add: same_packet_def) (metis skb.surjective skb.update_convs(11) skb.ext_inject)+

section \<open>A list-backed kernel\<close>

text \<open>
  Packets are lists, a load or store succeeds exactly inside the packet, checksums are the
  ones'-complement sums of RFC 1071 over little-endian halfwords, the clock and the random
  generator read a given state.
\<close>

fun sum16 :: "u8 list \<Rightarrow> nat" where
  "sum16 [] = 0"
| "sum16 [a] = unat a"
| "sum16 (a # b # xs) = unat a + 256 * unat b + sum16 xs"

definition fold16 :: "nat \<Rightarrow> nat" where
  "fold16 n = (if n = 0 then 0 else (n - 1) mod 65535 + 1)"

definition list_kern :: "u64 kern" where
  "list_kern = \<lparr>
     ktime_get_ns = (\<lambda>t. (t, t)),
     get_prandom_u32 = (\<lambda>t. (0, t)),
     skb_load_bytes = (\<lambda>s off n. if unat off + n \<le> length (sk_data s)
        then Some (\<lambda>j. sk_data s ! (unat off + j)) else None),
     skb_store_bytes = (\<lambda>s off ys fl. if unat off + length ys \<le> length (sk_data s)
        then (False, s\<lparr>sk_data := blit (unat off) ys (sk_data s)\<rparr>) else (True, s)),
     skb_pull_data = (\<lambda>s n. (length (sk_data s) < unat n, s)),
     skb_change_tail = (\<lambda>s n. (False,
        s\<lparr>sk_len := n, sk_data := take (unat n) (sk_data s @ replicate (unat n) 0)\<rparr>)),
     csum_diff = (\<lambda>xs ys seed. of_nat (fold16 (unat seed + sum16 ys + (65535 - fold16 (sum16 xs))))),
     l4_csum_replace = (\<lambda>s off a b fl. if unat off + 2 \<le> length (sk_data s)
        then (let old = unat (sk_data s ! unat off) + 256 * unat (sk_data s ! (unat off + 1));
                  new = 65535 - fold16 ((65535 - old) + unat b)
              in (False, s\<lparr>sk_data := blit (unat off) [of_nat (new mod 256), of_nat (new div 256)] (sk_data s)\<rparr>))
        else (True, s)),
     csum_level_reset = (\<lambda>s. s\<lparr>sk_ip_summed := 0\<rparr>),
     loop_refused = False,
     flow_insert = plain_insert,
     request_insert = plain_insert,
     clone_redirect = (\<lambda>s i w. (False, w))\<rparr>"

lemma list_kern_load [simp, intro]: "faithful_load list_kern"
  by (auto simp: faithful_load_def list_kern_def)

lemma list_kern_access [simp, intro]: "writable_access list_kern (\<lambda>s m. m \<le> length (sk_data s))"
  by (auto simp: writable_access_def list_kern_def same_packet_def same_but_data_def size_simps Let_def
      split: if_splits)

lemma list_kern_simps:
  "ktime_get_ns list_kern = (\<lambda>t. (t, t))" "get_prandom_u32 list_kern = (\<lambda>t. (0, t))"
  "skb_load_bytes list_kern s off n = (if unat off + n \<le> length (sk_data s)
     then Some (\<lambda>j. sk_data s ! (unat off + j)) else None)"
  "skb_store_bytes list_kern s off ys fl = (if unat off + length ys \<le> length (sk_data s)
     then (False, s\<lparr>sk_data := blit (unat off) ys (sk_data s)\<rparr>) else (True, s))"
  "skb_pull_data list_kern s len = (length (sk_data s) < unat len, s)"
  "loop_refused list_kern = False" "flow_insert list_kern = plain_insert"
  "request_insert list_kern = plain_insert" "clone_redirect list_kern = (\<lambda>s i w. (False, w))"
  by (simp_all add: list_kern_def)

end
