(* ===== verification/Samples.thy ===== *)
theory Samples
  imports Skb
begin

text \<open>
  Concrete values for the witnesses: an interface, a configuration, a world with one live
  lease, and a TCP SYN with a Fast Open option.
\<close>

definition sample_interface :: ff_interface where
  "sample_interface = \<lparr>i_generation = 1, i_slot = 0, i_mode = FF_L3, i_mtu = 1500, i_builder = 9\<rparr>"

definition sample_config :: ff_config where
  "sample_config = \<lparr>c_generation = 5, c_tcp_enabled = 1, c_udp_enabled = 1, c_directions = 3,
     c_strip_tfo = 1, c_tcp_batches = 2, c_udp_both = 1, c_udp_packets = 2, c_udp_idle = 30,
     c_ttl = 3, c_repeat = 1, c_estimate_hops = 1, c_percent = 50, c_rate = 100, c_burst = 10,
     c_allow_private = 0, c_rule_map = [0, 1, 2], c_rule_count = 3, c_variants = [1, 32, 32, 1]\<rparr>"

definition empty_world :: "u64 world" where
  "empty_world = \<lparr>m_active_config = Map.empty, m_configs = Map.empty, m_leases = Map.empty,
     m_interfaces = Map.empty, m_templates = Map.empty, m_tcp_flows = Map.empty,
     m_udp_flows = Map.empty, m_flow_locks = Map.empty, m_requests = Map.empty,
     m_sequence = Map.empty, m_rotation = Map.empty, m_budgets = Map.empty,
     m_stats = Map.empty, w_env = 1000\<rparr>"

definition sample_world :: "u64 world" where
  "sample_world = empty_world\<lparr>
     m_active_config := [0 \<mapsto> 5], m_configs := [5 \<mapsto> sample_config],
     m_leases := [0 \<mapsto> \<lparr>le_until = 10000000000, le_reported = 0, le_pad = 0\<rparr>],
     m_interfaces := [3 \<mapsto> sample_interface], m_sequence := [0 \<mapsto> 0], m_rotation := [0 \<mapsto> 0],
     m_flow_locks := (\<lambda>i. if i < 1024 then Some \<lparr>l_reserved = 0\<rparr> else None),
     m_stats := (\<lambda>i. if i < 32 then Some 0 else None)\<rparr>"

definition syn_packet :: skb where
  "syn_packet = \<lparr>sk_len = 48, sk_ifindex = 3, sk_gso_segs = 0, sk_gso_size = 0, sk_vlan_present = 0,
     sk_vlan_tci = 0, sk_vlan_proto = 0, sk_cb0 = 0, sk_cb1 = 0,
     sk_data = [0x45, 0, 0, 48, 0, 0, 0, 0, 64, 6, 0, 0, 192, 0, 2, 1, 198, 51, 100, 7,
                0x9c, 0x40, 1, 0xbb, 0, 0, 0, 7, 0, 0, 0, 0, 0x70, 2, 4, 0, 0xab, 0xcd, 0, 0,
                34, 4, 9, 9, 2, 4, 5, 0xb4],
     sk_ip_summed = 0\<rparr>"

lemmas syn_packet_fields =
  syn_packet_def [THEN arg_cong, of sk_len, simplified] syn_packet_def [THEN arg_cong, of sk_data, simplified]
  syn_packet_def [THEN arg_cong, of sk_ifindex, simplified] syn_packet_def [THEN arg_cong, of sk_gso_segs, simplified]
  syn_packet_def [THEN arg_cong, of sk_gso_size, simplified]

end
