(* ===== verification/Parse.thy ===== *)
theory Parse
  imports Samples
begin

text \<open>
  \<open>ebpf/bpf/parse.h\<close>: the packet parser. \<open>parse_packet\<close> is the C function \<open>parse\<close>
  as a pure function; each \<open>stat(X); return -1\<close> is \<open>Inl X\<close>, and \<open>parse\<close> itself
  counts that reason. The C function is cut where the code moves from one layer to the
  next: link layer with VLAN tags and PPPoE, network layer, transport layer.
\<close>

section \<open>Reading and writing big-endian fields\<close>

definition read16 :: "buf \<Rightarrow> nat \<Rightarrow> u16" where
  "read16 p i = push_bit 8 (ucast (p i)) OR ucast (p (i + 1))"

definition read32 :: "buf \<Rightarrow> nat \<Rightarrow> u32" where
  "read32 p i = push_bit 16 (ucast (read16 p i)) OR ucast (read16 p (i + 2))"

definition write16 :: "u8 list \<Rightarrow> nat \<Rightarrow> u16 \<Rightarrow> u8 list" where
  "write16 p i n = p[i := ucast (drop_bit 8 n), i + 1 := ucast n]"

definition write32 :: "u8 list \<Rightarrow> nat \<Rightarrow> u32 \<Rightarrow> u8 list" where
  "write32 p i n = write16 (write16 p i (ucast (drop_bit 16 n))) (i + 2) (ucast n)"

text \<open>A \<open>read16\<close> that the code uses as a 32-bit number.\<close>

abbreviation read16u :: "buf \<Rightarrow> nat \<Rightarrow> u32" where
  "read16u p i \<equiv> ucast (read16 p i)"

lemma unat_read16: "unat (read16 p i) = unat (p i) * 256 + unat (p (i + 1))"
proof -
  have "read16 p i = ucast (p i) * 2 ^ 8 + ucast (p (i + 1))"
    unfolding read16_def by (rule or_eq_plus) (auto simp: bit_simps dest: bit_imp_le_length)
  then show ?thesis
    using unat_u8 [of "p i"] unat_u8 [of "p (i + 1)"]
    by (simp add: unat_word_ariths unat_ucast_up)
qed

lemma unat_read32: "unat (read32 p i) = unat (read16 p i) * 65536 + unat (read16 p (i + 2))"
proof -
  have "read32 p i = read16u p i * 2 ^ 16 + read16u p (i + 2)"
    unfolding read32_def by (rule or_eq_plus) (auto simp: bit_simps dest: bit_imp_le_length)
  then show ?thesis
    using unat_u16 [of "read16 p i"] unat_u16 [of "read16 p (i + 2)"]
    by (simp add: unat_word_ariths unat_ucast_up)
qed

text \<open>
  \<open>memcpy\<close> of two bytes into a \<open>__u16\<close> on a little-endian host (x86_64 and arm64, the
  two targets of the build), and \<open>bpf_ntohs\<close> there.
\<close>

definition copy16 :: "buf \<Rightarrow> nat \<Rightarrow> u16" where
  "copy16 p i = ucast (p i) OR push_bit 8 (ucast (p (i + 1)))"

definition ntohs :: "u32 \<Rightarrow> u16" where
  "ntohs x = push_bit 8 (ucast x) OR drop_bit 8 (ucast x)"

section \<open>The parsed packet\<close>

record packet =
  p_key :: ff_key
  p_l3 :: u32
  p_l4 :: u32
  p_end :: u32
  p_hlen :: u32
  p_bytes :: u32
  p_seq :: u32
  p_ack :: u32
  p_checksum :: u16
  p_ttl :: u8
  p_flags :: u8
  p_first_fragment :: bool
  p_fragment_header :: bool
  p_eth :: "u8 list"

definition zero_packet :: packet where
  "zero_packet = \<lparr>p_key = zero_key, p_l3 = 0, p_l4 = 0, p_end = 0, p_hlen = 0, p_bytes = 0,
     p_seq = 0, p_ack = 0, p_checksum = 0, p_ttl = 0, p_flags = 0, p_first_fragment = False,
     p_fragment_header = False, p_eth = replicate 22 0\<rparr>"

section \<open>Link layer\<close>

text \<open>The local variables of the parser while it walks the link layer.\<close>

record l2 =
  l_off :: u32
  l_proto :: u32
  l_tags :: nat
  l_envelope :: u32
  l_key :: ff_key
  l_eth :: "u8 list"

text \<open>One tag found in the data: it fills the first free place of the key.\<close>

definition vlan_tag :: "buf \<Rightarrow> l2 \<Rightarrow> l2" where
  "vlan_tag h st =
     (let i = (if l_tags st = 0 then 0 else 1) in
      st\<lparr>l_key := (l_key st)\<lparr>k_vlan := (k_vlan (l_key st))[i := read16 h 0],
                             k_vlan_proto := (k_vlan_proto (l_key st))[i := ucast (l_proto st)]\<rparr>,
         l_tags := l_tags st + 1, l_proto := read16u h 2, l_off := l_off st + 4\<rparr>)"

fun vlan_loop :: "'e kern \<Rightarrow> skb \<Rightarrow> nat \<Rightarrow> l2 \<Rightarrow> ff_stat + l2" where
  "vlan_loop K s 0 st = Inr st"
| "vlan_loop K s (Suc n) st =
     (if l_proto st \<noteq> 0x8100 \<and> l_proto st \<noteq> 0x88a8 then Inr st
      else if 2 \<le> l_tags st then Inl FF_SKIP_L2
      else case skb_load_bytes K s (l_off st) 4 of
        None \<Rightarrow> Inl FF_SKIP_L2
      | Some h \<Rightarrow> vlan_loop K s n (vlan_tag h st))"

definition parse_pppoe :: "'e kern \<Rightarrow> skb \<Rightarrow> ff_interface \<Rightarrow> bool \<Rightarrow> l2 \<Rightarrow> ff_stat + l2" where
  "parse_pppoe K s iface ing st =
     (if l_proto st = 0x8864 then
        (if i_mode iface \<noteq> FF_PPPOE then Inl FF_SKIP_L2
         else case skb_load_bytes K s (l_off st) 8 of
           None \<Rightarrow> Inl FF_SKIP_L2
         | Some h \<Rightarrow>
             if h 0 \<noteq> 0x11 \<or> h 1 \<noteq> 0 \<or> read16 h 2 = 0 \<or> read16 h 4 < 2 \<or>
                sk_len s < l_off st + 6 + read16u h 4
             then Inl FF_SKIP_L2
             else
               let ppp = read16u h 6 in
               Inr (st\<lparr>l_key := (l_key st)\<lparr>k_session := read16 h 2,
                          k_peer := take 6 (drop (if ing then 6 else 0) (l_eth st))\<rparr>,
                       l_envelope := l_off st + 6 + read16u h 4,
                       l_proto := (if ppp = 0x21 then 0x800 else if ppp = 0x57 then 0x86dd else 0),
                       l_off := l_off st + 8\<rparr>))
      else if i_mode iface = FF_PPPOE then Inl FF_SKIP_L2
      else Inr st)"

definition l2_start :: "skb \<Rightarrow> ff_interface \<Rightarrow> l2" where
  "l2_start s iface =
     \<lparr>l_off = 0, l_proto = 0, l_tags = 0, l_envelope = sk_len s,
      l_key = zero_key\<lparr>k_ifindex := sk_ifindex s, k_generation := i_generation iface\<rparr>,
      l_eth = replicate 22 0\<rparr>"

text \<open>After the Ethernet header: an offloaded VLAN tag takes the key's first place.\<close>

definition l2_ethernet :: "skb \<Rightarrow> buf \<Rightarrow> l2 \<Rightarrow> l2" where
  "l2_ethernet s e st =
     (let st = st\<lparr>l_eth := bytes_of e 0 14 @ replicate 8 0, l_off := 14, l_proto := read16u e 12\<rparr> in
      if sk_vlan_present s \<noteq> 0
      then st\<lparr>l_key := (l_key st)\<lparr>k_vlan := (k_vlan (l_key st))[0 := ucast (sk_vlan_tci s)],
                                k_vlan_proto := (k_vlan_proto (l_key st))[0 := ntohs (sk_vlan_proto s)]\<rparr>,
              l_tags := 1\<rparr>
      else st)"

definition l2_count_tags :: "l2 \<Rightarrow> l2" where
  "l2_count_tags st = st\<lparr>l_key := (l_key st)\<lparr>k_vlan_count := of_nat (l_tags st)\<rparr>\<rparr>"

definition parse_l2 :: "'e kern \<Rightarrow> skb \<Rightarrow> ff_interface \<Rightarrow> bool \<Rightarrow> ff_stat + l2" where
  "parse_l2 K s iface ing =
     (if 1 < sk_gso_segs s \<or> sk_gso_size s \<noteq> 0 then Inl FF_SKIP_GSO
      else if 4096 < sk_len s then Inl FF_SKIP_LEN
      else if i_mode iface = FF_L3 then Inr (l2_start s iface)
      else case skb_load_bytes K s 0 14 of
        None \<Rightarrow> Inl FF_SKIP_L2
      | Some e \<Rightarrow>
          if e 0 AND 1 \<noteq> 0 \<or> e 6 AND 1 \<noteq> 0 then Inl FF_SKIP_L2
          else case vlan_loop K s 2 (l2_ethernet s e (l2_start s iface)) of
                 Inl r \<Rightarrow> Inl r
               | Inr st \<Rightarrow> parse_pppoe K s iface ing (l2_count_tags st))"

section \<open>Network layer\<close>

text \<open>\<open>memcpy\<close> of an address to the start of the key's zeroed 16 bytes.\<close>

definition addr4 :: "buf \<Rightarrow> nat \<Rightarrow> u8 list" where
  "addr4 h i = bytes_of h i 4 @ replicate 12 0"

definition parse_ipv4 :: "buf \<Rightarrow> bool \<Rightarrow> l2 \<Rightarrow> ff_stat + packet" where
  "parse_ipv4 h ing st =
     (let off = l_off st; frag = read16 h 6; ff = (frag AND 0x2000 \<noteq> 0) in
      if h 0 \<noteq> 0x45 then Inl FF_SKIP_IPV4_OPTS
      else if frag AND 0x1fff \<noteq> 0 \<or> (frag AND 0x2000 \<noteq> 0 \<and> h 9 \<noteq> 17) then Inl FF_SKIP_FRAGMENT
      else if ff \<and> (frag AND 0xc000 \<noteq> 0 \<or> read16 h 2 < 28 \<or> (read16 h 2 - 20) AND 7 \<noteq> 0)
      then Inl FF_SKIP_FRAGMENT
      else Inr (zero_packet\<lparr>
        p_key := (l_key st)\<lparr>k_family := 4, k_protocol := h 9,
                   k_local := addr4 h (if ing then 16 else 12),
                   k_remote := addr4 h (if ing then 12 else 16)\<rparr>,
        p_eth := l_eth st, p_first_fragment := ff, p_ttl := h 8,
        p_l3 := off, p_end := off + read16u h 2, p_l4 := off + 20\<rparr>))"

definition parse_ipv6 :: "'e kern \<Rightarrow> skb \<Rightarrow> buf \<Rightarrow> bool \<Rightarrow> l2 \<Rightarrow> ff_stat + packet" where
  "parse_ipv6 K s h ing st =
     (let off = l_off st;
          p = zero_packet\<lparr>
            p_key := (l_key st)\<lparr>k_family := 6, k_protocol := h 6,
                       k_local := bytes_of h (if ing then 24 else 8) 16,
                       k_remote := bytes_of h (if ing then 8 else 24) 16\<rparr>,
            p_eth := l_eth st, p_ttl := h 7,
            p_l3 := off, p_end := off + 40 + read16u h 4, p_l4 := off + 40\<rparr>
      in
      if k_protocol (p_key p) \<noteq> 44 then Inr p
      else if l_envelope st < p_end p \<or> p_end p < p_l4 p + 8 then Inl FF_SKIP_TRUNC
      else case skb_load_bytes K s (p_l4 p) 8 of
        None \<Rightarrow> Inl FF_SKIP_TRUNC
      | Some h \<Rightarrow>
          let frag = read16 h 2;
              q = p\<lparr>p_fragment_header := True, p_first_fragment := (frag AND 1 \<noteq> 0),
                    p_key := (p_key p)\<lparr>k_protocol := 17\<rparr>, p_l4 := p_l4 p + 8\<rparr>
          in
          if frag AND 0xfff8 \<noteq> 0 \<or> h 0 \<noteq> 17 then Inl FF_SKIP_FRAGMENT
          else if h 1 \<noteq> 0 \<or> frag AND 6 \<noteq> 0 then Inl FF_SKIP_FRAGMENT
          else if p_first_fragment q \<and> (p_end q - p_l4 q) AND 7 \<noteq> 0 then Inl FF_SKIP_FRAGMENT
          else Inr q)"

definition parse_l3 :: "'e kern \<Rightarrow> skb \<Rightarrow> ff_interface \<Rightarrow> bool \<Rightarrow> l2 \<Rightarrow> ff_stat + packet" where
  "parse_l3 K s iface ing st =
     (case skb_load_bytes K s (l_off st) 20 of
        None \<Rightarrow> Inl FF_SKIP_TRUNC
      | Some h \<Rightarrow>
          if drop_bit 4 (h 0) = 4 \<and> (i_mode iface = FF_L3 \<or> l_proto st = 0x800)
          then parse_ipv4 h ing st
          else if drop_bit 4 (h 0) = 6 \<and> (i_mode iface = FF_L3 \<or> l_proto st = 0x86dd)
          then (case skb_load_bytes K s (l_off st) 40 of
                  None \<Rightarrow> Inl FF_SKIP_TRUNC
                | Some h \<Rightarrow> parse_ipv6 K s h ing st)
          else Inl FF_SKIP_IPVER)"

section \<open>Transport layer\<close>

definition parse_ports :: "buf \<Rightarrow> bool \<Rightarrow> packet \<Rightarrow> packet" where
  "parse_ports h ing p =
     (let source_port = read16 h 0; destination_port = read16 h 2 in
      p\<lparr>p_key := (p_key p)\<lparr>k_local_port := (if ing then destination_port else source_port),
                          k_remote_port := (if ing then source_port else destination_port)\<rparr>,
        p_bytes := p_end p - p_l4 p - p_hlen p\<rparr>)"

definition parse_tcp :: "'e kern \<Rightarrow> skb \<Rightarrow> bool \<Rightarrow> packet \<Rightarrow> ff_stat + packet" where
  "parse_tcp K s ing p =
     (if p_end p < p_l4 p + 20 then Inl FF_SKIP_TRUNC
      else case skb_load_bytes K s (p_l4 p) 20 of
        None \<Rightarrow> Inl FF_SKIP_TRUNC
      | Some h \<Rightarrow>
          let hlen = ucast (drop_bit 4 (h 12)) * 4;
              p = p\<lparr>p_hlen := hlen, p_flags := h 13, p_seq := read32 h 4, p_ack := read32 h 8\<rparr>
          in
          if hlen < 20 \<or> 60 < hlen \<or> p_end p < p_l4 p + hlen then Inl FF_SKIP_TRUNC
          else Inr (parse_ports h ing (p\<lparr>p_checksum := copy16 h 16\<rparr>)))"

definition parse_udp :: "'e kern \<Rightarrow> skb \<Rightarrow> bool \<Rightarrow> packet \<Rightarrow> ff_stat + packet" where
  "parse_udp K s ing p =
     (if p_end p < p_l4 p + 8 then Inl FF_SKIP_TRUNC
      else case skb_load_bytes K s (p_l4 p) 8 of
        None \<Rightarrow> Inl FF_SKIP_TRUNC
      | Some h \<Rightarrow>
          let udp_len = read16u h 4; present = p_end p - p_l4 p in
          if (if p_first_fragment p
              then udp_len \<le> present \<or> (k_family (p_key p) = 4 \<and> 65515 < udp_len)
              else udp_len \<noteq> present)
          then Inl FF_SKIP_TRUNC
          else if k_family (p_key p) = 6 \<and> copy16 h 6 = 0 then Inl FF_SKIP_TRUNC
          else Inr (parse_ports h ing (p\<lparr>p_hlen := 8, p_checksum := copy16 h 6\<rparr>)))"

definition parse_l4 :: "'e kern \<Rightarrow> skb \<Rightarrow> bool \<Rightarrow> u32 \<Rightarrow> packet \<Rightarrow> ff_stat + packet" where
  "parse_l4 K s ing envelope p =
     (if envelope < p_end p \<or> p_end p < p_l4 p then Inl FF_SKIP_TRUNC
      else if k_protocol (p_key p) = 6 then parse_tcp K s ing p
      else if k_protocol (p_key p) = 17 then parse_udp K s ing p
      else Inl FF_SKIP_PROTO)"

section \<open>The parser\<close>

definition parse_packet :: "'e kern \<Rightarrow> skb \<Rightarrow> ff_interface \<Rightarrow> bool \<Rightarrow> ff_stat + packet" where
  "parse_packet K s iface ing =
     (case parse_l2 K s iface ing of
        Inl e \<Rightarrow> Inl e
      | Inr st \<Rightarrow>
          (case parse_l3 K s iface ing st of
             Inl e \<Rightarrow> Inl e
           | Inr p \<Rightarrow> parse_l4 K s ing (l_envelope st) p))"

definition parse :: "'e kern \<Rightarrow> skb \<Rightarrow> ff_interface \<Rightarrow> bool \<Rightarrow> 'e world \<Rightarrow> packet option \<times> 'e world" where
  "parse K s iface ing w =
     (case parse_packet K s iface ing of
        Inl e \<Rightarrow> (None, stat e w)
      | Inr p \<Rightarrow> (Some p, w))"

section \<open>What each layer leaves behind\<close>

lemma vlan_tag_frame [simp]:
  "l_envelope (vlan_tag h st) = l_envelope st" "l_eth (vlan_tag h st) = l_eth st"
  "l_off (vlan_tag h st) = l_off st + 4"
  by (simp_all add: vlan_tag_def Let_def)

lemma vlan_loop_frame:
  "vlan_loop K s n st = Inr st' \<Longrightarrow>
     l_envelope st' = l_envelope st \<and> l_eth st' = l_eth st \<and>
     (\<exists>j \<le> n. l_off st' = l_off st + 4 * of_nat j)"
proof (induction n arbitrary: st)
  case 0
  then show ?case by simp
next
  case (Suc n)
  show ?case
  proof (cases "l_proto st \<noteq> 0x8100 \<and> l_proto st \<noteq> 0x88a8")
    case True
    then show ?thesis using Suc.prems by (auto intro: exI [of _ 0])
  next
    case False
    with Suc.prems obtain h where run: "vlan_loop K s n (vlan_tag h st) = Inr st'"
      by (auto split: if_splits option.splits)
    from Suc.IH [OF this] obtain j where "j \<le> n" "l_off st' = l_off st + 4 + 4 * of_nat j"
      by auto
    then have "Suc j \<le> Suc n \<and> l_off st' = l_off st + 4 * of_nat (Suc j)"
      by (simp add: algebra_simps)
    with Suc.IH [OF run] show ?thesis by (metis vlan_tag_frame(1,2))
  qed
qed

lemma parse_pppoe_bounds:
  assumes "parse_pppoe K s iface ing st = Inr st'" and "l_envelope st \<le> sk_len s"
  shows "l_envelope st' \<le> sk_len s" and "l_eth st' = l_eth st"
    and "l_off st' = l_off st \<or> l_off st' = l_off st + 8"
  using assms by (auto simp: parse_pppoe_def Let_def not_less split: if_splits option.splits)

lemma l2_ethernet_simps [simp]:
  "l_off (l2_ethernet s e st) = 14" "l_envelope (l2_ethernet s e st) = l_envelope st"
  "l_eth (l2_ethernet s e st) = bytes_of e 0 14 @ replicate 8 0"
  "l_off (l2_count_tags st) = l_off st" "l_envelope (l2_count_tags st) = l_envelope st"
  "l_eth (l2_count_tags st) = l_eth st"
  by (simp_all add: l2_ethernet_def l2_count_tags_def Let_def)

lemma l2_start_simps [simp]:
  "l_off (l2_start s iface) = 0" "l_envelope (l2_start s iface) = sk_len s"
  "l_eth (l2_start s iface) = replicate 22 0"
  by (simp_all add: l2_start_def)

lemma parse_l2_cases:
  assumes "parse_l2 K s iface ing = Inr st"
  obtains (l3) "i_mode iface = FF_L3" "st = l2_start s iface" "sk_len s \<le> 4096"
  | (ethernet) e st' where "i_mode iface \<noteq> FF_L3" "skb_load_bytes K s 0 14 = Some e" "sk_len s \<le> 4096"
      "e 0 AND 1 = 0" "e 6 AND 1 = 0"
      "vlan_loop K s 2 (l2_ethernet s e (l2_start s iface)) = Inr st'"
      "parse_pppoe K s iface ing (l2_count_tags st') = Inr st"
  using assms by (auto simp: parse_l2_def not_less split: if_splits option.splits sum.splits)

lemma parse_l2_bounds:
  assumes "parse_l2 K s iface ing = Inr st"
  shows "l_off st \<in> {0, 14, 18, 22, 26, 30}" and "l_envelope st \<le> sk_len s" and "sk_len s \<le> 4096"
    and "l_off st = 0 \<longleftrightarrow> i_mode iface = FF_L3" and "length (l_eth st) = 22"
proof -
  have "l_off st \<in> {0, 14, 18, 22, 26, 30} \<and> l_envelope st \<le> sk_len s \<and> sk_len s \<le> 4096 \<and>
    (l_off st = 0 \<longleftrightarrow> i_mode iface = FF_L3) \<and> length (l_eth st) = 22"
    using assms
  proof (cases rule: parse_l2_cases)
    case l3
    then show ?thesis by simp
  next
    case (ethernet e st')
    have le: "j \<le> 2 \<Longrightarrow> j = 0 \<or> j = 1 \<or> j = (2::nat)" for j by arith
    from vlan_loop_frame [OF ethernet(6)] have "l_envelope st' = sk_len s" "l_off st' \<in> {14, 18, 22}"
       "length (l_eth st') = 22"
      by (auto dest!: le)
    with parse_pppoe_bounds [OF ethernet(7)] ethernet(1,3) show ?thesis by auto
  qed
  then show "l_off st \<in> {0, 14, 18, 22, 26, 30}" and "l_envelope st \<le> sk_len s" and "sk_len s \<le> 4096"
    and "l_off st = 0 \<longleftrightarrow> i_mode iface = FF_L3" and "length (l_eth st) = 22" by blast+
qed


definition ip_bytes :: "packet \<Rightarrow> nat" where
  "ip_bytes p = (if k_family (p_key p) = 4 then 20 else if p_fragment_header p then 48 else 40)"

lemma parse_l3_bounds:
  assumes "parse_l3 K s iface ing st = Inr p"
  shows "p_l3 p = l_off st" and "p_l4 p = l_off st + of_nat (ip_bytes p)"
    and "k_family (p_key p) \<in> {4, 6}" and "p_fragment_header p \<Longrightarrow> k_family (p_key p) = 6"
    and "p_eth p = l_eth st"
    and "p_first_fragment p \<or> p_fragment_header p \<Longrightarrow> k_protocol (p_key p) = 17"
  using assms
  by (auto simp: parse_l3_def parse_ipv4_def parse_ipv6_def zero_packet_def ip_bytes_def Let_def
      split: if_splits option.splits)

lemma parse_ports_simps [simp]:
  "p_l3 (parse_ports h ing p) = p_l3 p" "p_l4 (parse_ports h ing p) = p_l4 p"
  "p_end (parse_ports h ing p) = p_end p" "p_hlen (parse_ports h ing p) = p_hlen p"
  "p_bytes (parse_ports h ing p) = p_end p - p_l4 p - p_hlen p"
  "p_eth (parse_ports h ing p) = p_eth p" "p_first_fragment (parse_ports h ing p) = p_first_fragment p"
  "p_fragment_header (parse_ports h ing p) = p_fragment_header p"
  "k_family (p_key (parse_ports h ing p)) = k_family (p_key p)"
  "k_protocol (p_key (parse_ports h ing p)) = k_protocol (p_key p)"
  "p_checksum (parse_ports h ing p) = p_checksum p" "p_ttl (parse_ports h ing p) = p_ttl p"
  by (simp_all add: parse_ports_def Let_def)

lemma parse_tcp_cases:
  assumes "parse_tcp K s ing p = Inr q"
  obtains h where "skb_load_bytes K s (p_l4 p) 20 = Some h" "p_l4 p + 20 \<le> p_end p"
    "20 \<le> p_hlen q" "p_hlen q \<le> 60" "p_l4 p + p_hlen q \<le> p_end p"
    "q = parse_ports h ing (p\<lparr>p_hlen := ucast (drop_bit 4 (h 12)) * 4, p_flags := h 13,
           p_seq := read32 h 4, p_ack := read32 h 8, p_checksum := copy16 h 16\<rparr>)"
proof (cases "skb_load_bytes K s (p_l4 p) 20")
  case None
  with assms show ?thesis by (simp add: parse_tcp_def split: if_splits)
next
  case (Some h)
  then show ?thesis
    using assms that [OF Some] unfolding parse_tcp_def Let_def
    by (simp add: not_less split: if_splits)
qed

lemma parse_udp_cases:
  assumes "parse_udp K s ing p = Inr q"
  obtains h where "skb_load_bytes K s (p_l4 p) 8 = Some h" "p_l4 p + 8 \<le> p_end p"
    "if p_first_fragment p then p_end p - p_l4 p < read16u h 4 \<and> (k_family (p_key p) = 4 \<longrightarrow> read16u h 4 \<le> 65515)
     else read16u h 4 = p_end p - p_l4 p"
    "k_family (p_key p) = 6 \<longrightarrow> copy16 h 6 \<noteq> 0"
    "q = parse_ports h ing (p\<lparr>p_hlen := 8, p_checksum := copy16 h 6\<rparr>)"
proof (cases "skb_load_bytes K s (p_l4 p) 8")
  case None
  with assms show ?thesis by (simp add: parse_udp_def split: if_splits)
next
  case (Some h)
  then show ?thesis
    using assms that [OF Some] unfolding parse_udp_def Let_def
    by (cases "p_first_fragment p"; simp add: not_less not_le split: if_splits)
qed

lemma parse_l4_cases:
  assumes "parse_l4 K s ing env p = Inr q"
  obtains (tcp) "k_protocol (p_key p) = 6" "parse_tcp K s ing p = Inr q" "p_end p \<le> env" "p_l4 p \<le> p_end p"
  | (udp) "k_protocol (p_key p) = 17" "parse_udp K s ing p = Inr q" "p_end p \<le> env" "p_l4 p \<le> p_end p"
  using assms by (simp add: parse_l4_def not_less split: if_splits)

lemma parse_l4_frame:
  assumes "parse_l4 K s ing env p = Inr q"
  shows "p_l3 q = p_l3 p \<and> p_l4 q = p_l4 p \<and> p_end q = p_end p \<and> p_eth q = p_eth p \<and>
    p_first_fragment q = p_first_fragment p \<and> p_fragment_header q = p_fragment_header p \<and>
    k_family (p_key q) = k_family (p_key p) \<and> k_protocol (p_key q) = k_protocol (p_key p) \<and>
    p_end p \<le> env \<and> p_bytes q = p_end q - p_l4 q - p_hlen q \<and>
    (k_protocol (p_key p) = 6 \<and> 20 \<le> p_hlen q \<and> p_hlen q \<le> 60 \<or>
     k_protocol (p_key p) = 17 \<and> p_hlen q = 8) \<and> p_l4 p + p_hlen q \<le> p_end p"
  using assms
proof (cases rule: parse_l4_cases)
  case tcp
  from tcp(2) show ?thesis
    by (rule parse_tcp_cases) (simp add: tcp(1,3))
next
  case udp
  from udp(2) show ?thesis
    by (rule parse_udp_cases) (simp add: udp(1,3))
qed

text \<open>
  What the rest of the data path relies on: the parsed offsets are in order and inside the
  packet, none of the 32-bit sums wrapped around, and the header sizes are those the builder
  assumes when it reads and writes fixed-size prefixes.
\<close>

definition packet_layout :: "skb \<Rightarrow> packet \<Rightarrow> bool" where
  "packet_layout s p \<longleftrightarrow>
     unat (p_l3 p) \<in> {0, 14, 18, 22, 26, 30} \<and>
     unat (p_l4 p) = unat (p_l3 p) + ip_bytes p \<and>
     unat (p_l4 p) + unat (p_hlen p) \<le> unat (p_end p) \<and>
     unat (p_end p) \<le> unat (sk_len s) \<and> unat (sk_len s) \<le> 4096 \<and>
     unat (p_bytes p) = unat (p_end p) - unat (p_l4 p) - unat (p_hlen p) \<and>
     k_family (p_key p) \<in> {4, 6} \<and> (p_fragment_header p \<longrightarrow> k_family (p_key p) = 6) \<and>
     (k_protocol (p_key p) = 6 \<and> 20 \<le> unat (p_hlen p) \<and> unat (p_hlen p) \<le> 60 \<and>
        \<not> p_first_fragment p \<and> \<not> p_fragment_header p \<or>
      k_protocol (p_key p) = 17 \<and> unat (p_hlen p) = 8) \<and>
     length (p_eth p) = 22"

lemma parse_packet_layout:
  assumes "parse_packet K s iface ing = Inr p"
  shows "packet_layout s p"
proof -
  from assms obtain st q where st: "parse_l2 K s iface ing = Inr st"
    and q: "parse_l3 K s iface ing st = Inr q"
    and p: "parse_l4 K s ing (l_envelope st) q = Inr p"
    by (auto simp: parse_packet_def split: sum.splits)
  note l2 = parse_l2_bounds [OF st] and l3 = parse_l3_bounds [OF q] and l4 = parse_l4_frame [OF p]
  have ip: "ip_bytes p = ip_bytes q" and ip48: "ip_bytes p \<le> 48"
    using l4 by (simp_all add: ip_bytes_def)
  have off: "unat (p_l3 p) \<in> {0, 14, 18, 22, 26, 30}"
    using l2(1) l3(1) l4 by auto
  have l4p: "unat (p_l4 p) = unat (p_l3 p) + ip_bytes p"
  proof -
    have "p_l4 p = p_l3 p + of_nat (ip_bytes p)"
      using l3(1,2) l4 ip by simp
    moreover have "unat (of_nat (ip_bytes p) :: u32) = ip_bytes p"
      using ip48 by (simp add: unat_of_nat)
    ultimately show ?thesis
      using off ip48 by (subst (asm) word_unat_eq_iff) (auto simp: unat_add_small)
  qed
  have h60: "unat (p_hlen p) \<le> 60"
    using l4 by (auto simp: word_le_nat_alt)
  have "unat (p_l4 p + p_hlen p) = unat (p_l4 p) + unat (p_hlen p)"
    by (rule unat_add_small) (use h60 off ip48 l4p in auto)
  then have seg: "unat (p_l4 p) + unat (p_hlen p) \<le> unat (p_end p)"
    using l4 by (metis word_le_nat_alt)
  have len: "unat (p_end p) \<le> unat (sk_len s)" "unat (sk_len s) \<le> 4096"
    using l4 l2(2,3) by (simp_all add: word_le_nat_alt)
  have bytes: "unat (p_bytes p) = unat (p_end p) - unat (p_l4 p) - unat (p_hlen p)"
  proof -
    have le: "p_l4 p \<le> p_end p" using seg by (simp add: word_le_nat_alt)
    moreover have "p_hlen p \<le> p_end p - p_l4 p"
      using seg by (simp add: word_le_nat_alt unat_sub_small [OF le])
    ultimately show ?thesis using l4 by (simp add: unat_sub_small)
  qed
  have prot: "k_protocol (p_key p) = 6 \<and> 20 \<le> unat (p_hlen p) \<and> unat (p_hlen p) \<le> 60 \<and>
        \<not> p_first_fragment p \<and> \<not> p_fragment_header p \<or>
      k_protocol (p_key p) = 17 \<and> unat (p_hlen p) = 8"
    using l4 l3(6) by (auto simp: word_le_nat_alt)
  show ?thesis
    unfolding packet_layout_def
    using off l4p seg len bytes prot l3(3,4,5) l4 l2(5) by simp
qed

section \<open>A worked example\<close>

definition syn_parsed :: packet where
  "syn_parsed = zero_packet\<lparr>
     p_key := zero_key\<lparr>k_ifindex := 3, k_generation := 1, k_local := [192, 0, 2, 1] @ replicate 12 0,
       k_remote := [198, 51, 100, 7] @ replicate 12 0, k_local_port := 40000, k_remote_port := 443,
       k_family := 4, k_protocol := 6\<rparr>,
     p_l4 := 20, p_end := 48, p_hlen := 28, p_seq := 7, p_checksum := 0xcdab, p_ttl := 64, p_flags := 2\<rparr>"

text \<open>Only the load helper matters to the parser.\<close>

lemma parse_syn:
  assumes "skb_load_bytes K = skb_load_bytes list_kern"
  shows "parse_packet K syn_packet sample_interface False = Inr syn_parsed"
  unfolding syn_parsed_def
  apply (simp add: parse_packet_def parse_l2_def sample_interface_def l2_start_def syn_packet_fields)
  apply (simp add: parse_l3_def assms list_kern_simps parse_ipv4_def Let_def read16_def syn_packet_fields)
  apply (simp add: parse_l4_def parse_tcp_def assms list_kern_simps zero_packet_def zero_key_def syn_packet_fields)
  apply (simp add: parse_ports_def read16_def read32_def copy16_def addr4_def bytes_of_def upt_rec)
  done

section \<open>Properties\<close>

text \<open>
  Property C23. Every packet the parser accepts is laid out as the rest of the data path assumes:
  the network header starts at one of the six supported offsets, the transport header follows
  it directly (at 20, 40 or, with a fragment header, 48 bytes), the segment ends inside the
  packet, which has at most 4096 bytes, no sum has wrapped around, and TCP headers have 20 to
  60 bytes.
\<close>
theorem parse_in_bounds:
  assumes "parse_packet K s iface ing = Inr p"
  shows "unat (p_l3 p) \<in> {0, 14, 18, 22, 26, 30} \<and>
    unat (p_l4 p) = unat (p_l3 p) +
      (if k_family (p_key p) = 4 then 20 else if p_fragment_header p then 48 else 40) \<and>
    unat (p_l4 p) + unat (p_hlen p) + unat (p_bytes p) = unat (p_end p) \<and>
    unat (p_end p) \<le> unat (sk_len s) \<and> unat (sk_len s) \<le> 4096 \<and>
    (if k_protocol (p_key p) = 6 then 20 \<le> unat (p_hlen p) \<and> unat (p_hlen p) \<le> 60
     else k_protocol (p_key p) = 17 \<and> unat (p_hlen p) = 8)"
  using parse_packet_layout [OF assms] by (auto simp: packet_layout_def ip_bytes_def)

theorem parse_in_bounds_witness:
  "parse_packet list_kern syn_packet sample_interface False = Inr syn_parsed \<and>
   unat (p_l4 syn_parsed) + unat (p_hlen syn_parsed) + unat (p_bytes syn_parsed) = 48"
proof -
  have *: "parse_packet list_kern syn_packet sample_interface False = Inr syn_parsed"
    by (rule parse_syn) simp
  from parse_in_bounds [OF this] have
    "unat (p_l4 syn_parsed) + unat (p_hlen syn_parsed) + unat (p_bytes syn_parsed) = unat (p_end syn_parsed)"
    by blast
  with * show ?thesis by (simp add: syn_parsed_def)
qed

end
