(* ===== verification/TcpOptions.thy ===== *)
theory TcpOptions
  imports Parse
begin

text \<open>
  The first half of \<open>ebpf/bpf/tcp.h\<close>: the TCP option scanner that runs under
  \<open>bpf_loop\<close>, and \<open>options\<close>, which vets the options of a segment and overwrites the
  TCP Fast Open option with NOPs. The scanner is shown to compute the plain recursive
  \<open>strip_options\<close> on the option bytes; \<open>options\<close> is shown to change the packet only
  when it succeeds, and then exactly as \<open>strip_options\<close> says.
\<close>

section \<open>The option scanner\<close>

text \<open>
  \<open>struct option_scan\<close>. Positions are at most 40 and lengths at most 255, so the sums of
  the scanner never wrap and are natural numbers here.
\<close>

record option_scan =
  os_old :: "u8 list"
  os_replacement :: "u8 list"
  os_n :: nat
  os_next :: nat
  os_nop_until :: nat
  os_strip :: bool
  os_changed :: bool
  os_rejected :: nat

text \<open>The callback: \<open>True\<close> is its return value 1, which ends the loop.\<close>

definition scan_option :: "nat \<Rightarrow> option_scan \<Rightarrow> bool \<times> option_scan" where
  "scan_option i s =
     (if 40 \<le> i \<or> os_n s \<le> i then (True, s)
      else if i < os_next s then
        (False, if i < os_nop_until s then s\<lparr>os_replacement := (os_replacement s)[i := 1]\<rparr> else s)
      else
        let kind = os_old s ! i in
        if kind = 0 then (True, s)
        else if kind = 1 then (False, s\<lparr>os_next := i + 1\<rparr>)
        else if 40 \<le> i + 1 \<or> os_n s \<le> i + 1 then (True, s\<lparr>os_rejected := 1\<rparr>)
        else
          let len = unat (os_old s ! (i + 1)) in
          if len < 2 \<or> os_n s < i + len then (True, s\<lparr>os_rejected := 1\<rparr>)
          else if kind = 19 \<or> kind = 29 then (True, s\<lparr>os_rejected := 2\<rparr>)
          else
            let s = s\<lparr>os_next := i + len\<rparr> in
            if kind = 34 \<and> os_strip s
            then (False, s\<lparr>os_nop_until := os_next s, os_changed := True,
                         os_replacement := (os_replacement s)[i := 1]\<rparr>)
            else (False, s))"

text \<open>\<open>bpf_loop\<close>: the callback runs for \<open>i, i + 1, \<dots>\<close> until it asks to stop.\<close>

fun bpf_loop :: "nat \<Rightarrow> nat \<Rightarrow> (nat \<Rightarrow> 'c \<Rightarrow> bool \<times> 'c) \<Rightarrow> 'c \<Rightarrow> 'c" where
  "bpf_loop i 0 f c = c"
| "bpf_loop i (Suc n) f c = (case f i c of (stop, c') \<Rightarrow> if stop then c' else bpf_loop (Suc i) n f c')"

section \<open>Vetting and stripping\<close>

text \<open>
  \<open>load_options\<close> and \<open>store_options\<close>: the length is checked as \<open>bytes - 1 < 40\<close> on 64-bit words, so
  that 0 wraps around and is refused. 1 is \<open>BPF_F_RECOMPUTE_CSUM\<close>.
\<close>

definition load_options :: "'e kern \<Rightarrow> skb \<Rightarrow> u32 \<Rightarrow> u64 \<Rightarrow> buf option" where
  "load_options K s off bytes = (if 40 \<le> bytes - 1 then None else skb_load_bytes K s off (unat bytes))"

definition store_options :: "'e kern \<Rightarrow> skb \<Rightarrow> u32 \<Rightarrow> u8 list \<Rightarrow> u64 \<Rightarrow> bool \<times> skb" where
  "store_options K s off data bytes =
     (if 40 \<le> bytes - 1 then (True, s) else skb_store_bytes K s off (take (unat bytes) data) 1)"

text \<open>The bytes of a \<open>__u16\<close> variable on the little-endian host.\<close>

definition bytes16 :: "u16 \<Rightarrow> u8 list" where
  "bytes16 x = [ucast x, ucast (drop_bit 8 x)]"

definition scan_start :: "buf \<Rightarrow> nat \<Rightarrow> bool \<Rightarrow> option_scan" where
  "scan_start h n strip =
     (let old = bytes_of h 0 n @ replicate (40 - n) 0 in
      \<lparr>os_old = old, os_replacement = old, os_n = n, os_next = 0, os_nop_until = 0,
       os_strip = strip, os_changed = False, os_rejected = 0\<rparr>)"

text \<open>The second half of \<open>options\<close>, entered when the scanner changed something.\<close>

definition write_options ::
  "'e kern \<Rightarrow> packet \<Rightarrow> u32 \<Rightarrow> option_scan \<Rightarrow> skb \<times> 'e world \<Rightarrow> bool \<times> skb \<times> 'e world" where
  "write_options K p n sc = (\<lambda>(s, w).
     case skb_pull_data K s (p_l4 p + p_hlen p) of (err, s) \<Rightarrow>
     if err then (True, s, stat FF_TFO_FAILED w)
     else
       let delta = csum_diff K (os_old sc) (os_replacement sc) 0 in
       if sint delta < 0 then (True, s, w)
       else case store_options K s (p_l4 p + 20) (os_replacement sc) (ucast n) of (err, s) \<Rightarrow>
       if err then (True, s, stat FF_TFO_FAILED w)
       else case l4_csum_replace K s (p_l4 p + 16) 0 delta 0 of (err, s) \<Rightarrow>
       if err then
         let s = snd (store_options K s (p_l4 p + 20) (os_old sc) (ucast n));
             s = snd (skb_store_bytes K s (p_l4 p + 16) (bytes16 (p_checksum p)) 0)
         in (True, s, stat FF_TFO_FAILED w)
       else (False, s, stat FF_TFO_STRIPPED w))"

text \<open>\<open>options\<close>: \<open>True\<close> is its return value -1. A refused \<open>bpf_loop\<close> runs no callback.\<close>

definition options ::
  "'e kern \<Rightarrow> packet \<Rightarrow> bool \<Rightarrow> skb \<times> 'e world \<Rightarrow> bool \<times> skb \<times> 'e world" where
  "options K p strip = (\<lambda>(s, w).
     let n = p_hlen p - 20 in
     if n = 0 then (False, s, w)
     else if 40 < n then (True, s, w)
     else case load_options K s (p_l4 p + 20) (ucast n) of
       None \<Rightarrow> (True, s, w)
     | Some h \<Rightarrow>
         let sc = scan_start h (unat n) strip;
             sc = (if loop_refused K then sc else bpf_loop 0 40 scan_option sc)
         in
         if loop_refused K \<or> os_rejected sc \<noteq> 0
         then (True, s, if os_rejected sc = 2 then stat FF_SKIP_AUTH w else w)
         else if \<not> os_changed sc then (False, s, w)
         else write_options K p n sc (s, w))"

section \<open>What the scanner computes\<close>

datatype veto = Malformed | Authenticated

fun strip_options :: "bool \<Rightarrow> u8 list \<Rightarrow> veto + u8 list" where
  "strip_options strip [] = Inr []"
| "strip_options strip [k] =
     (if k = 0 \<or> k = 1 then Inr [k] else Inl Malformed)"
| "strip_options strip (k # l # bs) =
     (if k = 0 then Inr (k # l # bs)
      else if k = 1 then map_sum id (Cons k) (strip_options strip (l # bs))
      else if unat l < 2 \<or> length (k # l # bs) < unat l then Inl Malformed
      else if k = 19 \<or> k = 29 then Inl Authenticated
      else map_sum id ((@) (if k = 34 \<and> strip then replicate (unat l) 1 else take (unat l) (k # l # bs)))
             (strip_options strip (drop (unat l - 2) bs)))"

lemma strip_length: "strip_options strip bs = Inr r \<Longrightarrow> length r = length bs"
proof (induction strip bs arbitrary: r rule: strip_options.induct)
  case (3 strip k l bs)
  consider "k = 0" | "k = 1" | "k \<noteq> 0" "k \<noteq> 1" by blast
  then show ?case
  proof cases
    case 2
    with "3.prems" obtain r' where "strip_options strip (l # bs) = Inr r'" "r = k # r'"
      by (auto simp: map_sum_def split: sum.splits)
    with "3.IH"(1) 2 show ?thesis by simp
  next
    case 3
    with "3.prems" obtain r' where "strip_options strip (drop (unat l - 2) bs) = Inr r'"
      and r: "r = (if k = 34 \<and> strip then replicate (unat l) 1 else take (unat l) (k # l # bs)) @ r'"
      and l: "2 \<le> unat l" "unat l \<le> length (k # l # bs)" and "k \<noteq> 19 \<and> k \<noteq> 29"
      by (auto simp: map_sum_def split: sum.splits if_splits)
    with "3.IH"(2) 3 have "length r' = length (drop (unat l - 2) bs)" by auto
    with r l show ?thesis by auto
  qed (use "3.prems" in simp)
qed (auto split: if_splits)

lemma scan_inside:
  "i < os_next s \<Longrightarrow> os_next s \<le> os_n s \<Longrightarrow> os_n s \<le> 40 \<Longrightarrow>
    scan_option i s = (False, if i < os_nop_until s then s\<lparr>os_replacement := (os_replacement s)[i := 1]\<rparr> else s)"
  by (simp add: scan_option_def)

lemma loop_Suc: "i < 40 \<Longrightarrow> bpf_loop i (40 - i) f c =
    (case f i c of (stop, c') \<Rightarrow> if stop then c' else bpf_loop (Suc i) (40 - Suc i) f c')"
proof -
  assume "i < 40"
  then have "40 - i = Suc (40 - Suc i)" by arith
  then show ?thesis by (simp only: bpf_loop.simps)
qed

lemma skip_keep:
  assumes "i \<le> os_next s" "os_next s \<le> os_n s" "os_n s \<le> 40" "os_nop_until s \<le> i"
  shows "bpf_loop i (40 - i) scan_option s = bpf_loop (os_next s) (40 - os_next s) scan_option s"
  using assms(1,4)
proof (induction rule: inc_induct)
  case (step m)
  then show ?case using assms(2,3) by (subst loop_Suc) (simp_all add: scan_inside)
qed simp

lemma skip_nop:
  assumes "i \<le> os_next s" "os_next s \<le> os_n s" "os_n s \<le> 40" "os_nop_until s = os_next s"
    and "length (os_replacement s) = 40"
  shows "bpf_loop i (40 - i) scan_option s = bpf_loop (os_next s) (40 - os_next s) scan_option
    (s\<lparr>os_replacement := blit i (replicate (os_next s - i) 1) (os_replacement s)\<rparr>)"
  using assms
proof (induction "os_next s - i" arbitrary: i s)
  case 0
  then show ?case by (simp add: blit_def)
next
  case (Suc d)
  then have lt: "i < os_next s" by arith
  let ?r = "(os_replacement s)[i := 1]"
  have "bpf_loop i (40 - i) scan_option s =
      bpf_loop (Suc i) (40 - Suc i) scan_option (s\<lparr>os_replacement := ?r\<rparr>)"
    using lt Suc.prems by (subst loop_Suc) (simp_all add: scan_inside)
  also have "\<dots> = bpf_loop (os_next s) (40 - os_next s) scan_option
      (s\<lparr>os_replacement := blit (Suc i) (replicate (os_next s - Suc i) 1) ?r\<rparr>)"
    using Suc(1) [of "s\<lparr>os_replacement := ?r\<rparr>" "Suc i"] Suc(2-) lt by simp
  also have "blit (Suc i) (replicate (os_next s - Suc i) 1) ?r = blit i (replicate (os_next s - i) 1) (os_replacement s)"
    using lt Suc.prems by (intro nth_equalityI) (auto simp: size_simps nth_blit nth_list_update)
  finally show ?case .
qed

lemma blit_append:
  "i + length a + length b \<le> length xs \<Longrightarrow> blit i (a @ b) xs = blit (i + length a) b (blit i a xs)"
  by (simp add: blit_def add.assoc add.commute [of "length b"])

lemma blit_replicate_Suc:
  "i + n \<le> length xs \<Longrightarrow> 0 < n \<Longrightarrow>
    blit (Suc i) (replicate (n - 1) x) (xs[i := x]) = blit i (replicate n x) xs"
  by (rule nth_equalityI) (auto simp: size_simps nth_blit nth_list_update)

lemma drop_blit: "i + length ys \<le> length xs \<Longrightarrow> drop (i + length ys) (blit i ys xs) = drop (i + length ys) xs"
  by (simp add: blit_def)

text \<open>A scanner at an option boundary, with nothing rewritten from there on.\<close>

definition at_boundary :: "nat \<Rightarrow> option_scan \<Rightarrow> bool" where
  "at_boundary i s \<longleftrightarrow> os_next s \<le> i \<and> os_nop_until s \<le> i \<and> i \<le> os_n s \<and> os_n s \<le> 40 \<and>
     length (os_old s) = 40 \<and> length (os_replacement s) = 40 \<and> os_rejected s = 0 \<and>
     drop i (os_replacement s) = drop i (os_old s)"

definition scan_result :: "veto + u8 list \<Rightarrow> nat \<Rightarrow> option_scan \<Rightarrow> option_scan \<Rightarrow> bool" where
  "scan_result x i s s' \<longleftrightarrow> (case x of
      Inl Malformed \<Rightarrow> os_rejected s' = 1
    | Inl Authenticated \<Rightarrow> os_rejected s' = 2
    | Inr r \<Rightarrow> os_rejected s' = 0 \<and> os_replacement s' = blit i r (os_replacement s) \<and>
        (os_changed s' \<longleftrightarrow> os_changed s \<or> r \<noteq> take (os_n s - i) (drop i (os_old s))))"

lemma take_drop_split:
  "i + m \<le> n \<Longrightarrow> take (n - i) (drop i xs) = take m (drop i xs) @ take (n - (i + m)) (drop (i + m) xs)"
proof -
  assume "i + m \<le> n"
  then have "n - i = m + (n - (i + m))" by arith
  then show ?thesis by (metis take_add drop_drop add.commute)
qed

lemma map_sum_append: "map_sum id ((#) k) x = map_sum id ((@) [k]) x"
  by (cases x) simp_all

text \<open>One option of length \<open>len\<close>, kept or overwritten with NOPs, then the rest.\<close>

lemma scan_result_step:
  assumes rest: "scan_result (strip_options st (take (os_n s - (i + len)) (drop (i + len) (os_old s)))) (i + len) s2 s'"
    and b: "at_boundary i s" "i + len \<le> os_n s" "0 < len"
    and seg: "length seg = len" "os_replacement s2 = blit i seg (os_replacement s)"
    and ch: "os_changed s2 \<longleftrightarrow> os_changed s \<or> seg \<noteq> take len (drop i (os_old s))"
    and same: "os_old s2 = os_old s" "os_n s2 = os_n s"
  shows "scan_result (map_sum id ((@) seg) (strip_options st (take (os_n s - (i + len)) (drop (i + len) (os_old s))))) i s s'"
proof (cases "strip_options st (take (os_n s - (i + len)) (drop (i + len) (os_old s)))")
  case (Inl a)
  with rest show ?thesis by (simp add: scan_result_def)
next
  case (Inr r)
  then have lr: "length r = os_n s - (i + len)"
    using strip_length [OF Inr] b by (auto simp: at_boundary_def)
  have split: "take (os_n s - i) (drop i (os_old s)) =
      take len (drop i (os_old s)) @ take (os_n s - (i + len)) (drop (i + len) (os_old s))"
    using b(2) by (rule take_drop_split)
  have l: "length (take len (drop i (os_old s))) = len"
    using b by (auto simp: at_boundary_def)
  have "blit i (seg @ r) (os_replacement s) = blit (i + len) r (os_replacement s2)"
    using b lr seg blit_append [of i seg r "os_replacement s"] by (simp add: at_boundary_def)
  moreover have "seg @ r \<noteq> take (os_n s - i) (drop i (os_old s)) \<longleftrightarrow>
      seg \<noteq> take len (drop i (os_old s)) \<or> r \<noteq> take (os_n s - (i + len)) (drop (i + len) (os_old s))"
    unfolding split using seg(1) l by (simp del: take_drop drop_drop append_take_drop_id)
  moreover have "os_rejected s' = 0 \<and> os_replacement s' = blit (i + len) r (os_replacement s2) \<and>
      (os_changed s' \<longleftrightarrow> os_changed s2 \<or> r \<noteq> take (os_n s - (i + len)) (drop (i + len) (os_old s)))"
    using rest unfolding Inr scan_result_def same by simp
  ultimately show ?thesis
    unfolding Inr scan_result_def ch by (simp del: take_drop drop_drop)
qed

text \<open>What one option of length at least two does to the scanner.\<close>

definition segment :: "nat \<Rightarrow> option_scan \<Rightarrow> u8 list" where
  "segment i s = (let len = unat (os_old s ! Suc i) in
     if os_old s ! i = 34 \<and> os_strip s then replicate len 1 else take len (drop i (os_old s)))"

definition consumed :: "nat \<Rightarrow> option_scan \<Rightarrow> option_scan" where
  "consumed i s = (let len = unat (os_old s ! Suc i); tfo = (os_old s ! i = 34 \<and> os_strip s) in
     s\<lparr>os_next := i + len, os_nop_until := (if tfo then i + len else os_nop_until s),
       os_changed := os_changed s \<or> tfo, os_replacement := blit i (segment i s) (os_replacement s)\<rparr>)"

lemma at_boundaryD:
  assumes "at_boundary i s"
  shows "os_n s \<le> 40" "i \<le> os_n s" "length (os_old s) = 40" "\<not> i < os_next s" "os_nop_until s \<le> i"
    "os_rejected s = 0" "drop i (os_replacement s) = drop i (os_old s)" "length (os_replacement s) = 40"
  using assms by (simp_all add: at_boundary_def)

lemma boundary_keep:
  assumes "at_boundary i s" and "i + m \<le> 40"
  shows "blit i (take m (drop i (os_old s))) (os_replacement s) = os_replacement s"
  using assms by (simp add: at_boundaryD(7) [symmetric] blit_same at_boundaryD(8))

lemma scan_long:
  assumes b: "at_boundary i s" and n: "Suc i < os_n s" and k: "os_old s ! i \<noteq> 0" "os_old s ! i \<noteq> 1"
  shows "scan_option i s = (let k = os_old s ! i; len = unat (os_old s ! Suc i) in
      if len < 2 \<or> os_n s < i + len then (True, s\<lparr>os_rejected := 1\<rparr>)
      else if k = 19 \<or> k = 29 then (True, s\<lparr>os_rejected := 2\<rparr>)
      else (False, if k = 34 \<and> os_strip s
            then s\<lparr>os_next := i + len, os_nop_until := i + len, os_changed := True,
                   os_replacement := (os_replacement s)[i := 1]\<rparr>
            else s\<lparr>os_next := i + len\<rparr>))"
  using n k at_boundaryD [OF b] by (simp add: scan_option_def Let_def)

lemma run_long:
  assumes b: "at_boundary i s" and n: "Suc i < os_n s" and k: "os_old s ! i \<noteq> 0" "os_old s ! i \<noteq> 1"
    and k': "os_old s ! i \<noteq> 19" "os_old s ! i \<noteq> 29"
    and len: "len = unat (os_old s ! Suc i)" "2 \<le> len" "i + len \<le> os_n s"
  shows "bpf_loop i (40 - i) scan_option s = bpf_loop (i + len) (40 - (i + len)) scan_option (consumed i s)"
proof (cases "os_old s ! i = 34 \<and> os_strip s")
  case True
  let ?s1 = "s\<lparr>os_next := i + len, os_nop_until := i + len, os_changed := True,
           os_replacement := (os_replacement s)[i := 1]\<rparr>"
  have "scan_option i s = (False, ?s1)"
    using True scan_long [OF b n k] len(2,3) by (simp add: len(1) Let_def)
  then have "bpf_loop i (40 - i) scan_option s = bpf_loop (Suc i) (40 - Suc i) scan_option ?s1"
    using n at_boundaryD(1) [OF b] by (subst loop_Suc) simp_all
  also have "\<dots> = bpf_loop (i + len) (40 - (i + len)) scan_option
      (?s1\<lparr>os_replacement := blit (Suc i) (replicate (len - 1) 1) ((os_replacement s)[i := 1])\<rparr>)"
    using skip_nop [of "Suc i" ?s1] len(2,3) at_boundaryD(1,8) [OF b] by simp
  also have "blit (Suc i) (replicate (len - 1) 1) ((os_replacement s)[i := 1]) =
      blit i (replicate len 1) (os_replacement s)"
    using len(2,3) at_boundaryD(1,8) [OF b] by (intro blit_replicate_Suc) simp_all
  finally show ?thesis using True by (simp add: consumed_def segment_def len(1) Let_def)
next
  case False
  let ?s1 = "s\<lparr>os_next := i + len\<rparr>"
  have "scan_option i s = (False, ?s1)"
    using False scan_long [OF b n k] len(2,3) k' by (auto simp: len(1) Let_def)
  then have "bpf_loop i (40 - i) scan_option s = bpf_loop (Suc i) (40 - Suc i) scan_option ?s1"
    using n at_boundaryD(1) [OF b] by (subst loop_Suc) simp_all
  also have "\<dots> = bpf_loop (i + len) (40 - (i + len)) scan_option ?s1"
    using skip_keep [of "Suc i" ?s1] len(2,3) at_boundaryD(1,5) [OF b] by simp
  also have "?s1 = consumed i s"
    using False boundary_keep [OF b, of len] len(3) at_boundaryD(1) [OF b]
    by (auto simp: consumed_def segment_def len(1) Let_def)
  finally show ?thesis .
qed

lemma length_segment:
  "at_boundary i s \<Longrightarrow> i + unat (os_old s ! Suc i) \<le> os_n s \<Longrightarrow>
    length (segment i s) = unat (os_old s ! Suc i)"
  by (auto simp: segment_def Let_def at_boundary_def)

lemma consumed_boundary:
  assumes b: "at_boundary i s" and len: "len = unat (os_old s ! Suc i)" "i + len \<le> os_n s"
  shows "at_boundary (i + len) (consumed i s)"
proof -
  note bd = at_boundaryD [OF b]
  have seg: "length (segment i s) = len" using length_segment [OF b] len by simp
  have room: "i + length (segment i s) \<le> length (os_replacement s)" using bd len seg by simp
  have "drop (i + len) (os_replacement s) = drop (i + len) (os_old s)"
    using bd(7) by (metis drop_drop add.commute)
  then have "drop (i + len) (blit i (segment i s) (os_replacement s)) = drop (i + len) (os_old s)"
    using drop_blit [OF room] seg by simp
  moreover have "length (blit i (segment i s) (os_replacement s)) = 40"
    using length_blit [OF room] bd by simp
  ultimately show ?thesis
    using bd len unfolding at_boundary_def consumed_def Let_def by simp
qed

lemma consumed_simps:
  "os_old (consumed i s) = os_old s" "os_n (consumed i s) = os_n s" "os_strip (consumed i s) = os_strip s"
  "os_replacement (consumed i s) = blit i (segment i s) (os_replacement s)"
  by (simp_all add: consumed_def Let_def)

lemma consumed_changed:
  assumes b: "at_boundary i s" and len: "len = unat (os_old s ! Suc i)" "2 \<le> len" "i + len \<le> os_n s"
  shows "os_changed (consumed i s) \<longleftrightarrow> os_changed s \<or> segment i s \<noteq> take len (drop i (os_old s))"
proof -
  have "replicate len 1 \<noteq> take len (drop i (os_old s))" if "os_old s ! i = 34"
  proof
    assume eq: "replicate len 1 = take len (drop i (os_old s))"
    from arg_cong [OF this, of "\<lambda>xs. xs ! 0"] show False
      using len that at_boundaryD(1,3) [OF b] by simp
  qed
  then show ?thesis by (auto simp: consumed_def segment_def Let_def len(1))
qed

text \<open>The same three cases of the reference, at an option boundary.\<close>

lemma reference_long:
  assumes b: "at_boundary i s" and n: "Suc i < os_n s" and k: "os_old s ! i \<noteq> 0" "os_old s ! i \<noteq> 1"
    and len: "len = unat (os_old s ! Suc i)"
  shows "strip_options (os_strip s) (take (os_n s - i) (drop i (os_old s))) =
    (if len < 2 \<or> os_n s < i + len then Inl Malformed
     else if os_old s ! i = 19 \<or> os_old s ! i = 29 then Inl Authenticated
     else map_sum id ((@) (segment i s))
       (strip_options (os_strip s) (take (os_n s - (i + len)) (drop (i + len) (os_old s)))))"
proof -
  define bs where "bs = take (os_n s - Suc (Suc i)) (drop (Suc (Suc i)) (os_old s))"
  have xs: "take (os_n s - i) (drop i (os_old s)) = os_old s ! i # os_old s ! Suc i # bs"
    using n at_boundaryD(1,3) [OF b] unfolding bs_def
    by (simp add: Cons_nth_drop_Suc [symmetric] take_Cons')
  have lbs: "length (os_old s ! i # os_old s ! Suc i # bs) = os_n s - i"
    using n at_boundaryD(1,3) [OF b] by (simp add: bs_def)
  have tail: "drop (len - 2) bs = take (os_n s - (i + len)) (drop (i + len) (os_old s))" if l2: "2 \<le> len"
  proof -
    obtain m where m: "len = 2 + m" using l2 le_Suc_ex by blast
    then show ?thesis unfolding bs_def m by (simp add: drop_take add.commute)
  qed
  have head: "take len (os_old s ! i # os_old s ! Suc i # bs) = take len (drop i (os_old s))"
    if "i + len \<le> os_n s"
    using that by (simp add: xs [symmetric] min_def)
  then have head': "take len (os_old s ! i # os_old s ! Suc i # bs) = take len (drop i (os_old s))"
    if "len \<le> os_n s - i"
    using that n by simp
  have iff: "os_n s < i + len \<longleftrightarrow> os_n s - i < len" using n by arith
  show ?thesis
    using k tail head' unfolding xs strip_options.simps segment_def Let_def lbs iff
    by (simp add: len [symmetric] not_less iff)
qed

lemma scan_correct:
  "at_boundary i s \<Longrightarrow>
    scan_result (strip_options (os_strip s) (take (os_n s - i) (drop i (os_old s)))) i s
      (bpf_loop i (40 - i) scan_option s)"
proof (induction "os_n s - i" arbitrary: i s rule: less_induct)
  case less
  note b = less.prems and bd = at_boundaryD [OF less.prems]
  let ?old = "os_old s" and ?n = "os_n s" and ?run = "bpf_loop i (40 - i) scan_option s"
  define k where "k = ?old ! i"
  define len where "len = unat (?old ! Suc i)"
  have run: "?run = (case scan_option i s of (stop, s') \<Rightarrow>
        if stop then s' else bpf_loop (Suc i) (40 - Suc i) scan_option s')" if "i < ?n"
    using that bd(1) by (simp add: loop_Suc)
  have xs: "take (?n - i) (drop i ?old) = k # take (?n - Suc i) (drop (Suc i) ?old)" if "i < ?n"
    using that bd(1,3) unfolding k_def by (simp add: Cons_nth_drop_Suc [symmetric] take_Cons')
  consider (finished) "i = ?n" | (zero) "i < ?n" "k = 0" | (nop) "i < ?n" "k = 1"
    | (short) "k \<noteq> 0" "k \<noteq> 1" "?n = Suc i"
    | (long) "k \<noteq> 0" "k \<noteq> 1" "Suc i < ?n" using bd(2) by linarith
  then show ?case
  proof cases
    case finished
    have "?run = s"
      using finished bd(1) by (cases "i < 40") (simp_all add: loop_Suc scan_option_def)
    then show ?thesis using finished bd(6) by (simp add: scan_result_def blit_def)
  next
    case zero
    then have "scan_option i s = (True, s)"
      using bd by (simp add: scan_option_def k_def)
    then have "?run = s" by (simp add: run zero)
    moreover have "strip_options (os_strip s) (0 # r) = Inr (0 # r)" for r
      by (cases r) simp_all
    ultimately show ?thesis
      using bd(1,6) boundary_keep [OF b, of "?n - i"] zero
      by (simp add: xs scan_result_def del: take_drop)
  next
    case nop
    let ?s1 = "s\<lparr>os_next := i + 1\<rparr>"
    have "scan_option i s = (False, ?s1)"
      using bd nop by (simp add: scan_option_def k_def)
    then have run1: "?run = bpf_loop (i + 1) (40 - (i + 1)) scan_option ?s1" by (simp add: run nop)
    have b1: "at_boundary (i + 1) ?s1"
      using bd nop by (simp add: at_boundary_def) (metis drop_Suc tl_drop)
    have sr: "scan_result (strip_options (os_strip s) (take (?n - (i + 1)) (drop (i + 1) ?old))) (i + 1) ?s1 ?run"
      using less.hyps [of ?s1 "i + 1"] b1 nop run1 by simp
    have one: "take (Suc 0) (drop i ?old) = [k]"
      using nop bd(1,3) by (simp add: k_def take_Suc hd_drop_conv_nth)
    have "scan_result (map_sum id ((@) [k]) (strip_options (os_strip s) (take (?n - (i + 1)) (drop (i + 1) ?old)))) i s ?run"
      using boundary_keep [OF b, of 1] nop bd(1)
      by (intro scan_result_step [OF sr b]) (simp_all add: one)
    moreover have "strip_options (os_strip s) (k # r) = map_sum id ((@) [k]) (strip_options (os_strip s) r)" for r
      using nop by (cases r) (simp_all add: map_sum_append)
    ultimately show ?thesis using nop by (simp add: xs)
  next
    case short
    then have "scan_option i s = (True, s\<lparr>os_rejected := 1\<rparr>)"
      using bd by (simp add: scan_option_def k_def)
    moreover have "strip_options (os_strip s) (take (?n - i) (drop i ?old)) = Inl Malformed"
      using short by (subst xs) simp_all
    ultimately show ?thesis using short by (simp add: run scan_result_def)
  next
    case long
    note kk = long(3) long(1,2) [unfolded k_def]
    note ref = reference_long [OF b kk len_def]
    consider (bad) "len < 2 \<or> ?n < i + len" | (auth) "2 \<le> len" "i + len \<le> ?n" "k = 19 \<or> k = 29"
      | (good) "2 \<le> len" "i + len \<le> ?n" "k \<noteq> 19" "k \<noteq> 29" by linarith
    then show ?thesis
    proof cases
      case bad
      then show ?thesis
        using long(3) run scan_long [OF b kk] unfolding ref
        by (simp add: scan_result_def len_def [symmetric] Let_def)
    next
      case auth
      then show ?thesis
        using long(3) run scan_long [OF b kk] unfolding ref
        by (auto simp add: scan_result_def len_def [symmetric] Let_def k_def)
    next
      case good
      have len: "length (segment i s) = len"
        using length_segment [OF b] good(2) by (simp add: len_def)
      note run2 = run_long [OF b kk good(3,4) [unfolded k_def] len_def good(1,2)]
      have "scan_result (strip_options (os_strip s) (take (?n - (i + len)) (drop (i + len) ?old))) (i + len)
          (consumed i s) ?run"
        using less.hyps [of "consumed i s" "i + len"] consumed_boundary [OF b len_def good(2)] good(1) long(3)
        unfolding run2 by (simp add: consumed_def Let_def)
      from scan_result_step [OF this b good(2)] good(1) len
      have "scan_result (map_sum id ((@) (segment i s))
          (strip_options (os_strip s) (take (?n - (i + len)) (drop (i + len) ?old)))) i s ?run"
        by (simp add: consumed_simps consumed_changed [OF b len_def good(1,2)])
      then show ?thesis using good unfolding ref by (simp add: k_def)
    qed
  qed
qed

lemma scan_start_simps [simp]:
  "os_n (scan_start h n st) = n" "os_strip (scan_start h n st) = st" "os_changed (scan_start h n st) = False"
  "os_old (scan_start h n st) = bytes_of h 0 n @ replicate (40 - n) 0"
  "os_replacement (scan_start h n st) = bytes_of h 0 n @ replicate (40 - n) 0"
  by (simp_all add: scan_start_def Let_def)

theorem scan_is_strip:
  assumes "n \<le> 40"
  shows "scan_result (strip_options st (bytes_of h 0 n)) 0 (scan_start h n st)
    (bpf_loop 0 40 scan_option (scan_start h n st))"
proof -
  have "at_boundary 0 (scan_start h n st)"
    using assms by (simp add: at_boundary_def) (simp add: scan_start_def Let_def)
  from scan_correct [OF this] show ?thesis by simp
qed

lemma loop_frame:
  "os_old (bpf_loop i n scan_option s) = os_old s"
proof (induction n arbitrary: i s)
  case (Suc n)
  have "os_old (snd (scan_option i s)) = os_old s"
    by (simp add: scan_option_def Let_def)
  with Suc.IH show ?case by (simp split: prod.split) (metis snd_conv)
qed simp

section \<open>What stripping does to an option list\<close>

lemma take_drop_two: "2 \<le> n \<Longrightarrow> take n (k # l # bs) @ drop (n - 2) bs = k # l # bs"
  by (cases n; cases "n - 1"; simp)

lemma strip_False: "strip_options False bs = Inr r \<Longrightarrow> r = bs"
proof (induction False bs arbitrary: r rule: strip_options.induct)
  case (3 k l bs)
  then show ?case by (auto simp: map_sum_def take_drop_two simp del: take_Suc_Cons split: sum.splits if_splits)
qed (auto split: if_splits)

lemma strip_veto: "map_sum id (\<lambda>_. ()) (strip_options a bs) = map_sum id (\<lambda>_. ()) (strip_options b bs)"
proof (induction a bs rule: strip_options.induct)
  case (3 a k l bs)
  then show ?case by (cases "k = 0 \<or> k = 1") (auto simp: sum.map_comp comp_def)
qed simp_all

text \<open>A run of NOPs and a whole option are the two units of the list.\<close>

lemma strip_nops: "strip_options st (replicate n 1 @ bs) = map_sum id ((@) (replicate n 1)) (strip_options st bs)"
proof (induction n)
  case 0
  then show ?case by (cases "strip_options st bs") simp_all
next
  case (Suc n)
  have "strip_options st (1 # xs) = map_sum id ((#) 1) (strip_options st xs)" for xs
    by (cases xs) simp_all
  with Suc show ?case by (cases "strip_options st bs") simp_all
qed

lemma strip_one:
  assumes "k \<noteq> 0" "k \<noteq> 1" "k \<noteq> 19" "k \<noteq> 29" "\<not> (k = 34 \<and> st)" "unat l = length os + 2"
  shows "strip_options st (k # l # os @ bs) = map_sum id ((@) (k # l # os)) (strip_options st bs)"
  using assms by auto

lemma strip_idem: "strip_options st bs = Inr r \<Longrightarrow> strip_options st r = Inr r"
proof (induction st bs arbitrary: r rule: strip_options.induct)
  case (3 st k l bs)
  consider "k = 0" | "k = 1" | "k \<noteq> 0" "k \<noteq> 1" by blast
  then show ?case
  proof cases
    case 2
    with "3.prems" obtain r' where "strip_options st (l # bs) = Inr r'" and r: "r = 1 # r'"
      by (auto simp: map_sum_def split: sum.splits)
    with "3.IH"(1) 2 strip_nops [of st 1 r'] show ?thesis by simp
  next
    case 3
    note False = 3
    with "3.prems" obtain r' where r': "strip_options st (drop (unat l - 2) bs) = Inr r'"
      and r: "r = (if k = 34 \<and> st then replicate (unat l) 1 else take (unat l) (k # l # bs)) @ r'"
      and l: "2 \<le> unat l" "unat l \<le> length (k # l # bs)" and k: "k \<noteq> 19 \<and> k \<noteq> 29"
      by (auto simp: map_sum_def split: sum.splits if_splits)
    have ih: "strip_options st r' = Inr r'"
      using "3.IH"(2) False k l r' by auto
    obtain m where m: "unat l = 2 + m" using l(1) le_Suc_ex by blast
    show ?thesis
    proof (cases "k = 34 \<and> st")
      case True
      then show ?thesis using ih by (simp add: r strip_nops)
    next
      case notfo: False
      then have "r = k # l # take m bs @ r'" by (simp add: r m)
      moreover have "strip_options st (k # l # take m bs @ r') = map_sum id ((@) (k # l # take m bs)) (strip_options st r')"
        using False notfo k l m by (intro strip_one) auto
      ultimately show ?thesis using ih by simp
    qed
  qed (use "3.prems" in auto)
qed (auto split: if_splits)

text \<open>The options of a segment, without the padding.\<close>

fun option_list :: "u8 list \<Rightarrow> u8 list list" where
  "option_list [] = []"
| "option_list [k] = []"
| "option_list (k # l # bs) =
     (if k = 0 then []
      else if k = 1 then option_list (l # bs)
      else if unat l < 2 \<or> length (k # l # bs) < unat l then []
      else take (unat l) (k # l # bs) # option_list (drop (unat l - 2) bs))"

lemma option_list_nops: "option_list (replicate n 1 @ bs) = option_list bs"
proof (induction n)
  case (Suc n)
  have "option_list (1 # xs) = option_list xs" for xs by (cases xs) simp_all
  with Suc show ?case by simp
qed simp

lemma option_list_one:
  assumes "k \<noteq> 0" "k \<noteq> 1" "unat l = length os + 2"
  shows "option_list (k # l # os @ bs) = (k # l # os) # option_list bs"
  using assms by simp

lemma strip_option_list: "strip_options True bs = Inr r \<Longrightarrow> option_list r = filter (\<lambda>opt. hd opt \<noteq> 34) (option_list bs)"
proof (induction True bs arbitrary: r rule: strip_options.induct)
  case (3 k l bs)
  show ?case
  proof (cases "k = 0 \<or> k = 1")
    case True
    with "3.prems" "3.hyps"(1) option_list_nops [of 1] show ?thesis
      by (auto simp: map_sum_def split: sum.splits if_splits)
  next
    case False
    with "3.prems" obtain r' where r': "strip_options True (drop (unat l - 2) bs) = Inr r'"
      and r: "r = (if k = 34 then replicate (unat l) 1 else take (unat l) (k # l # bs)) @ r'"
      and l: "2 \<le> unat l" "unat l \<le> length (k # l # bs)" and k: "k \<noteq> 19 \<and> k \<noteq> 29"
      by (auto simp: map_sum_def split: sum.splits if_splits)
    have ih: "option_list r' = filter (\<lambda>opt. hd opt \<noteq> 34) (option_list (drop (unat l - 2) bs))"
      using "3.hyps"(2) False k l r' by auto
    obtain m where m: "unat l = 2 + m" using l(1) le_Suc_ex by blast
    have bs: "option_list (k # l # bs) = (k # l # take m bs) # option_list (drop m bs)"
      using False l m by simp
    show ?thesis
    proof (cases "k = 34")
      case True
      then show ?thesis using ih l option_list_nops [of "Suc (Suc m)" r'] by (simp only: bs) (simp add: r m)
    next
      case notfo: False
      then have "r = k # l # take m bs @ r'" by (simp add: r m)
      moreover have "option_list (k # l # take m bs @ r') = (k # l # take m bs) # option_list r'"
        using False l m by (intro option_list_one) auto
      ultimately show ?thesis using ih notfo by (simp only: bs) (simp add: m)
    qed
  qed
qed (auto split: if_splits)

section \<open>What \<open>options\<close> does to the packet\<close>

lemma parse_packet_tcp:
  assumes "parse_packet K s iface ing = Inr p" and "k_protocol (p_key p) = 6"
  obtains h where "skb_load_bytes K s (p_l4 p) 20 = Some h" "p_flags p = h 13" "p_seq p = read32 h 4"
    "p_ack p = read32 h 8" "p_checksum p = copy16 h 16"
proof -
  from assms(1) obtain st q where st: "parse_l2 K s iface ing = Inr st"
    and q: "parse_l3 K s iface ing st = Inr q"
    and p: "parse_l4 K s ing (l_envelope st) q = Inr p"
    by (auto simp: parse_packet_def split: sum.splits)
  from p show ?thesis
  proof (cases rule: parse_l4_cases)
    case tcp
    from tcp(2) show ?thesis
      by (rule parse_tcp_cases) (rule that, simp_all add: parse_ports_def Let_def)
  next
    case udp
    with parse_l4_frame [OF p] assms(2) show ?thesis by simp
  qed
qed

lemma bit_u8_beyond: "8 \<le> n \<Longrightarrow> \<not> bit (x :: u8) n"
  by (auto dest: bit_imp_le_length)

lemma bytes16_copy16: "bytes16 (copy16 h i) = [h i, h (i + 1)]"
  unfolding bytes16_def copy16_def
  by (auto intro!: bit_eqI simp: bit_simps bit_u8_beyond)

definition option_bytes :: "packet \<Rightarrow> skb \<Rightarrow> u8 list" where
  "option_bytes p s = take (unat (p_hlen p) - 20) (drop (unat (p_l4 p) + 20) (sk_data s))"

text \<open>What \<open>options\<close> relies on: a parsed TCP segment and its checksum field.\<close>

definition tcp_segment :: "packet \<Rightarrow> skb \<Rightarrow> bool" where
  "tcp_segment p s \<longleftrightarrow>
     20 \<le> unat (p_hlen p) \<and> unat (p_hlen p) \<le> 60 \<and> unat (p_l4 p) \<le> 4096 \<and>
     unat (p_l4 p) + 20 \<le> length (sk_data s) \<and>
     take 2 (drop (unat (p_l4 p) + 16) (sk_data s)) = bytes16 (p_checksum p)"

lemma parsed_tcp_segment:
  assumes K: "faithful_load K" and p: "parse_packet K s iface ing = Inr p" and tcp: "k_protocol (p_key p) = 6"
  shows "tcp_segment p s"
proof -
  obtain h where h: "skb_load_bytes K s (p_l4 p) 20 = Some h" "p_checksum p = copy16 h 16"
    using parse_packet_tcp [OF p tcp] by metis
  note load = faithful_loadD [OF K h(1)]
  have "take 2 (drop (unat (p_l4 p) + 16) (sk_data s)) = [h 16, h 17]"
    using load(1) load(2) [of 16] load(2) [of 17]
    by (simp add: numeral_2_eq_2 take_Suc_conv_app_nth add.commute)
  then show ?thesis
    using parse_packet_layout [OF p] tcp load(1) h(2)
    by (simp add: tcp_segment_def packet_layout_def bytes16_copy16)
qed

lemma options_cases:
  assumes "tcp_segment p s" and K: "faithful_load K"
    and run: "options K p strip (s, w) = (rej, s', w')"
  obtains (vetoed) "rej" "s' = s"
  | (kept) "\<not> rej" "s' = s" "strip_options strip (option_bytes p s) = Inr (option_bytes p s)"
  | (writes) sc r where "write_options K p (p_hlen p - 20) sc (s, w) = (rej, s', w')"
      "strip_options strip (option_bytes p s) = Inr r"
      "length (option_bytes p s) = unat (p_hlen p) - 20"
      "take (unat (p_hlen p) - 20) (os_old sc) = option_bytes p s"
      "take (unat (p_hlen p) - 20) (os_replacement sc) = r"
      "r \<noteq> option_bytes p s" "0 < unat (p_hlen p) - 20"
proof -
  define n where "n = unat (p_hlen p) - 20"
  have le: "20 \<le> p_hlen p" using assms(1) by (simp add: tcp_segment_def word_le_nat_alt)
  have n: "unat (p_hlen p - 20) = n" using le by (simp add: n_def unat_sub_small)
  have n40: "n \<le> 40" using assms(1) by (auto simp: tcp_segment_def n_def)
  have l20: "unat (p_l4 p + 20) = unat (p_l4 p) + 20"
    using assms(1) by (intro trans [OF unat_add_small]) (simp_all add: tcp_segment_def)
  show ?thesis
  proof (cases "p_hlen p - 20 = 0")
    case True
    then have "n = 0" using n by simp
    with run True show ?thesis
      by (intro kept) (simp_all add: options_def option_bytes_def n_def)
  next
    case nz: False
    have n0: "0 < n" using nz n by (metis neq0_conv unat_eq_0)
    have "\<not> 40 < p_hlen p - 20" using n n40 by (simp add: word_less_nat_alt)
    show ?thesis
    proof (cases "load_options K s (p_l4 p + 20) (ucast (p_hlen p - 20))")
      case None
      with run nz show ?thesis by (intro vetoed) (auto simp: options_def Let_def split: if_splits)
    next
      case (Some h)
      then have load: "skb_load_bytes K s (p_l4 p + 20) n = Some h"
        using n by (simp add: load_options_def unat_ucast_up split: if_splits)
      have ob: "bytes_of h 0 n = option_bytes p s"
        using faithful_loadD(3) [OF K load] by (simp add: l20 option_bytes_def n_def)
      define sc where "sc = bpf_loop 0 40 scan_option (scan_start h n strip)"
      have sr: "scan_result (strip_options strip (option_bytes p s)) 0 (scan_start h n strip) sc"
        using scan_is_strip [OF n40, of strip h] by (simp add: ob sc_def)
      have lo: "length (option_bytes p s) = n" using ob by (metis length_bytes_of)
      show ?thesis
      proof (cases "loop_refused K \<or> os_rejected sc \<noteq> 0")
        case True
        then show ?thesis using run Some nz \<open>\<not> 40 < p_hlen p - 20\<close>
          by (intro vetoed) (auto simp: options_def Let_def n sc_def split: if_splits)
      next
        case False
        then have run1: "(if \<not> os_changed sc then (False, s, w) else write_options K p (p_hlen p - 20) sc (s, w)) = (rej, s', w')"
          using run Some nz \<open>\<not> 40 < p_hlen p - 20\<close> by (auto simp: options_def Let_def n sc_def split: if_splits)
        from False sr obtain r where r: "strip_options strip (option_bytes p s) = Inr r"
          "os_replacement sc = blit 0 r (bytes_of h 0 n @ replicate (40 - n) 0)"
          "os_changed sc \<longleftrightarrow> r \<noteq> option_bytes p s"
          by (cases "strip_options strip (option_bytes p s)") (auto simp: scan_result_def ob lo split: veto.splits)
        have lr: "length r = n" using strip_length [OF r(1)] lo by simp
        show ?thesis
        proof (cases "os_changed sc")
          case True
          have "take n (os_old sc) = option_bytes p s"
            by (simp add: sc_def loop_frame ob) (simp add: lo)
          then show ?thesis
            using True run1 r lo lr n0 by (intro writes [of sc r]) (simp_all add: n_def [symmetric] blit_def)
        next
          case False
          then show ?thesis using run1 r by (intro kept) simp_all
        qed
      qed
    qed
  qed
qed

lemma store_options_writes:
  assumes W: "writable_access K W" "W s m" "unat off + n \<le> m" and n: "0 < n" "n \<le> 40" "n \<le> length data"
    and b: "unat b = n"
  obtains s' where "store_options K s off data b = (False, s')" "same_but_data s s'"
    "sk_data s' = blit (unat off) (take n data) (sk_data s)" "W s' m" "m \<le> length (sk_data s)"
proof -
  have "b \<noteq> 0" using b n by auto
  then have "unat (b - 1) = n - 1" using b by (simp add: unat_minus_one)
  then have "\<not> 40 \<le> b - 1" using n by (simp add: word_le_nat_alt)
  moreover have "unat off + length (take n data) \<le> m" using W n by simp
  ultimately show ?thesis
    using writable_store [OF W(1,2), of off "take n data" 1] that b by (simp add: store_options_def) metis
qed

lemma same_but_data_trans: "same_but_data s s' \<Longrightarrow> same_but_data s' s'' \<Longrightarrow> same_but_data s s''"
  unfolding same_but_data_def by (metis skb.surjective skb.update_convs(10,11) skb.ext_inject)

lemma same_packet_but_data: "same_packet s s' \<Longrightarrow> same_but_data s s'"
  unfolding same_packet_def same_but_data_def by (metis skb.surjective skb.update_convs(10,11) skb.ext_inject)

lemma restore_bytes:
  assumes "take 2 (drop i xs) = ys" "take n (drop (i + 4) xs) = zs" "i + 4 + n \<le> length xs" "length r = n"
  shows "blit i ys (blit (i + 4) zs (blit i [c, d] (blit (i + 4) r xs))) = xs"
proof (rule nth_equalityI)
  have l: "length ys = 2" "length zs = n" using assms by auto
  then show "length (blit i ys (blit (i + 4) zs (blit i [c, d] (blit (i + 4) r xs)))) = length xs"
    using assms(3,4) by (simp add: size_simps)
  show "blit i ys (blit (i + 4) zs (blit i [c, d] (blit (i + 4) r xs))) ! j = xs ! j"
    if "j < length (blit i ys (blit (i + 4) zs (blit i [c, d] (blit (i + 4) r xs))))" for j
    using that l assms(3,4) by (auto simp: size_simps nth_blit assms(1,2) [symmetric])
qed

lemma write_options_effect:
  assumes W: "writable_access K W" and seg: "tcp_segment p s"
    and old: "take n (os_old sc) = option_bytes p s" and new: "take n (os_replacement sc) = r"
    and n: "n = unat (p_hlen p) - 20" "0 < n" and len: "length (option_bytes p s) = n" "length r = n"
    and run: "write_options K p (p_hlen p - 20) sc (s, w) = (rej, s', w')"
  shows "same_but_data s s' \<and> (if rej then sk_data s' = sk_data s
    else \<exists>c d. sk_data s' = blit (unat (p_l4 p) + 16) [c, d] (blit (unat (p_l4 p) + 20) r (sk_data s)))"
proof -
  let ?l4 = "unat (p_l4 p)" and ?D = "sk_data s"
  note sg = seg [unfolded tcp_segment_def]
  obtain e s1 where pull: "skb_pull_data K s (p_l4 p + p_hlen p) = (e, s1)" by fastforce
  note same = writable_pull [OF W pull]
  have D1: "sk_data s1 = ?D" using same(1) by (simp add: same_packet_simps)
  have sb1: "same_but_data s s1" using same(1) by (rule same_packet_but_data)
  define delta where "delta = csum_diff K (os_old sc) (os_replacement sc) 0"
  show ?thesis
  proof (cases "e \<or> sint delta < 0")
    case True
    then have "rej \<and> s' = s1" using run pull by (auto simp: write_options_def delta_def Let_def split: if_splits)
    with D1 sb1 show ?thesis by simp
  next
    case False
    define m where "m = unat (p_l4 p + p_hlen p)"
    have m: "m = ?l4 + 20 + n"
    proof -
      have "m = ?l4 + unat (p_hlen p)"
        unfolding m_def by (rule unat_add_small) (use sg in simp)
      then show ?thesis using sg n by simp
    qed
    have off: "unat (p_l4 p + 20) = ?l4 + 20" "unat (p_l4 p + 16) = ?l4 + 16"
      using sg by (simp_all add: unat_add_small)
    have W1: "W s1 m" using same(2) False by (simp add: m_def)
    have b: "unat (ucast (p_hlen p - 20) :: u64) = n"
      using sg n by (simp add: unat_ucast_up unat_sub_small word_le_nat_alt)
    have n40: "n \<le> 40" using sg n by auto
    have lo: "n \<le> length (os_replacement sc)" "n \<le> length (os_old sc)"
      using arg_cong [OF new, of length] arg_cong [OF old, of length] len by (auto simp: min_def split: if_splits)
    obtain s2 where s2: "store_options K s1 (p_l4 p + 20) (os_replacement sc) (ucast (p_hlen p - 20)) = (False, s2)"
      "same_but_data s1 s2" "sk_data s2 = blit (?l4 + 20) r ?D" "W s2 m" "m \<le> length ?D"
    proof -
      have room: "unat (p_l4 p + 20) + n \<le> m" using m off by simp
      show ?thesis by (rule store_options_writes [OF W W1 room n(2) n40 lo(1) b, unfolded D1 new off]) (rule that)
    qed
    obtain e3 s3 where cs: "l4_csum_replace K s2 (p_l4 p + 16) 0 delta 0 = (e3, s3)" by fastforce
    obtain c d where s3: "W s3 m" "same_but_data s2 s3" "sk_data s3 = blit (?l4 + 16) [c, d] (sk_data s2)"
    proof -
      have room: "unat (p_l4 p + 16) + 2 \<le> m" using m off by simp
      show ?thesis by (rule writable_csum [OF W s2(4) room cs, unfolded off]) (rule that)
    qed
    have sb3: "same_but_data s s3" using sb1 s2(2) s3(2) same_but_data_trans by blast
    show ?thesis
    proof (cases e3)
      case False2: False
      then have "\<not> rej \<and> s' = s3"
        using run pull False cs s2(1) by (auto simp: write_options_def delta_def Let_def)
      with s3 s2 sb3 show ?thesis by auto
    next
      case True
      obtain s4 where s4: "store_options K s3 (p_l4 p + 20) (os_old sc) (ucast (p_hlen p - 20)) = (False, s4)"
        "same_but_data s3 s4" "sk_data s4 = blit (?l4 + 20) (option_bytes p s) (sk_data s3)" "W s4 m"
      proof -
        have room: "unat (p_l4 p + 20) + n \<le> m" using m off by simp
        show ?thesis by (rule store_options_writes [OF W s3(1) room n(2) n40 lo(2) b, unfolded old off]) (rule that)
      qed
      obtain s5 where s5: "skb_store_bytes K s4 (p_l4 p + 16) (bytes16 (p_checksum p)) 0 = (False, s5)"
        "same_but_data s4 s5" "sk_data s5 = blit (?l4 + 16) (bytes16 (p_checksum p)) (sk_data s4)"
      proof -
        have room: "unat (p_l4 p + 16) + length (bytes16 (p_checksum p)) \<le> m" using m off by (simp add: bytes16_def)
        show ?thesis by (rule writable_store [OF W s4(4) room, of 0, unfolded off]) (rule that)
      qed
      have "rej \<and> s' = s5"
        using run pull False cs s2(1) True s4(1) s5(1) by (auto simp: write_options_def delta_def Let_def)
      moreover have "sk_data s5 = ?D"
        using sg len n s2(5) m unfolding s5(3) s4(3) s3(3) s2(3)
        using restore_bytes [of "?l4 + 16" ?D "bytes16 (p_checksum p)" n "option_bytes p s" r c d]
        by (simp add: option_bytes_def add.assoc)
      ultimately show ?thesis using sb3 s4(2) s5(2) same_but_data_trans by metis
    qed
  qed
qed

lemma options_effect:
  assumes K: "faithful_load K" and W: "writable_access K W"
    and p: "parse_packet K s iface ing = Inr p" and tcp: "k_protocol (p_key p) = 6"
    and run: "options K p strip (s, w) = (rej, s', w')"
  shows "same_but_data s s' \<and> (if rej then sk_data s' = sk_data s
    else \<exists>r. strip_options strip (option_bytes p s) = Inr r \<and> length r = length (option_bytes p s) \<and>
      (if r = option_bytes p s then sk_data s' = sk_data s
       else \<exists>c d. sk_data s' = blit (unat (p_l4 p) + 16) [c, d] (blit (unat (p_l4 p) + 20) r (sk_data s))))"
proof -
  note seg = parsed_tcp_segment [OF K p tcp]
  from seg K run show ?thesis
  proof (cases rule: options_cases)
    case vetoed
    then show ?thesis by (simp add: same_packet_but_data same_packet_simps)
  next
    case kept
    then show ?thesis by (simp add: same_packet_but_data same_packet_simps)
  next
    case (writes sc r)
    have lr: "length r = length (option_bytes p s)" using strip_length [OF writes(2)] .
    from write_options_effect [OF W seg writes(4,5) refl writes(7,3) _ writes(1)] writes lr
    show ?thesis by simp
  qed
qed

lemma strip_unauthenticated:
  "strip_options st bs = Inr r \<Longrightarrow> list_all (\<lambda>opt. hd opt \<noteq> 19 \<and> hd opt \<noteq> 29) (option_list bs)"
proof (induction st bs arbitrary: r rule: strip_options.induct)
  case (3 st k l bs)
  then show ?case by (cases "k = 0 \<or> k = 1") (auto simp: map_sum_def split: sum.splits if_splits)
qed (auto split: if_splits)

lemma strip_lists:
  assumes "strip_options st bs = Inr r"
  shows "option_list r = (if st then filter (\<lambda>opt. hd opt \<noteq> 34) (option_list bs) else option_list bs)"
  using assms strip_option_list [of bs r] strip_False [of bs r] by (cases st) auto

text \<open>The options of the packet after the bytes of the list and of the checksum were written.\<close>

lemma option_bytes_written:
  assumes "tcp_segment p s" and "length r = length (option_bytes p s)"
    and "sk_data s' = blit (unat (p_l4 p) + 16) [c, d] (blit (unat (p_l4 p) + 20) r (sk_data s))"
  shows "option_bytes p s' = r"
proof -
  let ?o = "unat (p_l4 p) + 20" and ?n = "unat (p_hlen p) - 20"
  have o: "?o \<le> length (sk_data s)" using assms(1) by (simp add: tcp_segment_def)
  have r: "length r = min ?n (length (sk_data s) - ?o)" using assms(2) by (simp add: option_bytes_def)
  have "drop ?o (sk_data s') = r @ drop (?o + length r) (sk_data s)"
    unfolding assms(3) using o r by (simp add: blit_def add.commute)
  moreover have "take ?n (r @ drop (?o + length r) (sk_data s)) = r" using r by (cases "?n \<le> length (sk_data s) - ?o") auto
  ultimately show ?thesis by (simp add: option_bytes_def)
qed

lemma bytes_of_list: "bytes_of ((!) xs) 0 (length xs) = xs"
  by (simp add: bytes_of_def map_nth)

lemma scan_settled:
  assumes "strip_options st r = Inr r" and "length r \<le> 40"
  shows "os_rejected (bpf_loop 0 40 scan_option (scan_start ((!) r) (length r) st)) = 0 \<and>
    \<not> os_changed (bpf_loop 0 40 scan_option (scan_start ((!) r) (length r) st))"
  using scan_is_strip [OF assms(2), of st "(!) r"] assms(1) by (simp add: scan_result_def bytes_of_list)

section \<open>Properties\<close>

lemma replicate_numeral: "replicate (numeral n) x = x # replicate (pred_numeral n) x"
  by (simp add: numeral_eq_Suc)

text \<open>
  Property C25. The incremental scanner that the kernel runs one byte position at a time is
  equivalent to the recursive reading of an option list: it rejects exactly the malformed and
  the authenticated lists, each with its own code, otherwise its replacement buffer holds the
  stripped list, and it reports a change exactly when the list has changed.
\<close>
theorem scanner_equivalent:
  assumes "n \<le> 40"
  shows "case strip_options strip (bytes_of h 0 n) of
      Inl Malformed \<Rightarrow> os_rejected (bpf_loop 0 40 scan_option (scan_start h n strip)) = 1
    | Inl Authenticated \<Rightarrow> os_rejected (bpf_loop 0 40 scan_option (scan_start h n strip)) = 2
    | Inr r \<Rightarrow> os_rejected (bpf_loop 0 40 scan_option (scan_start h n strip)) = 0 \<and>
        os_replacement (bpf_loop 0 40 scan_option (scan_start h n strip)) = r @ replicate (40 - n) 0 \<and>
        (os_changed (bpf_loop 0 40 scan_option (scan_start h n strip)) \<longleftrightarrow> r \<noteq> bytes_of h 0 n)"
  using scan_is_strip [OF assms, of strip h] strip_length [of strip "bytes_of h 0 n"]
  by (auto simp: scan_result_def blit_def split: sum.splits veto.splits)

theorem scanner_equivalent_witness:
  "(8::nat) \<le> 40 \<and>
   os_replacement (bpf_loop 0 40 scan_option (scan_start ((!) [34, 4, 9, 9, 2, 4, 5, 180]) 8 True)) =
     [1, 1, 1, 1, 2, 4, 5, 180] @ replicate 32 0"
proof -
  have "strip_options True (bytes_of ((!) [34, 4, 9, 9, 2, 4, 5, 180]) 0 8) = Inr [1, 1, 1, 1, 2, 4, 5, 180]"
    by (simp add: bytes_of_def upt_rec replicate_numeral)
  with scanner_equivalent [of 8 "(!) [34, 4, 9, 9, 2, 4, 5, 180]" True] show ?thesis by simp
qed

text \<open>
  Property C26. What stripping leaves in the packet: when \<open>options\<close> accepts a parsed TCP segment with stripping
  asked for, the option bytes of the packet are then as many as before and hold every option but the TCP Fast
  Open ones (kind 34), in order and unchanged; without stripping they hold the same options. No option of
  the segment is an authentication option (kinds 19 and 29), and the scanner, run on what is left, rejects
  nothing and has nothing more to change. The options are read by \<open>option_list\<close>, which knows nothing of stripping.
\<close>
theorem strip_removes_fast_open:
  assumes "faithful_load K" and "writable_access K W"
    and "parse_packet K s iface ing = Inr p" and "k_protocol (p_key p) = 6"
    and "options K p strip (s, w) = (False, s', w')"
  shows "length (option_bytes p s') = length (option_bytes p s) \<and>
    option_list (option_bytes p s') =
      (if strip then filter (\<lambda>opt. hd opt \<noteq> 34) (option_list (option_bytes p s)) else option_list (option_bytes p s)) \<and>
    list_all (\<lambda>opt. hd opt \<noteq> 19 \<and> hd opt \<noteq> 29) (option_list (option_bytes p s)) \<and>
    os_rejected (bpf_loop 0 40 scan_option (scan_start ((!) (option_bytes p s')) (length (option_bytes p s')) strip)) = 0 \<and>
    \<not> os_changed (bpf_loop 0 40 scan_option (scan_start ((!) (option_bytes p s')) (length (option_bytes p s')) strip))"
proof -
  obtain r where r: "strip_options strip (option_bytes p s) = Inr r" "length r = length (option_bytes p s)"
    and data: "if r = option_bytes p s then sk_data s' = sk_data s
      else \<exists>c d. sk_data s' = blit (unat (p_l4 p) + 16) [c, d] (blit (unat (p_l4 p) + 20) r (sk_data s))"
    using options_effect [OF assms] by (simp only: if_False) blast
  note seg = parsed_tcp_segment [OF assms(1,3,4)]
  have s': "option_bytes p s' = r"
  proof (cases "r = option_bytes p s")
    case True
    with data show ?thesis by (simp add: option_bytes_def)
  next
    case False
    with data option_bytes_written [OF seg r(2)] show ?thesis by auto
  qed
  have "length (option_bytes p s) \<le> unat (p_hlen p) - 20" by (simp add: option_bytes_def)
  then have "length r \<le> 40" using r(2) seg unfolding tcp_segment_def by linarith
  from scan_settled [OF strip_idem [OF r(1)] this] strip_lists [OF r(1)] strip_unauthenticated [OF r(1)] r(2)
  show ?thesis by (simp only: s' simp_thms)
qed

text \<open>
  Property C12. Option rewriting is atomic: whenever \<open>options\<close> reports failure on a parsed TCP
  segment, whichever helper failed and also when the checksum update failed halfway, the bytes
  of the packet are those it started with.
\<close>
theorem options_atomic:
  assumes "faithful_load K" and "writable_access K W"
    and "parse_packet K s iface ing = Inr p" and "k_protocol (p_key p) = 6"
    and "options K p strip (s, w) = (True, s', w')"
  shows "sk_data s' = sk_data s"
  using options_effect [OF assms] by simp

text \<open>A kernel whose checksum helper writes two bytes and then fails or succeeds, as told.\<close>

definition csum_kern :: "bool \<Rightarrow> u64 kern" where
  "csum_kern e = list_kern\<lparr>l4_csum_replace := (\<lambda>s off a b fl. (e,
     if unat off + 2 \<le> length (sk_data s) then s\<lparr>sk_data := blit (unat off) [0, 0] (sk_data s)\<rparr> else s))\<rparr>"

lemma csum_kern_simps:
  "skb_load_bytes (csum_kern e) = skb_load_bytes list_kern" "skb_store_bytes (csum_kern e) = skb_store_bytes list_kern"
  "skb_pull_data (csum_kern e) = skb_pull_data list_kern" "loop_refused (csum_kern e) = False"
  "csum_diff (csum_kern e) = csum_diff list_kern"
  "l4_csum_replace (csum_kern e) s off a b fl = (e,
     if unat off + 2 \<le> length (sk_data s) then s\<lparr>sk_data := blit (unat off) [0, 0] (sk_data s)\<rparr> else s)"
  by (simp_all add: csum_kern_def list_kern_def)

lemma csum_kern_access: "faithful_load (csum_kern e)" "writable_access (csum_kern e) (\<lambda>s m. m \<le> length (sk_data s))"
  using list_kern_load list_kern_access
  by (auto simp: faithful_load_def writable_access_def csum_kern_simps same_but_data_def size_simps)

lemma bpf_loop_numeral:
  "bpf_loop i (numeral n) f c =
    (case f i c of (stop, c') \<Rightarrow> if stop then c' else bpf_loop (i + 1) (pred_numeral n) f c')"
  by (simp add: numeral_eq_Suc split: prod.split)

lemma sample_scan:
  "bpf_loop 0 40 scan_option (scan_start ((!) [34, 4, 9, 9, 2, 4, 5, 180]) 8 True) =
   \<lparr>os_old = [34, 4, 9, 9, 2, 4, 5, 180] @ replicate 32 0,
     os_replacement = [1, 1, 1, 1, 2, 4, 5, 180] @ replicate 32 0,
     os_n = 8, os_next = 8, os_nop_until = 4, os_strip = True, os_changed = True, os_rejected = 0\<rparr>"
  by (simp add: bpf_loop_numeral scan_option_def scan_start_def Let_def nth_append list_update_append
      bytes_of_def upt_rec)

lemma csum_nonneg: "\<not> sint (csum_diff list_kern xs ys seed) < 0"
proof -
  have "fold16 n < 9223372036854775808" for n
  proof -
    have "(n - 1) mod 65535 < 65535" by simp
    then have "(n - 1) mod 65535 + 1 < 9223372036854775808" by linarith
    then show ?thesis by (simp add: fold16_def)
  qed
  then have "sint (of_nat (fold16 n) :: u64) = int (fold16 n)" for n
    by (simp add: signed_of_nat) (intro signed_take_bit_int_eq_self; simp)
  then show ?thesis by (simp add: list_kern_def)
qed

lemma sample_verdict: "fst (options (csum_kern e) syn_parsed True (syn_packet, empty_world)) = e"
  by (simp add: options_def syn_parsed_def load_options_def csum_kern_simps list_kern_simps
      syn_packet_fields sample_scan write_options_def store_options_def csum_nonneg size_simps Let_def bytes16_def)

theorem options_atomic_witness:
  "case options (csum_kern True) syn_parsed True (syn_packet, empty_world) of
     (rejected, s', w') \<Rightarrow> rejected \<and> sk_data s' = sk_data syn_packet"
proof (cases "options (csum_kern True) syn_parsed True (syn_packet, empty_world)")
  case (fields rejected s' w')
  then have *: "options (csum_kern True) syn_parsed True (syn_packet, empty_world) = (True, s', w')"
    using sample_verdict [of True] by simp
  have "parse_packet (csum_kern True) syn_packet sample_interface False = Inr syn_parsed"
    by (rule parse_syn) (simp add: csum_kern_simps)
  from options_atomic [OF csum_kern_access this _ *] show ?thesis
    using * by (simp add: syn_parsed_def zero_key_def)
qed

text \<open>
  Property C18. When \<open>options\<close> accepts a parsed TCP segment, its option list is well formed and
  unauthenticated, and the packet afterwards is the packet before with the stripped list in
  place of the option list and, if that is a change, some value in the two checksum bytes:
  no other byte and no other field of the packet (checksum-offload state apart) changes.
\<close>
theorem options_exact:
  assumes "faithful_load K" and "writable_access K W"
    and "parse_packet K s iface ing = Inr p" and "k_protocol (p_key p) = 6"
    and "options K p strip (s, w) = (False, s', w')"
  shows "\<exists>r. strip_options strip (option_bytes p s) = Inr r \<and> same_but_data s s' \<and>
    (if r = option_bytes p s then sk_data s' = sk_data s
     else \<exists>c d. sk_data s' = blit (unat (p_l4 p) + 16) [c, d] (blit (unat (p_l4 p) + 20) r (sk_data s)))"
  using options_effect [OF assms] by (simp only: if_False) blast

theorem options_exact_witness:
  "case options (csum_kern False) syn_parsed True (syn_packet, empty_world) of
     (rejected, s', w') \<Rightarrow> \<not> rejected \<and> same_but_data syn_packet s'"
proof (cases "options (csum_kern False) syn_parsed True (syn_packet, empty_world)")
  case (fields rejected s' w')
  then have *: "options (csum_kern False) syn_parsed True (syn_packet, empty_world) = (False, s', w')"
    using sample_verdict [of False] by simp
  have "parse_packet (csum_kern False) syn_packet sample_interface False = Inr syn_parsed"
    by (rule parse_syn) (simp add: csum_kern_simps)
  from options_exact [OF csum_kern_access this _ *] show ?thesis
    using * by (auto simp: syn_parsed_def zero_key_def)
qed

theorem strip_removes_fast_open_witness:
  "case options (csum_kern False) syn_parsed True (syn_packet, empty_world) of
     (rejected, s', w') \<Rightarrow> \<not> rejected \<and> option_list (option_bytes syn_parsed syn_packet) = [[34, 4, 9, 9], [2, 4, 5, 180]] \<and>
       option_list (option_bytes syn_parsed s') = [[2, 4, 5, 180]]"
proof (cases "options (csum_kern False) syn_parsed True (syn_packet, empty_world)")
  case (fields rejected s' w')
  then have *: "options (csum_kern False) syn_parsed True (syn_packet, empty_world) = (False, s', w')"
    using sample_verdict [of False] by simp
  have p: "parse_packet (csum_kern False) syn_packet sample_interface False = Inr syn_parsed"
    by (rule parse_syn) (simp add: csum_kern_simps)
  have "option_bytes syn_parsed syn_packet = [34, 4, 9, 9, 2, 4, 5, 180]"
    by (simp add: option_bytes_def syn_parsed_def syn_packet_def)
  with strip_removes_fast_open [OF csum_kern_access p _ *] show ?thesis
    using * by (simp add: syn_parsed_def zero_key_def)
qed

end
