(* ===== verification/Tcp.thy ===== *)
theory Tcp
  imports TcpOptions
begin

text \<open>
  The second half of \<open>ebpf/bpf/tcp.h\<close>: \<open>next_rule\<close> pins a new connection to a payload rule,
  \<open>tcp_trigger\<close> follows the handshake of a connection and decides when a fake segment is due.
  The two sections that the code runs under the flow's spin lock are functions on the flow
  record, \<open>syn_update\<close> and \<open>handshake_update\<close>.
\<close>

section \<open>The payload rule of a connection\<close>

definition next_rule :: "ff_config \<Rightarrow> 'e world \<Rightarrow> u32 \<times> 'e world" where
  "next_rule c w =
     (if c_rule_count c = 0 then (0, w)
      else
        let i = (case m_rotation w 0 of None \<Rightarrow> 0 | Some n \<Rightarrow> ucast n) :: u32;
            w = (case m_rotation w 0 of None \<Rightarrow> w
                 | Some n \<Rightarrow> w\<lparr>m_rotation := (m_rotation w)(0 \<mapsto> n + 1)\<rparr>);
            rule = (if c_rule_count c = 1 then c_rule_map c ! 0
                    else if c_rule_count c = 2 then c_rule_map c ! unat (i AND 1)
                    else if i mod 3 = 0 then c_rule_map c ! 0
                    else if i mod 3 = 1 then c_rule_map c ! 1
                    else c_rule_map c ! 2)
        in (if FF_TCP_RULES_MAX \<le> rule then 0 else rule, w))"

section \<open>The locked sections\<close>

definition is_syn :: "packet \<Rightarrow> bool" where
  "is_syn p \<longleftrightarrow> p_flags p AND 0x17 = 2"

definition is_synack :: "packet \<Rightarrow> bool" where
  "is_synack p \<longleftrightarrow> p_flags p AND 0x17 = 0x12"

definition initial_flow :: "packet \<Rightarrow> bool \<Rightarrow> u64 \<Rightarrow> bool \<Rightarrow> u32 \<Rightarrow> ff_flow" where
  "initial_flow p ing now rejected rule = zero_flow\<lparr>
     f_syn_seq := p_seq p, f_syn_bytes := p_bytes p, f_active := \<not> ing, f_seen := now,
     f_remote_ttl := (if ing then ucast (p_ttl p) else 0), f_stopped := rejected, f_rule := rule\<rparr>"

text \<open>A SYN that starts the connection of this flow anew.\<close>

definition syn_restarts :: "packet \<Rightarrow> bool \<Rightarrow> u64 \<Rightarrow> ff_flow \<Rightarrow> bool" where
  "syn_restarts p ing now f \<longleftrightarrow>
     30 * FF_NS < now - f_seen f \<or> (f_syn_seq f \<noteq> p_seq p \<and> f_active f = (\<not> ing))"

definition syn_update :: "packet \<Rightarrow> bool \<Rightarrow> u64 \<Rightarrow> bool \<Rightarrow> ff_flow \<Rightarrow> ff_flow" where
  "syn_update p ing now rejected f =
     (let f = (if syn_restarts p ing now f
               then f\<lparr>f_syn_seq := p_seq p, f_syn_bytes := p_bytes p, f_active := \<not> ing,
                      f_stopped := False, f_batches := 0, f_emitted := 0\<rparr>
               else if f_active f \<noteq> (\<not> ing) then f\<lparr>f_stopped := True\<rparr> else f);
          f = (if f_syn_seq f = p_seq p \<and> f_syn_bytes f < p_bytes p
               then f\<lparr>f_syn_bytes := p_bytes p\<rparr> else f);
          f = (if rejected then f\<lparr>f_stopped := True\<rparr> else f);
          f = f\<lparr>f_seen := now\<rparr>
      in if ing then f\<lparr>f_remote_ttl := ucast (p_ttl p)\<rparr> else f)"

text \<open>The acknowledgement number answers the recorded SYN, with or without its data.\<close>

definition acks_syn :: "packet \<Rightarrow> ff_flow \<Rightarrow> bool" where
  "acks_syn p f \<longleftrightarrow> p_ack p = f_syn_seq f + 1 \<or> p_ack p = f_syn_seq f + 1 + f_syn_bytes f"

text \<open>\<open>Some (ttl, rule)\<close> is \<open>emit\<close> set together with the two result parameters.\<close>

definition handshake_update ::
  "packet \<Rightarrow> ff_config \<Rightarrow> bool \<Rightarrow> u64 \<Rightarrow> bool \<Rightarrow> ff_flow \<Rightarrow> (u32 \<times> u32) option \<times> ff_flow" where
  "handshake_update p c ing now reject f =
     (let f = (if 30 * FF_NS < now - f_seen f then f\<lparr>f_stopped := True\<rparr> else f);
          f = f\<lparr>f_seen := now\<rparr>;
          f = (if \<not> is_synack p \<or> reject then f\<lparr>f_stopped := True\<rparr> else f)
      in if is_synack p \<and> f_active f = ing \<and> \<not> f_stopped f \<and>
            c_directions c AND (if f_active f then 1 else 2) \<noteq> 0 \<and> acks_syn p f \<and>
            f_batches f < c_tcp_batches c \<and>
            (f_batches f = 0 \<or> 200000000 \<le> now - f_emitted f)
         then (Some (if ing then ucast (p_ttl p) else f_remote_ttl f,
                     if FF_TCP_RULES_MAX \<le> f_rule f then 0 else f_rule f),
               f\<lparr>f_batches := f_batches f + 1, f_emitted := now\<rparr>)
         else (None, f))"

section \<open>The trigger\<close>

definition put_tcp :: "ff_key \<Rightarrow> ff_flow \<Rightarrow> 'e world \<Rightarrow> 'e world" where
  "put_tcp k f w = w\<lparr>m_tcp_flows := (m_tcp_flows w)(k \<mapsto> f)\<rparr>"

text \<open>
  A SYN of a flow that is not in the table yet: the flow that is then to be updated, which
  exists when another CPU has inserted it in between.
\<close>

definition create_flow ::
  "'e kern \<Rightarrow> packet \<Rightarrow> ff_config \<Rightarrow> bool \<Rightarrow> u64 \<Rightarrow> bool \<Rightarrow> 'e world \<Rightarrow> ff_flow option \<times> 'e world" where
  "create_flow K p c ing now rejected w =
     (case next_rule c w of (rule, w) \<Rightarrow>
      case flow_insert K (p_key p) (initial_flow p ing now rejected rule) (m_tcp_flows w) of (err, m) \<Rightarrow>
      let w = w\<lparr>m_tcp_flows := m\<rparr> in
      if \<not> err then (None, w)
      else case m (p_key p) of
        None \<Rightarrow> (None, stat FF_MAP_FAILED w)
      | Some f \<Rightarrow> (Some f, w))"

definition tcp_syn ::
  "'e kern \<Rightarrow> packet \<Rightarrow> ff_config \<Rightarrow> bool \<Rightarrow> u64 \<Rightarrow> skb \<times> 'e world \<Rightarrow> skb \<times> 'e world" where
  "tcp_syn K p c ing now = (\<lambda>(s, w).
     if c_directions c AND (if ing then 2 else 1) = 0 then (s, w)
     else case options K p (c_strip_tfo c \<noteq> 0) (s, stat FF_TCP_SYN w) of (rejected, s, w') \<Rightarrow>
       (case (case m_tcp_flows w (p_key p) of
                Some f \<Rightarrow> (Some f, w')
              | None \<Rightarrow> create_flow K p c ing now rejected w') of
          (None, w) \<Rightarrow> (s, w)
        | (Some f, w) \<Rightarrow> (s, put_tcp (p_key p) (syn_update p ing now rejected f) w)))"

definition tcp_segment_seen ::
  "'e kern \<Rightarrow> packet \<Rightarrow> ff_config \<Rightarrow> bool \<Rightarrow> u64 \<Rightarrow> ff_flow \<Rightarrow> skb \<times> 'e world \<Rightarrow>
     (u32 \<times> u32) option \<times> skb \<times> 'e world" where
  "tcp_segment_seen K p c ing now f = (\<lambda>(s, w).
     case (if is_synack p
           then if p_bytes p \<noteq> 0 then (True, s, stat FF_SKIP_SYNACK_DATA w)
                else options K p False (s, w)
           else (False, s, w)) of (reject, s, w) \<Rightarrow>
     case handshake_update p c ing now reject f of (out, f) \<Rightarrow>
       (out, s, if out = None then put_tcp (p_key p) f w else stat FF_TCP_ELIGIBLE (put_tcp (p_key p) f w)))"

definition tcp_trigger ::
  "'e kern \<Rightarrow> packet \<Rightarrow> ff_config \<Rightarrow> bool \<Rightarrow> u64 \<Rightarrow> skb \<times> 'e world \<Rightarrow>
     (u32 \<times> u32) option \<times> skb \<times> 'e world" where
  "tcp_trigger K p c ing now = (\<lambda>(s, w).
     case flow_lock (p_key p) w of
       None \<Rightarrow> (None, s, w)
     | Some _ \<Rightarrow>
         if is_syn p then (None, tcp_syn K p c ing now (s, w))
         else case m_tcp_flows w (p_key p) of
           None \<Rightarrow> (None, s, w)
         | Some f \<Rightarrow> tcp_segment_seen K p c ing now f (s, w))"

section \<open>A flow as a bounded emitter\<close>

text \<open>
  One segment of a known flow: the packet, its direction, the time, and whether its options
  were refused. This is what \<open>tcp_trigger\<close> does to the flow's entry of the table.
\<close>

type_synonym tcp_event = "packet \<times> bool \<times> u64 \<times> bool"

text \<open>An output is the time, the remote TTL and the payload rule.\<close>

type_synonym tcp_output = "u64 \<times> u32 \<times> u32"

definition tcp_flow_step :: "ff_config \<Rightarrow> tcp_event \<Rightarrow> ff_flow \<Rightarrow> tcp_output option \<times> ff_flow" where
  "tcp_flow_step c = (\<lambda>(p, ing, now, rejected) f.
     if is_syn p then
       (None, if c_directions c AND (if ing then 2 else 1) = 0 then f else syn_update p ing now rejected f)
     else map_prod (map_option (Pair now)) id
       (handshake_update p c ing now (is_synack p \<and> (p_bytes p \<noteq> 0 \<or> rejected)) f))"

definition tcp_restarts :: "ff_config \<Rightarrow> tcp_event \<Rightarrow> ff_flow \<Rightarrow> bool" where
  "tcp_restarts c = (\<lambda>(p, ing, now, rejected) f.
     is_syn p \<and> c_directions c AND (if ing then 2 else 1) \<noteq> 0 \<and> syn_restarts p ing now f)"

definition tcp_latest :: "ff_flow \<Rightarrow> u64 option" where
  "tcp_latest f = (if f_batches f = 0 then None else Some (f_emitted f))"

definition tcp_left :: "ff_config \<Rightarrow> ff_flow \<Rightarrow> nat" where
  "tcp_left c f = (if f_stopped f then 0 else unat (c_tcp_batches c) - unat (f_batches f))"

lemma syn_update_simps:
  "\<not> syn_restarts p ing now f \<Longrightarrow> f_batches (syn_update p ing now rej f) = f_batches f"
  "\<not> syn_restarts p ing now f \<Longrightarrow> f_stopped f \<Longrightarrow> f_stopped (syn_update p ing now rej f)"
  "\<not> syn_restarts p ing now f \<Longrightarrow> f_emitted (syn_update p ing now rej f) = f_emitted f"
  "f_rule (syn_update p ing now rej f) = f_rule f" "f_seen (syn_update p ing now rej f) = now"
  by (simp_all add: syn_update_def Let_def)

lemma handshake_cases:
  assumes "handshake_update p c ing now reject f = (out, f')"
  obtains (emit) "out = Some (if ing then ucast (p_ttl p) else f_remote_ttl f,
        if FF_TCP_RULES_MAX \<le> f_rule f then 0 else f_rule f)"
      "f' = f\<lparr>f_seen := now, f_batches := f_batches f + 1, f_emitted := now\<rparr>"
      "is_synack p" "\<not> reject" "f_active f = ing" "\<not> f_stopped f" "now - f_seen f \<le> 30 * FF_NS"
      "c_directions c AND (if ing then 1 else 2) \<noteq> 0" "acks_syn p f"
      "f_batches f < c_tcp_batches c" "f_batches f = 0 \<or> 200000000 \<le> now - f_emitted f"
  | (quiet) "out = None"
      "f' = f\<lparr>f_seen := now, f_stopped := f_stopped f \<or> 30 * FF_NS < now - f_seen f \<or> \<not> is_synack p \<or> reject\<rparr>"
proof (cases "is_synack p \<and> \<not> reject \<and> f_active f = ing \<and> \<not> f_stopped f \<and> now - f_seen f \<le> 30 * FF_NS \<and>
      c_directions c AND (if f_active f then 1 else 2) \<noteq> 0 \<and> acks_syn p f \<and>
      f_batches f < c_tcp_batches c \<and> (f_batches f = 0 \<or> 200000000 \<le> now - f_emitted f)")
  case True
  then show ?thesis
    using assms by (intro emit) (auto simp: handshake_update_def acks_syn_def Let_def split: if_splits)
next
  case False
  then have "out = None \<and> f' = f\<lparr>f_seen := now, f_stopped := f_stopped f \<or> 30 * FF_NS < now - f_seen f \<or> \<not> is_synack p \<or> reject\<rparr>"
    using assms by (auto simp: handshake_update_def acks_syn_def Let_def not_le split: if_splits)
  then show ?thesis by (intro quiet) simp_all
qed

lemma unat_Suc_word: "b < (m :: 'a::len word) \<Longrightarrow> unat (b + 1) = Suc (unat b)"
proof -
  assume "b < m"
  then have "unat b + unat (1 :: 'a word) \<le> unat m"
    by (simp add: word_less_nat_alt)
  then have "unat b + unat (1 :: 'a word) < 2 ^ LENGTH('a)"
    by (rule order_le_less_trans) (rule unsigned_less)
  from unat_add_small [OF this] show ?thesis by simp
qed

lemma tcp_flow_step_cases:
  assumes no: "\<not> tcp_restarts c (p, ing, now, rej) f"
    and step: "tcp_flow_step c (p, ing, now, rej) f = (out, f')"
  obtains (emit) ttl rule where "out = Some (now, ttl, rule)" "tcp_left c f' < tcp_left c f"
      "tcp_latest f' = Some now" "\<forall>t. tcp_latest f = Some t \<longrightarrow> 200000000 \<le> now - t"
  | (quiet) "out = None" "tcp_left c f' \<le> tcp_left c f" "tcp_latest f' = tcp_latest f"
proof (cases "is_syn p")
  case True
  then have o: "out = None" and "f' = f \<or> f' = syn_update p ing now rej f \<and> \<not> syn_restarts p ing now f"
    using step no by (auto simp: tcp_flow_step_def tcp_restarts_def split: if_splits)
  then have "tcp_left c f' \<le> tcp_left c f" "tcp_latest f' = tcp_latest f"
    by (auto simp: tcp_left_def tcp_latest_def syn_update_simps)
  with o show ?thesis by (rule quiet)
next
  case False
  define reject where "reject = (is_synack p \<and> (p_bytes p \<noteq> 0 \<or> rej))"
  obtain o1 where hs: "handshake_update p c ing now reject f = (o1, f')" and o: "out = map_option (Pair now) o1"
    using step False by (cases "handshake_update p c ing now reject f") (simp add: tcp_flow_step_def reject_def)
  from hs show ?thesis
  proof (cases rule: handshake_cases)
    case emit1: emit
    have "unat (f_batches f + 1) = Suc (unat (f_batches f))" using emit1(10) by (rule unat_Suc_word)
    then have "f_batches f + 1 \<noteq> 0" by (metis unat_0 nat.distinct(1))
    with emit1 o show ?thesis
      by (intro emit) (auto simp: tcp_left_def tcp_latest_def unat_Suc_word word_less_nat_alt)
  next
    case quiet1: quiet
    with o show ?thesis by (intro quiet) (simp_all add: tcp_left_def tcp_latest_def)
  qed
qed

interpretation tcp_flow: paced "tcp_flow_step c" "tcp_left c" "tcp_restarts c" fst tcp_latest 200000000 for c
proof
  fix e f x f'
  assume no: "\<not> tcp_restarts c e f"
  obtain p ing now rej where e: "e = (p, ing, now, rej)" by (metis prod_cases4)
  note cases = tcp_flow_step_cases [OF no [unfolded e]]
  show "tcp_left c f' < tcp_left c f" if "tcp_flow_step c e f = (Some x, f')"
    using that unfolding e by (cases rule: cases) auto
  show "tcp_left c f' \<le> tcp_left c f" if "tcp_flow_step c e f = (None, f')"
    using that unfolding e by (cases rule: cases) auto
  show "tcp_latest f' = Some (fst x) \<and> (\<forall>t. tcp_latest f = Some t \<longrightarrow> 200000000 \<le> fst x - t)"
    if "tcp_flow_step c e f = (Some x, f')"
    using that unfolding e by (cases rule: cases) auto
  show "tcp_latest f' = tcp_latest f \<or> tcp_left c f' = 0" if "tcp_flow_step c e f = (None, f')"
    using that unfolding e by (cases rule: cases) auto
qed

section \<open>The trigger works on one entry\<close>

lemma options_world: "options K p strip (s, w) = (rej, s', w') \<Longrightarrow> w' = w \<or> (\<exists>i. w' = stat i w)"
  by (auto simp: options_def write_options_def Let_def split: if_splits option.splits prod.splits)

lemma tcp_trigger_present:
  assumes lock: "flow_lock (p_key p) w \<noteq> None" and flow: "m_tcp_flows w (p_key p) = Some f"
    and run: "tcp_trigger K p c ing now (s, w) = (out, s', w')"
  obtains rej f' where "tcp_flow_step c (p, ing, now, rej) f = (map_option (Pair now) out, f')"
    and "m_tcp_flows w' = (m_tcp_flows w)(p_key p \<mapsto> f')"
proof (cases "is_syn p")
  case syn: True
  show ?thesis
  proof (cases "c_directions c AND (if ing then 2 else 1) = 0")
    case True
    then show ?thesis
      using syn lock flow run
      by (intro that [of False f]) (auto simp: tcp_trigger_def tcp_flow_step_def tcp_syn_def fun_upd_idem)
  next
    case False
    obtain rej s1 w1 where opt: "options K p (c_strip_tfo c \<noteq> 0) (s, stat FF_TCP_SYN w) = (rej, s1, w1)"
      by (metis prod_cases3)
    have "m_tcp_flows w1 = m_tcp_flows w" using options_world [OF opt] by auto
    then show ?thesis
      using syn False lock flow run opt
      by (intro that [of rej "syn_update p ing now rej f"])
        (auto simp: tcp_trigger_def tcp_flow_step_def tcp_syn_def put_tcp_def)
  qed
next
  case nosyn: False
  obtain rej s1 w1 where opt: "(if is_synack p
           then if p_bytes p \<noteq> 0 then (True, s, stat FF_SKIP_SYNACK_DATA w)
                else options K p False (s, w)
           else (False, s, w)) = (rej, s1, w1)"
    by (metis prod_cases3)
  have flows: "m_tcp_flows w1 = m_tcp_flows w"
    using opt options_world [of K p False s w rej s1 w1] by (auto split: if_splits)
  have rej: "(is_synack p \<and> (p_bytes p \<noteq> 0 \<or> rej)) = rej" using opt by (auto split: if_splits)
  obtain out' f' where hs: "handshake_update p c ing now rej f = (out', f')" by fastforce
  have "tcp_segment_seen K p c ing now f (s, w) = (out', s1,
      if out' = None then put_tcp (p_key p) f' w1 else stat FF_TCP_ELIGIBLE (put_tcp (p_key p) f' w1))"
    by (simp add: tcp_segment_seen_def opt hs)
  then show ?thesis
    using nosyn lock flow run hs flows rej
    by (intro that [of rej f']) (auto simp: tcp_trigger_def tcp_flow_step_def put_tcp_def split: if_splits)
qed

text \<open>Entries of other flows are kept, or evicted by the table.\<close>

lemma put_tcp_other: "k \<noteq> k' \<Longrightarrow> m_tcp_flows (put_tcp k' f w) k = m_tcp_flows w k"
  by (simp add: put_tcp_def)

lemma next_rule_flows [simp]: "m_tcp_flows (snd (next_rule c w)) = m_tcp_flows w"
  by (simp add: next_rule_def Let_def split: option.split)

lemma create_flow_other:
  assumes K: "insert_noexist (flow_insert K)" and "k \<noteq> p_key p"
  shows "m_tcp_flows (snd (create_flow K p c ing now rej w)) k = m_tcp_flows w k \<or>
    m_tcp_flows (snd (create_flow K p c ing now rej w)) k = None"
proof -
  obtain rule w1 where nr: "next_rule c w = (rule, w1)" by fastforce
  obtain e m where ins: "flow_insert K (p_key p) (initial_flow p ing now rej rule) (m_tcp_flows w1) = (e, m)"
    by fastforce
  have "m_tcp_flows w1 = m_tcp_flows w" using next_rule_flows [of c w] by (simp add: nr)
  moreover have "m k = m_tcp_flows w1 k \<or> m k = None"
    using assms(2) by (rule insert_noexistD(3) [OF K ins])
  moreover have "m_tcp_flows (snd (create_flow K p c ing now rej w)) = m"
    by (simp add: create_flow_def nr ins Let_def split: option.split)
  ultimately show ?thesis by simp
qed

lemma tcp_trigger_new:
  assumes none: "m_tcp_flows w (p_key p) = None"
    and run: "tcp_trigger K p c ing now (s, w) = (out, s', w')"
  obtains (ignored) "out = None" "w' = w"
  | (created) rej w1 r w2 where "out = None" "m_tcp_flows w1 = m_tcp_flows w"
      "create_flow K p c ing now rej w1 = (r, w2)"
      "w' = (case r of None \<Rightarrow> w2 | Some f \<Rightarrow> put_tcp (p_key p) (syn_update p ing now rej f) w2)"
      "is_syn p" "c_directions c AND (if ing then 2 else 1) \<noteq> 0"
proof (cases "flow_lock (p_key p) w = None \<or> \<not> is_syn p \<or> c_directions c AND (if ing then 2 else 1) = 0")
  case True
  then have "tcp_trigger K p c ing now (s, w) = (None, s, w)"
    by (cases "flow_lock (p_key p) w"; cases "is_syn p")
      (simp_all add: tcp_trigger_def tcp_syn_def none)
  with run have "out = None \<and> w' = w" by simp
  then show ?thesis by (intro ignored) simp_all
next
  case False
  then obtain l where l: "flow_lock (p_key p) w = Some l" and syn: "is_syn p"
    and dir: "c_directions c AND (if ing then 2 else 1) \<noteq> 0" by auto
  obtain rej s1 w1 where opt: "options K p (c_strip_tfo c \<noteq> 0) (s, stat FF_TCP_SYN w) = (rej, s1, w1)"
    by (metis prod_cases3)
  have same: "m_tcp_flows w1 = m_tcp_flows w" using options_world [OF opt] by auto
  obtain r w2 where cf: "create_flow K p c ing now rej w1 = (r, w2)" by fastforce
  have "tcp_syn K p c ing now (s, w) =
      (s1, case r of None \<Rightarrow> w2 | Some f \<Rightarrow> put_tcp (p_key p) (syn_update p ing now rej f) w2)"
    using dir by (simp add: tcp_syn_def opt none cf split: option.split)
  then have "out = None \<and> w' = (case r of None \<Rightarrow> w2 | Some f \<Rightarrow> put_tcp (p_key p) (syn_update p ing now rej f) w2)"
    using run l syn by (simp add: tcp_trigger_def)
  then show ?thesis by (intro created [OF _ same cf _ syn dir]) simp_all
qed

lemma tcp_trigger_other:
  assumes K: "insert_noexist (flow_insert K)" and k: "k \<noteq> p_key p"
    and run: "tcp_trigger K p c ing now (s, w) = (out, s', w')"
  shows "m_tcp_flows w' k = m_tcp_flows w k \<or> m_tcp_flows w' k = None"
proof (cases "m_tcp_flows w (p_key p)")
  case (Some f)
  show ?thesis
  proof (cases "flow_lock (p_key p) w = None")
    case True
    with run show ?thesis by (simp add: tcp_trigger_def)
  next
    case False
    from tcp_trigger_present [OF this Some run] k show ?thesis by (metis fun_upd_apply)
  qed
next
  case None
  from None run show ?thesis
  proof (cases rule: tcp_trigger_new)
    case (created rej w1 r w2)
    have "m_tcp_flows w2 k = m_tcp_flows w k \<or> m_tcp_flows w2 k = None"
      using create_flow_other [OF K k, of c ing now rej w1] created(2,3) by simp
    with created(4) k show ?thesis by (cases r) (simp_all add: put_tcp_other)
  qed simp
qed

lemma tcp_trigger_absent:
  assumes "m_tcp_flows w (p_key p) = None" and "tcp_trigger K p c ing now (s, w) = (out, s', w')"
  shows "out = None"
    and "\<not> (is_syn p \<and> c_directions c AND (if ing then 2 else 1) \<noteq> 0) \<Longrightarrow> w' = w"
  by (rule tcp_trigger_new [OF assms]; simp)+

section \<open>Runs of the trigger\<close>

text \<open>
  A run of the trigger over packets of any flows, watched at one key. A step counts as an
  output when it emits for that key; it restarts the key when it is a SYN that creates the
  flow or starts its connection anew.
\<close>

type_synonym tcp_input = "skb \<times> packet \<times> bool \<times> u64"

definition tcp_step :: "'e kern \<Rightarrow> ff_config \<Rightarrow> ff_key \<Rightarrow> tcp_input \<Rightarrow> 'e world \<Rightarrow> tcp_output option \<times> 'e world" where
  "tcp_step K c k = (\<lambda>(s, p, ing, now) w.
     case tcp_trigger K p c ing now (s, w) of (out, s', w') \<Rightarrow>
       (if p_key p = k then map_option (Pair now) out else None, w'))"

definition tcp_step_restarts :: "ff_config \<Rightarrow> ff_key \<Rightarrow> tcp_input \<Rightarrow> 'e world \<Rightarrow> bool" where
  "tcp_step_restarts c k = (\<lambda>(s, p, ing, now) w.
     p_key p = k \<and> is_syn p \<and> c_directions c AND (if ing then 2 else 1) \<noteq> 0 \<and>
     (case m_tcp_flows w k of None \<Rightarrow> True | Some f \<Rightarrow> syn_restarts p ing now f))"

definition tcp_step_left :: "ff_config \<Rightarrow> ff_key \<Rightarrow> 'e world \<Rightarrow> nat" where
  "tcp_step_left c k w = (case m_tcp_flows w k of None \<Rightarrow> 0 | Some f \<Rightarrow> tcp_left c f)"

definition tcp_step_latest :: "ff_key \<Rightarrow> 'e world \<Rightarrow> u64 option" where
  "tcp_step_latest k w = Option.bind (m_tcp_flows w k) tcp_latest"

text \<open>A step that does not restart the key is a step of its flow, or loses the flow, or leaves it alone.\<close>

lemma tcp_step_cases:
  assumes K: "insert_noexist (flow_insert K)" and no: "\<not> tcp_step_restarts c k i w"
    and st: "tcp_step K c k i w = (out, w')"
  obtains (flow) e f f' where "m_tcp_flows w k = Some f" "m_tcp_flows w' k = Some f'"
      "\<not> tcp_restarts c e f" "tcp_flow_step c e f = (out, f')"
  | (lost) "out = None" "m_tcp_flows w' k = None"
  | (same) "out = None" "m_tcp_flows w' k = m_tcp_flows w k"
proof -
  obtain s p ing now where i: "i = (s, p, ing, now)" by (metis prod_cases4)
  obtain out' s' where run: "tcp_trigger K p c ing now (s, w) = (out', s', w')"
    and out: "out = (if p_key p = k then map_option (Pair now) out' else None)"
    using st by (auto simp: tcp_step_def i split: prod.splits)
  show ?thesis
  proof (cases "p_key p = k")
    case False
    with tcp_trigger_other [OF K _ run, of k] out lost same show ?thesis by auto
  next
    case k: True
    show ?thesis
    proof (cases "m_tcp_flows w k")
      case None
      with tcp_trigger_absent [of w p K c ing now s out' s' w'] run k no out show ?thesis
        by (intro same) (auto simp: tcp_step_restarts_def i)
    next
      case (Some f)
      show ?thesis
      proof (cases "flow_lock (p_key p) w = None")
        case True
        with run out show ?thesis by (intro same) (simp_all add: tcp_trigger_def)
      next
        case False
        obtain rej f' where "tcp_flow_step c (p, ing, now, rej) f = (map_option (Pair now) out', f')"
          and "m_tcp_flows w' = (m_tcp_flows w)(p_key p \<mapsto> f')"
          using tcp_trigger_present [OF False _ run] Some k by metis
        moreover have "\<not> tcp_restarts c (p, ing, now, rej) f"
          using no Some k by (auto simp: tcp_step_restarts_def tcp_restarts_def i)
        ultimately show ?thesis using Some k out by (intro flow [of f f']) simp_all
      qed
    qed
  qed
qed

lemma tcp_step_paced:
  fixes K :: "'e kern"
  assumes K: "insert_noexist (flow_insert K)"
  shows "paced (tcp_step K c k) (tcp_step_left c k) (tcp_step_restarts c k) fst (tcp_step_latest k) 200000000"
proof
  fix i x and w w' :: "'e world"
  assume no: "\<not> tcp_step_restarts c k i w"
  note cases = tcp_step_cases [OF K no]
  show "tcp_step_left c k w' < tcp_step_left c k w" if "tcp_step K c k i w = (Some x, w')"
    using that by (cases rule: cases) (auto simp: tcp_step_left_def dest: tcp_flow.spends)
  show "tcp_step_left c k w' \<le> tcp_step_left c k w" if "tcp_step K c k i w = (None, w')"
    using that by (cases rule: cases) (auto simp: tcp_step_left_def dest: tcp_flow.keeps)
  show "tcp_step_latest k w' = Some (fst x) \<and> (\<forall>t. tcp_step_latest k w = Some t \<longrightarrow> 200000000 \<le> fst x - t)"
    if "tcp_step K c k i w = (Some x, w')"
    using that by (cases rule: cases) (auto simp: tcp_step_latest_def dest: tcp_flow.stamps)
  show "tcp_step_latest k w' = tcp_step_latest k w \<or> tcp_step_left c k w' = 0" if "tcp_step K c k i w = (None, w')"
    using that by (cases rule: cases) (auto simp: tcp_step_latest_def tcp_step_left_def dest: tcp_flow.holds)
qed

section \<open>A worked example\<close>

text \<open>The flow that the sample SYN creates, and the answer to it.\<close>

definition sample_flow :: ff_flow where
  "sample_flow = initial_flow syn_parsed False 500 False 1"

definition flow_world :: "u64 world" where
  "flow_world = put_tcp (p_key syn_parsed) sample_flow sample_world"

definition synack_parsed :: packet where
  "synack_parsed = syn_parsed\<lparr>p_flags := 0x12, p_hlen := 20, p_seq := 70, p_ack := 8, p_ttl := 52\<rparr>"

lemma synack_fields:
  "p_key synack_parsed = p_key syn_parsed" "is_synack synack_parsed" "\<not> is_syn synack_parsed"
  "p_bytes synack_parsed = 0" "p_ttl synack_parsed = 52" "p_ack synack_parsed = 8" "p_hlen synack_parsed = 20"
  by (simp_all add: synack_parsed_def is_synack_def is_syn_def syn_parsed_def zero_packet_def)

lemma sample_flow_fields:
  "f_rule sample_flow = 1" "f_syn_seq sample_flow = 7" "f_syn_bytes sample_flow = 0" "f_active sample_flow"
  "\<not> f_stopped sample_flow" "f_batches sample_flow = 0" "f_seen sample_flow = 500" "f_emitted sample_flow = 0"
  by (simp_all add: sample_flow_def initial_flow_def zero_flow_def syn_parsed_def zero_packet_def)

lemma flow_lock_put [simp]: "flow_lock k (put_tcp k' f w) = flow_lock k w"
  by (simp add: flow_lock_def put_tcp_def)

lemma put_tcp_same [simp]: "m_tcp_flows (put_tcp k f w) k = Some f"
  by (simp add: put_tcp_def)

lemma sample_lock: "flow_lock (p_key syn_parsed) flow_world \<noteq> None"
  by (simp add: flow_world_def) (simp add: flow_lock_def sample_world_def syn_parsed_def zero_packet_def zero_key_def)

lemma options_none: "p_hlen p = 20 \<Longrightarrow> options K p strip (s, w) = (False, s, w)"
  by (simp add: options_def)

lemma sample_answer:
  assumes "flow_lock (p_key syn_parsed) w \<noteq> None" and "m_tcp_flows w (p_key syn_parsed) = Some f"
  shows "tcp_trigger list_kern synack_parsed sample_config True now (syn_packet, w) =
    (case handshake_update synack_parsed sample_config True now False f of (out, f) \<Rightarrow>
      (out, syn_packet, if out = None then put_tcp (p_key syn_parsed) f w
         else stat FF_TCP_ELIGIBLE (put_tcp (p_key syn_parsed) f w)))"
  using assms by (auto simp: tcp_trigger_def tcp_segment_seen_def synack_fields options_none split: prod.split)

lemma sample_config_fields:
  "c_directions sample_config = 3" "c_tcp_batches sample_config = 2" "c_strip_tfo sample_config = 1"
  "c_rule_count sample_config = 3" "c_rule_map sample_config = [0, 1, 2]" "c_generation sample_config = 5"
  by (simp_all add: sample_config_def)

lemma sample_step1: "handshake_update synack_parsed sample_config True 1000 False sample_flow =
   (Some (52, 1), sample_flow\<lparr>f_seen := 1000, f_batches := 1, f_emitted := 1000\<rparr>)"
  by (simp add: handshake_update_def synack_fields sample_flow_fields sample_config_fields acks_syn_def Let_def
      word_le_nat_alt word_less_nat_alt)

lemma sample_step2: "handshake_update synack_parsed sample_config True 250001000 False
    (sample_flow\<lparr>f_seen := 1000, f_batches := 1, f_emitted := 1000\<rparr>) =
   (Some (52, 1), sample_flow\<lparr>f_seen := 250001000, f_batches := 2, f_emitted := 250001000\<rparr>)"
  by (simp add: handshake_update_def synack_fields sample_flow_fields sample_config_fields acks_syn_def Let_def
      word_le_nat_alt word_less_nat_alt)

definition sample_run :: "tcp_input list" where
  "sample_run = [(syn_packet, synack_parsed, True, 1000), (syn_packet, synack_parsed, True, 250001000)]"

lemma sample_never:
  "never (tcp_step_restarts sample_config (p_key syn_parsed)) (tcp_step list_kern sample_config (p_key syn_parsed))
     sample_run flow_world"
  by (simp add: sample_run_def tcp_step_restarts_def synack_fields)

lemma sample_trigger:
  "tcp_trigger list_kern synack_parsed sample_config True 1000 (syn_packet, flow_world) =
    (Some (52, 1), syn_packet, stat FF_TCP_ELIGIBLE (put_tcp (p_key syn_parsed)
      (sample_flow\<lparr>f_seen := 1000, f_batches := 1, f_emitted := 1000\<rparr>) flow_world))"
  using sample_answer [OF sample_lock, of sample_flow 1000] by (simp add: sample_step1 flow_world_def)

lemma sample_outputs:
  "outputs (tcp_step list_kern sample_config (p_key syn_parsed)) sample_run flow_world = [(1000, 52, 1), (250001000, 52, 1)]"
proof -
  let ?w = "stat FF_TCP_ELIGIBLE (put_tcp (p_key syn_parsed)
      (sample_flow\<lparr>f_seen := 1000, f_batches := 1, f_emitted := 1000\<rparr>) flow_world)"
  have "tcp_trigger list_kern synack_parsed sample_config True 250001000 (syn_packet, ?w) =
    (Some (52, 1), syn_packet, stat FF_TCP_ELIGIBLE (put_tcp (p_key syn_parsed)
      (sample_flow\<lparr>f_seen := 250001000, f_batches := 2, f_emitted := 250001000\<rparr>) ?w))"
    using sample_answer [of ?w "sample_flow\<lparr>f_seen := 1000, f_batches := 1, f_emitted := 1000\<rparr>" 250001000] sample_lock
    by (simp add: sample_step2)
  then show ?thesis by (simp add: sample_run_def tcp_step_def sample_trigger synack_fields)
qed

section \<open>Properties\<close>

text \<open>
  Property C19. A connection never triggers more often than \<open>tcp_batches\<close> allows: over any run of
  the trigger, with packets of other flows interleaved and entries evicted from the table, the
  number of times it emits for one key, while no SYN of that key restarts the connection, is
  at most the configured quota (and at most what the stored flow has left of it).
\<close>
theorem tcp_quota:
  assumes "insert_noexist (flow_insert K)"
    and "never (tcp_step_restarts c k) (tcp_step K c k) evs w"
  shows "length (outputs (tcp_step K c k) evs w) \<le>
    (case m_tcp_flows w k of None \<Rightarrow> 0
     | Some f \<Rightarrow> if f_stopped f then 0 else unat (c_tcp_batches c) - unat (f_batches f))"
  using quota.bounded [OF paced.axioms(1) [OF tcp_step_paced [OF assms(1)]] assms(2)]
  by (cases "m_tcp_flows w k") (simp_all add: tcp_step_left_def tcp_left_def)

theorem tcp_quota_witness:
  "insert_noexist (flow_insert list_kern) \<and>
   length (outputs (tcp_step list_kern sample_config (p_key syn_parsed)) sample_run flow_world) \<le> 2 \<and>
   outputs (tcp_step list_kern sample_config (p_key syn_parsed)) sample_run flow_world \<noteq> []"
proof -
  have ins: "insert_noexist (flow_insert list_kern)" by (simp add: list_kern_simps)
  from tcp_quota [OF ins sample_never] show ?thesis
    by (simp add: ins sample_outputs)
qed

text \<open>
  Property C20. Two triggers of one connection are at least 200 ms apart (difference of the 64-bit
  clock values), over any run as above in which no SYN restarts the connection.
\<close>
theorem tcp_spacing:
  assumes "insert_noexist (flow_insert K)"
    and "never (tcp_step_restarts c k) (tcp_step K c k) evs w"
  shows "successively (\<lambda>x y. 200000000 \<le> fst y - fst x) (outputs (tcp_step K c k) evs w)"
  using paced.spaced [OF tcp_step_paced [OF assms(1)] assms(2)] by simp

theorem tcp_spacing_witness:
  "successively (\<lambda>x y. 200000000 \<le> fst y - fst x)
     (outputs (tcp_step list_kern sample_config (p_key syn_parsed)) sample_run flow_world) \<and>
   length (outputs (tcp_step list_kern sample_config (p_key syn_parsed)) sample_run flow_world) = 2"
proof -
  have ins: "insert_noexist (flow_insert list_kern)" by (simp add: list_kern_simps)
  from tcp_spacing [OF ins sample_never] show ?thesis by (simp add: sample_outputs)
qed

text \<open>
  Property C11. The trigger fires only on the answer to a recorded SYN: an inbound or outbound
  SYN-ACK without payload and with acceptable options, against the direction of the SYN, whose
  direction is enabled, acknowledging the SYN (with or without its data), on a flow that has not
  been stopped, was seen in the last 30 s and has quota left; it then reports the flow's pinned
  rule, bounded to the three plans, and the last TTL of the remote side.
\<close>
theorem tcp_fires_on_answer:
  assumes "tcp_trigger K p c ing now (s, w) = (Some (ttl, rule), s', w')"
  shows "\<exists>f. m_tcp_flows w (p_key p) = Some f \<and> is_synack p \<and> \<not> is_syn p \<and> p_bytes p = 0 \<and>
    \<not> fst (options K p False (s, w)) \<and> f_active f = ing \<and> \<not> f_stopped f \<and> now - f_seen f \<le> 30 * FF_NS \<and>
    c_directions c AND (if ing then 1 else 2) \<noteq> 0 \<and>
    (p_ack p = f_syn_seq f + 1 \<or> p_ack p = f_syn_seq f + 1 + f_syn_bytes f) \<and>
    f_batches f < c_tcp_batches c \<and> rule < 3 \<and> (f_rule f < 3 \<longrightarrow> rule = f_rule f) \<and>
    ttl = (if ing then ucast (p_ttl p) else f_remote_ttl f)"
proof -
  from assms have syn: "\<not> is_syn p" by (auto simp: tcp_trigger_def split: option.splits if_splits)
  with assms obtain f where f: "m_tcp_flows w (p_key p) = Some f"
    and run: "tcp_segment_seen K p c ing now f (s, w) = (Some (ttl, rule), s', w')"
    by (auto simp: tcp_trigger_def split: option.splits)
  obtain reject s1 w1 where opt: "(if is_synack p
           then if p_bytes p \<noteq> 0 then (True, s, stat FF_SKIP_SYNACK_DATA w)
                else options K p False (s, w)
           else (False, s, w)) = (reject, s1, w1)"
    by (metis prod_cases3)
  obtain out f' where hs: "handshake_update p c ing now reject f = (out, f')" by fastforce
  then have out: "out = Some (ttl, rule)" using run by (simp add: tcp_segment_seen_def opt)
  from hs show ?thesis
  proof (cases rule: handshake_cases)
    case emit
    have "p_bytes p = 0 \<and> \<not> fst (options K p False (s, w))"
      using opt emit(3,4) by (auto split: if_splits)
    moreover have "rule < 3 \<and> (f_rule f < 3 \<longrightarrow> rule = f_rule f)"
      using emit(1) out by (auto simp: not_le split: if_splits)
    ultimately show ?thesis
      using emit out f syn by (auto simp: acks_syn_def)
  qed (use out in simp)
qed

theorem tcp_fires_on_answer_witness:
  "fst (tcp_trigger list_kern synack_parsed sample_config True 1000 (syn_packet, flow_world)) = Some (52, 1) \<and>
   is_synack synack_parsed \<and> c_directions sample_config AND 1 \<noteq> 0"
proof -
  obtain s' w' where *: "tcp_trigger list_kern synack_parsed sample_config True 1000 (syn_packet, flow_world) =
      (Some (52, 1), s', w')"
    using sample_answer [OF sample_lock, of sample_flow 1000] by (simp add: sample_step1 flow_world_def)
  from tcp_fires_on_answer [OF *] * show ?thesis by auto
qed

lemma handshake_stops:
  assumes "handshake_update p c ing now reject f = (out, f')" and "\<not> is_synack p"
  shows "f_stopped f'"
  using assms(1) by (cases rule: handshake_cases) (use assms(2) in simp_all)

text \<open>
  Property C21. Once a connection is past its handshake nothing more is injected into it: after
  any segment of a known flow that is neither SYN nor SYN-ACK (the final ACK, data, FIN or
  RST), no run of the trigger emits for that key again until a SYN restarts the connection.
\<close>
theorem tcp_silent_after_handshake:
  assumes "insert_noexist (flow_insert K)"
    and "flow_lock (p_key p) w \<noteq> None" and "m_tcp_flows w (p_key p) = Some f"
    and "\<not> is_syn p" and "\<not> is_synack p"
    and "tcp_trigger K p c ing now (s, w) = (out, s', w')"
    and "never (tcp_step_restarts c (p_key p)) (tcp_step K c (p_key p)) evs w'"
  shows "out = None \<and> outputs (tcp_step K c (p_key p)) evs w' = []"
proof -
  obtain rej f' where st: "tcp_flow_step c (p, ing, now, rej) f = (map_option (Pair now) out, f')"
    and w': "m_tcp_flows w' = (m_tcp_flows w)(p_key p \<mapsto> f')"
    using tcp_trigger_present [OF assms(2,3,6)] .
  then obtain o1 where hs: "handshake_update p c ing now False f = (o1, f')" and o: "map_option (Pair now) out = map_option (Pair now) o1"
    using assms(4,5) by (cases "handshake_update p c ing now False f") (auto simp: tcp_flow_step_def)
  from hs assms(5) have "o1 = None" by (cases rule: handshake_cases) simp_all
  with o have "out = None" by simp
  moreover have "tcp_step_left c (p_key p) w' = 0"
    using handshake_stops [OF hs assms(5)] w' by (simp add: tcp_step_left_def tcp_left_def)
  ultimately show ?thesis
    using quota.exhausted [OF paced.axioms(1) [OF tcp_step_paced [OF assms(1)]] assms(7)] by simp
qed

definition ack_parsed :: packet where
  "ack_parsed = synack_parsed\<lparr>p_flags := 0x10\<rparr>"

theorem tcp_silent_after_handshake_witness:
  "case tcp_trigger list_kern ack_parsed sample_config False 1000 (syn_packet, flow_world) of (out, s', w') \<Rightarrow>
     out = None \<and> outputs (tcp_step list_kern sample_config (p_key syn_parsed)) sample_run w' = []"
proof (cases "tcp_trigger list_kern ack_parsed sample_config False 1000 (syn_packet, flow_world)")
  case (fields out s' w')
  have k: "p_key ack_parsed = p_key syn_parsed" and a: "\<not> is_syn ack_parsed" "\<not> is_synack ack_parsed"
    by (simp_all add: ack_parsed_def synack_parsed_def is_syn_def is_synack_def)
  have never: "never (tcp_step_restarts sample_config (p_key ack_parsed))
      (tcp_step list_kern sample_config (p_key ack_parsed)) sample_run w'"
    by (simp add: sample_run_def tcp_step_restarts_def synack_fields)
  have ins: "insert_noexist (flow_insert list_kern)" by (simp add: list_kern_simps)
  have flow: "m_tcp_flows flow_world (p_key ack_parsed) = Some sample_flow"
    by (simp add: flow_world_def k)
  from tcp_silent_after_handshake [OF ins _ flow a fields never] sample_lock fields show ?thesis
    by (simp add: k)
qed

lemma flow_step_rule:
  assumes "tcp_flow_step c (p, ing, now, rej) f = (out, f')" and "f_rule f < 3"
  shows "f_rule f' = f_rule f" and "out = Some (t, ttl, rule) \<Longrightarrow> rule = f_rule f"
proof -
  have "f_rule f' = f_rule f \<and> (\<forall>t ttl rule. out = Some (t, ttl, rule) \<longrightarrow> rule = f_rule f)"
  proof (cases "is_syn p")
    case True
    with assms(1) show ?thesis by (auto simp: tcp_flow_step_def syn_update_simps split: if_splits)
  next
    case False
    then obtain o1 where hs: "handshake_update p c ing now (is_synack p \<and> (p_bytes p \<noteq> 0 \<or> rej)) f = (o1, f')"
      and "out = map_option (Pair now) o1"
      using assms(1) by (auto simp: tcp_flow_step_def map_prod_def split: prod.splits)
    then show ?thesis using assms(2) by (cases rule: handshake_cases) (auto simp: not_le [symmetric])
  qed
  then show "f_rule f' = f_rule f" and "out = Some (t, ttl, rule) \<Longrightarrow> rule = f_rule f" by blast+
qed

lemma tcp_rule_kept:
  assumes K: "insert_noexist (flow_insert K)" and f: "m_tcp_flows w k = Some f" "f_rule f < 3"
    and run: "tcp_trigger K p c ing now (s, w) = (out', s', w')"
    and out: "out = (if p_key p = k then map_option (Pair now) out' else None)"
  shows "(\<forall>t ttl rule. out = Some (t, ttl, rule) \<longrightarrow> rule = f_rule f) \<and>
     (\<forall>f'. m_tcp_flows w' k = Some f' \<longrightarrow> f_rule f' = f_rule f)"
proof (cases "p_key p = k")
  case False
  with tcp_trigger_other [OF K _ run, of k] out f show ?thesis by auto
next
  case k: True
  show ?thesis
  proof (cases "flow_lock (p_key p) w = None")
    case True
    with run out f show ?thesis by (simp add: tcp_trigger_def)
  next
    case False
    obtain rej f' where st: "tcp_flow_step c (p, ing, now, rej) f = (map_option (Pair now) out', f')"
      and "m_tcp_flows w' = (m_tcp_flows w)(p_key p \<mapsto> f')"
      using tcp_trigger_present [OF False _ run] f k by metis
    with flow_step_rule [OF st f(2)] k out show ?thesis by auto
  qed
qed

text \<open>
  Property C27. A connection never mixes two payload shapes: as long as the flow's entry stays in
  the table, every trigger of the key, restarts of the connection included, reports the rule
  pinned in the entry when it was created.
\<close>
theorem tcp_rule_pinned:
  assumes "insert_noexist (flow_insert K)" and "m_tcp_flows w k = Some f" and "f_rule f < 3"
    and "never (\<lambda>i w. m_tcp_flows w k = None) (tcp_step K c k) evs w"
  shows "\<forall>(t, ttl, rule) \<in> set (outputs (tcp_step K c k) evs w). rule = f_rule f"
  using assms(2,3,4)
proof (induction evs arbitrary: w f)
  case (Cons i evs)
  obtain out w' where st: "tcp_step K c k i w = (out, w')" by fastforce
  obtain s p ing now where i: "i = (s, p, ing, now)" by (metis prod_cases4)
  obtain out' s' where run: "tcp_trigger K p c ing now (s, w) = (out', s', w')"
    and out: "out = (if p_key p = k then map_option (Pair now) out' else None)"
    using st by (auto simp: tcp_step_def i split: prod.splits)
  have pinned: "(\<forall>t ttl rule. out = Some (t, ttl, rule) \<longrightarrow> rule = f_rule f) \<and>
     (\<forall>f'. m_tcp_flows w' k = Some f' \<longrightarrow> f_rule f' = f_rule f)"
    by (rule tcp_rule_kept [OF assms(1) Cons.prems(1,2) run out])
  show ?case
  proof (cases evs)
    case Nil
    with pinned st show ?thesis by (cases out) auto
  next
    case (Cons j js)
    with Cons.prems(3) st obtain f' where f': "m_tcp_flows w' k = Some f'" by auto
    have "f_rule f' = f_rule f" using pinned f' by blast
    with Cons.IH [OF f'] Cons.prems(2,3) st
    have "\<forall>(t, ttl, rule) \<in> set (outputs (tcp_step K c k) evs w'). rule = f_rule f" by simp
    with pinned st show ?thesis by (cases out) auto
  qed
qed simp

theorem tcp_rule_pinned_witness:
  "outputs (tcp_step list_kern sample_config (p_key syn_parsed))
      [(syn_packet, synack_parsed, True, 1000)] flow_world \<noteq> [] \<and>
   list_all (\<lambda>(t, ttl, rule). rule = 1) (outputs (tcp_step list_kern sample_config (p_key syn_parsed))
      [(syn_packet, synack_parsed, True, 1000)] flow_world)"
proof -
  have ins: "insert_noexist (flow_insert list_kern)" by (simp add: list_kern_simps)
  have flow: "m_tcp_flows flow_world (p_key syn_parsed) = Some sample_flow" by (simp add: flow_world_def)
  from tcp_rule_pinned [OF ins flow, of sample_config "[(syn_packet, synack_parsed, True, 1000)]"]
  show ?thesis by (simp add: sample_flow_fields flow list_all_iff tcp_step_def sample_trigger synack_fields)
qed

section \<open>The rotation of the rules\<close>

lemma next_rule_step:
  assumes rot: "m_rotation w 0 = Some n" and count: "c_rule_count c \<in> {1, 2, 3}"
    and rules: "\<forall>i < unat (c_rule_count c). c_rule_map c ! i < FF_TCP_RULES_MAX"
  shows "next_rule c w = (c_rule_map c ! (unat n mod 2 ^ 32 mod unat (c_rule_count c)),
    w\<lparr>m_rotation := (m_rotation w)(0 \<mapsto> n + 1)\<rparr>)"
proof -
  define i :: u32 where "i = ucast n"
  have i: "unat i = unat n mod 2 ^ 32"
    by (simp add: i_def unsigned_ucast_eq take_bit_eq_mod)
  have bit: "unat (i AND 1) = unat i mod 2"
    using unat_and_mask [of i 1] by (simp add: mask_eq_exp_minus_1)
  have m3: "i mod 3 = of_nat (unat i mod 3)"
    by (simp add: word_arith_nat_mod)
  have nat3: "unat i mod 3 = 0 \<or> unat i mod 3 = 1 \<or> unat i mod 3 = 2" by arith
  consider "c_rule_count c = 1" | "c_rule_count c = 2" | "c_rule_count c = 3" using count by auto
  then have "(if c_rule_count c = 1 then c_rule_map c ! 0
       else if c_rule_count c = 2 then c_rule_map c ! unat (i AND 1)
       else if i mod 3 = 0 then c_rule_map c ! 0 else if i mod 3 = 1 then c_rule_map c ! 1
       else c_rule_map c ! 2) = c_rule_map c ! (unat i mod unat (c_rule_count c))"
  proof cases
    case 3
    then show ?thesis using nat3 by (auto simp: m3)
  qed (simp_all add: bit)
  moreover have "c_rule_map c ! (unat i mod unat (c_rule_count c)) < FF_TCP_RULES_MAX"
    using rules count by (auto intro!: mod_less_divisor)
  ultimately show ?thesis
    using rot count by (auto simp: next_rule_def Let_def i_def [symmetric] i not_le [symmetric])
qed

text \<open>Pinning one new connection, as a step that emits its rule.\<close>

definition pin_step :: "ff_config \<Rightarrow> unit \<Rightarrow> 'e world \<Rightarrow> u32 option \<times> 'e world" where
  "pin_step c _ w = (case next_rule c w of (rule, w') \<Rightarrow> (Some rule, w'))"

text \<open>
  New connections rotate through the enabled rules: the rules pinned to \<open>j\<close>
  consecutive new connections are the entries of \<open>rule_map\<close> in cyclic order, from the counter
  on, and none of them is a rule that is not enabled (until the low 32 bits of the counter wrap).
\<close>
theorem next_rule_round_robin:
  assumes "m_rotation w 0 = Some n" and "c_rule_count c \<in> {1, 2, 3}"
    and "\<forall>i < unat (c_rule_count c). c_rule_map c ! i < FF_TCP_RULES_MAX"
    and "unat n + j \<le> 2 ^ 32"
  shows "outputs (pin_step c) (replicate j ()) w =
    map (\<lambda>i. c_rule_map c ! ((unat n + i) mod unat (c_rule_count c))) [0..<j]"
  using assms(1,4)
proof (induction j arbitrary: w n)
  case (Suc j)
  have n: "unat n mod 4294967296 = unat n" "unat (n + 1) = Suc (unat n)"
    using Suc.prems(2) by (auto simp: unat_add_small)
  let ?w = "w\<lparr>m_rotation := (m_rotation w)(0 \<mapsto> n + 1)\<rparr>"
  have "outputs (pin_step c) (replicate j ()) ?w =
      map (\<lambda>i. c_rule_map c ! ((unat (n + 1) + i) mod unat (c_rule_count c))) [0..<j]"
    by (rule Suc.IH) (use Suc.prems(2) n in simp_all)
  moreover have "[0..<Suc j] = 0 # map Suc [0..<j]"
    by (simp add: upt_conv_Cons map_Suc_upt del: upt_Suc)
  moreover have "pin_step c () w = (Some (c_rule_map c ! (unat n mod unat (c_rule_count c))), ?w)"
    using next_rule_step [OF Suc.prems(1) assms(2,3)] by (simp add: pin_step_def n)
  ultimately show ?case
    by (simp add: n comp_def del: upt_Suc)
qed simp

theorem next_rule_round_robin_witness:
  "outputs (pin_step sample_config) (replicate 5 ()) sample_world = [0, 1, 2, 0, 1]"
proof -
  have "m_rotation sample_world 0 = Some 0" by (simp add: sample_world_def)
  moreover have "\<forall>i < unat (c_rule_count sample_config). c_rule_map sample_config ! i < FF_TCP_RULES_MAX"
  proof (intro allI impI)
    fix i :: nat
    assume "i < unat (c_rule_count sample_config)"
    then have "i = 0 \<or> i = 1 \<or> i = 2" by (simp add: sample_config_fields) arith
    then show "c_rule_map sample_config ! i < FF_TCP_RULES_MAX"
      by (auto simp: sample_config_fields word_less_nat_alt)
  qed
  ultimately show ?thesis
    using next_rule_round_robin [of sample_world 0 sample_config 5]
    by (simp add: sample_config_fields upt_rec)
qed

end
