(* ===== verification/Udp.thy ===== *)
theory Udp
  imports Tcp
begin

text \<open>
  \<open>ebpf/bpf/udp.h\<close>: \<open>udp_trigger\<close> counts the packets of a UDP flow within a window that
  closes after \<open>udp_idle\<close> seconds of silence and lets the first ones trigger. The locked section
  is the function \<open>udp_update\<close> on the flow record.
\<close>

section \<open>The locked section\<close>

definition udp_idle_over :: "ff_config \<Rightarrow> u64 \<Rightarrow> ff_flow \<Rightarrow> bool" where
  "udp_idle_over c now f \<longleftrightarrow> ucast (c_udp_idle c) * FF_NS < now - f_seen f"

text \<open>The result: whether the packet was early, the remote TTL if it triggers, and the flow.\<close>

definition udp_update :: "packet \<Rightarrow> ff_config \<Rightarrow> bool \<Rightarrow> u64 \<Rightarrow> ff_flow \<Rightarrow> bool \<times> u32 option \<times> ff_flow" where
  "udp_update p c ing now f =
     (let f = (if udp_idle_over c now f
               then f\<lparr>f_packets := 0, f_batches := 0, f_outbound := False, f_remote_ttl := 0\<rparr> else f);
          f = f\<lparr>f_seen := now\<rparr>;
          f = (if f_packets f < 0xffffffff then f\<lparr>f_packets := f_packets f + 1\<rparr> else f);
          f = (if ing then f\<lparr>f_remote_ttl := ucast (p_ttl p)\<rparr> else f\<lparr>f_outbound := True\<rparr>);
          early = (f_packets f \<le> c_udp_packets c)
      in if early \<and> f_batches f < c_udp_packets c \<and> (\<not> ing \<or> (c_udp_both c \<noteq> 0 \<and> f_outbound f))
         then (early, Some (f_remote_ttl f), f\<lparr>f_batches := f_batches f + 1\<rparr>)
         else (early, None, f))"

section \<open>The trigger\<close>

definition udp_find :: "'e kern \<Rightarrow> ff_key \<Rightarrow> 'e world \<Rightarrow> 'e world" where
  "udp_find K k w =
     (case m_udp_flows w k of
        Some _ \<Rightarrow> w
      | None \<Rightarrow>
          (case flow_insert K k zero_flow (m_udp_flows w) of (err, m) \<Rightarrow>
             let w = w\<lparr>m_udp_flows := m\<rparr> in if err then w else stat FF_UDP_NEW w))"

definition udp_trigger ::
  "'e kern \<Rightarrow> packet \<Rightarrow> ff_config \<Rightarrow> bool \<Rightarrow> u64 \<Rightarrow> 'e world \<Rightarrow> u32 option \<times> 'e world" where
  "udp_trigger K p c ing now w =
     (case flow_lock (p_key p) w of
        None \<Rightarrow> (None, w)
      | Some _ \<Rightarrow>
          let w = udp_find K (p_key p) w in
          (case m_udp_flows w (p_key p) of
             None \<Rightarrow> (None, stat FF_MAP_FAILED w)
           | Some f \<Rightarrow>
               (case udp_update p c ing now f of (early, out, f) \<Rightarrow>
                  (out, stat (if early then FF_UDP_EARLY else FF_UDP_EXHAUSTED)
                          (w\<lparr>m_udp_flows := (m_udp_flows w)(p_key p \<mapsto> f)\<rparr>)))))"

section \<open>A flow as a bounded emitter\<close>

type_synonym udp_event = "packet \<times> bool \<times> u64"

definition udp_flow_step :: "ff_config \<Rightarrow> udp_event \<Rightarrow> ff_flow \<Rightarrow> u32 option \<times> ff_flow" where
  "udp_flow_step c = (\<lambda>(p, ing, now) f. snd (udp_update p c ing now f))"

definition udp_restarts :: "ff_config \<Rightarrow> udp_event \<Rightarrow> ff_flow \<Rightarrow> bool" where
  "udp_restarts c = (\<lambda>(p, ing, now) f. udp_idle_over c now f)"

text \<open>
  Every packet of the window uses up one place, whether it triggers or not. The counter of
  packets saturates, so a window of \<open>0xffffffff\<close> packets is bounded by its batches instead.
\<close>

definition udp_left :: "ff_config \<Rightarrow> ff_flow \<Rightarrow> nat" where
  "udp_left c f = unat (c_udp_packets c) -
     unat (if c_udp_packets c = 0xffffffff then f_batches f else f_packets f)"

definition bump :: "u32 \<Rightarrow> u32" where
  "bump n = (if n < 0xffffffff then n + 1 else n)"

lemma unat_bump: "unat (bump n) = min (unat n + 1) 0xffffffff"
  using unat_u32 [of n] by (auto simp: bump_def word_less_nat_alt unat_add_small)

lemma udp_update_cases:
  assumes "udp_update p c ing now f = (early, out, f')" and "\<not> udp_idle_over c now f"
  obtains (emit) "out = Some (if ing then ucast (p_ttl p) else f_remote_ttl f)" "early"
      "bump (f_packets f) \<le> c_udp_packets c" "f_packets f' = bump (f_packets f)"
      "f_batches f < c_udp_packets c" "f_batches f' = f_batches f + 1"
      "\<not> ing \<or> (c_udp_both c \<noteq> 0 \<and> f_outbound f)"
  | (quiet) "out = None" "f_packets f' = bump (f_packets f)" "f_batches f' = f_batches f"
proof -
  define g where "g = f\<lparr>f_seen := now, f_packets := bump (f_packets f)\<rparr>"
  define h where "h = (if ing then g\<lparr>f_remote_ttl := ucast (p_ttl p)\<rparr> else g\<lparr>f_outbound := True\<rparr>)"
  have h: "f_packets h = bump (f_packets f)" "f_batches h = f_batches f"
    "f_remote_ttl h = (if ing then ucast (p_ttl p) else f_remote_ttl f)" "ing \<Longrightarrow> f_outbound h = f_outbound f"
    by (simp_all add: h_def g_def)
  have run: "udp_update p c ing now f =
     (if bump (f_packets f) \<le> c_udp_packets c \<and> f_batches f < c_udp_packets c \<and> (\<not> ing \<or> (c_udp_both c \<noteq> 0 \<and> f_outbound h))
      then (True, Some (f_remote_ttl h), h\<lparr>f_batches := f_batches f + 1\<rparr>)
      else (bump (f_packets f) \<le> c_udp_packets c, None, h))"
    using assms(2) by (simp add: udp_update_def Let_def h_def g_def bump_def)
  show ?thesis
  proof (cases "out = None")
    case True
    then show ?thesis using assms(1) h unfolding run by (intro quiet) (auto split: if_splits)
  next
    case False
    then show ?thesis using assms(1) h unfolding run by (intro emit) (auto split: if_splits)
  qed
qed

interpretation udp_flow: quota "udp_flow_step c" "udp_left c" "udp_restarts c" for c
proof
  fix e f x f'
  assume no: "\<not> udp_restarts c e f"
  obtain p ing now where e: "e = (p, ing, now)" by (metis prod_cases3)
  have no': "\<not> udp_idle_over c now f" using no by (simp add: udp_restarts_def e)
  note bounds = unat_bump [of "f_packets f"] unat_u32 [of "c_udp_packets c"] unat_u32 [of "f_packets f"]
  have max: "unat (c_udp_packets c) < 0xffffffff" if "c_udp_packets c \<noteq> 0xffffffff"
    using that unat_u32 [of "c_udp_packets c"] by (auto simp: word_unat_eq_iff)
  show "udp_left c f' < udp_left c f" if st: "udp_flow_step c e f = (Some x, f')"
  proof -
    obtain early where "udp_update p c ing now f = (early, Some x, f')"
      using st unfolding udp_flow_step_def e prod.case by (metis prod.collapse)
    from this no' show ?thesis
    proof (cases rule: udp_update_cases)
      case emit
      then show ?thesis
        using bounds max unat_Suc_word [OF emit(5)]
        by (auto simp: udp_left_def word_le_nat_alt word_less_nat_alt)
    qed simp
  qed
  show "udp_left c f' \<le> udp_left c f" if st: "udp_flow_step c e f = (None, f')"
  proof -
    obtain early where "udp_update p c ing now f = (early, None, f')"
      using st unfolding udp_flow_step_def e prod.case by (metis prod.collapse)
    from this no' show ?thesis
      by (cases rule: udp_update_cases) (use bounds in \<open>auto simp: udp_left_def\<close>)
  qed
qed

section \<open>Runs of the trigger\<close>

lemma udp_find_present: "m_udp_flows w k = Some f \<Longrightarrow> udp_find K k w = w"
  by (simp add: udp_find_def)

lemma udp_find_other:
  assumes K: "insert_noexist (flow_insert K)" and "k' \<noteq> k"
  shows "m_udp_flows (udp_find K k w) k' = m_udp_flows w k' \<or> m_udp_flows (udp_find K k w) k' = None"
proof (cases "m_udp_flows w k")
  case None
  obtain e m where ins: "flow_insert K k zero_flow (m_udp_flows w) = (e, m)" by fastforce
  have "m k' = m_udp_flows w k' \<or> m k' = None"
    using assms(2) by (rule insert_noexistD(3) [OF K ins])
  moreover have "m_udp_flows (udp_find K k w) = m"
    by (simp add: udp_find_def None ins Let_def)
  ultimately show ?thesis by simp
qed (simp add: udp_find_present)

lemma udp_trigger_eq:
  assumes "flow_lock (p_key p) w \<noteq> None" and "m_udp_flows w (p_key p) = Some f"
  shows "udp_trigger K p c ing now w =
    (case udp_update p c ing now f of (early, out, f') \<Rightarrow>
       (out, stat (if early then FF_UDP_EARLY else FF_UDP_EXHAUSTED)
               (w\<lparr>m_udp_flows := (m_udp_flows w)(p_key p \<mapsto> f')\<rparr>)))"
  using assms by (auto simp: udp_trigger_def udp_find_present Let_def)

lemma udp_trigger_present:
  assumes "flow_lock (p_key p) w \<noteq> None" and "m_udp_flows w (p_key p) = Some f"
    and "udp_trigger K p c ing now w = (out, w')"
  obtains f' where "udp_flow_step c (p, ing, now) f = (out, f')"
    and "m_udp_flows w' = (m_udp_flows w)(p_key p \<mapsto> f')"
proof -
  obtain early o1 f' where up: "udp_update p c ing now f = (early, o1, f')" by (metis prod_cases3)
  then have "out = o1" and "m_udp_flows w' = (m_udp_flows w)(p_key p \<mapsto> f')"
    using assms by (auto simp: udp_trigger_eq)
  with up show ?thesis by (intro that [of f']) (simp_all add: udp_flow_step_def)
qed

lemma udp_trigger_other:
  assumes K: "insert_noexist (flow_insert K)" and k: "k \<noteq> p_key p"
    and run: "udp_trigger K p c ing now w = (out, w')"
  shows "m_udp_flows w' k = m_udp_flows w k \<or> m_udp_flows w' k = None"
proof (cases "flow_lock (p_key p) w")
  case None
  with run show ?thesis by (simp add: udp_trigger_def)
next
  case (Some l)
  define w1 where "w1 = udp_find K (p_key p) w"
  have "m_udp_flows w' k = m_udp_flows w1 k"
    using run Some k
    by (cases "m_udp_flows w1 (p_key p)") (auto simp: udp_trigger_def w1_def [symmetric] Let_def split: prod.splits)
  with udp_find_other [OF K k, of w] show ?thesis by (simp add: w1_def)
qed

type_synonym udp_input = "packet \<times> bool \<times> u64"

definition udp_step :: "'e kern \<Rightarrow> ff_config \<Rightarrow> ff_key \<Rightarrow> udp_input \<Rightarrow> 'e world \<Rightarrow> u32 option \<times> 'e world" where
  "udp_step K c k = (\<lambda>(p, ing, now) w.
     case udp_trigger K p c ing now w of (out, w') \<Rightarrow> (if p_key p = k then out else None, w'))"

definition udp_step_restarts :: "ff_config \<Rightarrow> ff_key \<Rightarrow> udp_input \<Rightarrow> 'e world \<Rightarrow> bool" where
  "udp_step_restarts c k = (\<lambda>(p, ing, now) w. p_key p = k \<and>
     (case m_udp_flows w k of None \<Rightarrow> True | Some f \<Rightarrow> udp_idle_over c now f))"

definition udp_step_left :: "ff_config \<Rightarrow> ff_key \<Rightarrow> 'e world \<Rightarrow> nat" where
  "udp_step_left c k w = (case m_udp_flows w k of None \<Rightarrow> 0 | Some f \<Rightarrow> udp_left c f)"

lemma udp_step_cases:
  assumes K: "insert_noexist (flow_insert K)" and no: "\<not> udp_step_restarts c k i w"
    and st: "udp_step K c k i w = (out, w')"
  obtains (flow) e f f' where "m_udp_flows w k = Some f" "m_udp_flows w' k = Some f'"
      "\<not> udp_restarts c e f" "udp_flow_step c e f = (out, f')"
  | (lost) "out = None" "m_udp_flows w' k = None"
  | (same) "out = None" "m_udp_flows w' k = m_udp_flows w k"
proof -
  obtain p ing now where i: "i = (p, ing, now)" by (metis prod_cases3)
  obtain out' where run: "udp_trigger K p c ing now w = (out', w')"
    and out: "out = (if p_key p = k then out' else None)"
    using st by (auto simp: udp_step_def i split: prod.splits)
  show ?thesis
  proof (cases "p_key p = k")
    case False
    with udp_trigger_other [OF K _ run, of k] out lost same show ?thesis by auto
  next
    case k: True
    with no obtain f where f: "m_udp_flows w k = Some f" and ni: "\<not> udp_idle_over c now f"
      by (auto simp: udp_step_restarts_def i split: option.splits)
    show ?thesis
    proof (cases "flow_lock (p_key p) w = None")
      case True
      with run out show ?thesis by (intro same) (simp_all add: udp_trigger_def)
    next
      case False
      obtain f' where "udp_flow_step c (p, ing, now) f = (out', f')"
        and "m_udp_flows w' = (m_udp_flows w)(p_key p \<mapsto> f')"
        using udp_trigger_present [OF False _ run] f k by metis
      then show ?thesis using f k out ni by (intro flow [of f f']) (simp_all add: udp_restarts_def)
    qed
  qed
qed

lemma udp_step_quota:
  fixes K :: "'e kern"
  assumes K: "insert_noexist (flow_insert K)"
  shows "quota (udp_step K c k) (udp_step_left c k) (udp_step_restarts c k)"
proof
  fix i x and w w' :: "'e world"
  assume no: "\<not> udp_step_restarts c k i w"
  note cases = udp_step_cases [OF K no]
  show "udp_step_left c k w' < udp_step_left c k w" if "udp_step K c k i w = (Some x, w')"
    using that by (cases rule: cases) (auto simp: udp_step_left_def dest: udp_flow.spends)
  show "udp_step_left c k w' \<le> udp_step_left c k w" if "udp_step K c k i w = (None, w')"
    using that by (cases rule: cases) (auto simp: udp_step_left_def dest: udp_flow.keeps)
qed

section \<open>A worked example\<close>

definition udp_parsed :: packet where
  "udp_parsed = syn_parsed\<lparr>p_key := (p_key syn_parsed)\<lparr>k_protocol := 17\<rparr>, p_hlen := 8\<rparr>"

definition udp_world :: "u64 world" where
  "udp_world = sample_world\<lparr>m_udp_flows := [p_key udp_parsed \<mapsto> zero_flow\<lparr>f_seen := 500\<rparr>]\<rparr>"

definition udp_run :: "udp_input list" where
  "udp_run = [(udp_parsed, False, 1000), (udp_parsed, False, 2000), (udp_parsed, False, 3000)]"

lemma udp_sample_lock: "flow_lock (p_key udp_parsed) w \<noteq> None" if "m_flow_locks w = m_flow_locks sample_world"
  using that by (simp add: flow_lock_def sample_world_def udp_parsed_def syn_parsed_def zero_packet_def zero_key_def)

lemma sample_udp_fields:
  "c_udp_packets sample_config = 2" "c_udp_idle sample_config = 30" "c_udp_both sample_config = 1"
  by (simp_all add: sample_config_def)

definition udp_flow_at :: "u64 \<Rightarrow> u32 \<Rightarrow> u32 \<Rightarrow> ff_flow" where
  "udp_flow_at t n b = zero_flow\<lparr>f_seen := t, f_packets := n, f_outbound := True, f_batches := b\<rparr>"

lemma udp_sample_update:
  "udp_update udp_parsed sample_config False 1000 (zero_flow\<lparr>f_seen := 500\<rparr>) = (True, Some 0, udp_flow_at 1000 1 1)"
  "udp_update udp_parsed sample_config False 2000 (udp_flow_at 1000 1 1) = (True, Some 0, udp_flow_at 2000 2 2)"
  "udp_update udp_parsed sample_config False 3000 (udp_flow_at 2000 2 2) = (False, None, udp_flow_at 3000 3 2)"
  by (simp_all add: udp_update_def udp_idle_over_def udp_flow_at_def zero_flow_def sample_udp_fields Let_def
      word_le_nat_alt word_less_nat_alt)

lemma udp_sample_trigger:
  assumes "m_flow_locks w = m_flow_locks sample_world" and "m_udp_flows w (p_key udp_parsed) = Some f"
    and "udp_update udp_parsed sample_config False now f = (early, out, f')"
  shows "\<exists>w'. udp_trigger list_kern udp_parsed sample_config False now w = (out, w') \<and>
    m_flow_locks w' = m_flow_locks sample_world \<and> m_udp_flows w' (p_key udp_parsed) = Some f'"
  using udp_trigger_eq [OF udp_sample_lock [OF assms(1)] assms(2)] assms by simp

lemma udp_sample_run:
  "never (udp_step_restarts sample_config (p_key udp_parsed)) (udp_step list_kern sample_config (p_key udp_parsed))
     udp_run udp_world \<and>
   outputs (udp_step list_kern sample_config (p_key udp_parsed)) udp_run udp_world = [0, 0]"
proof -
  have w0: "m_flow_locks udp_world = m_flow_locks sample_world"
    "m_udp_flows udp_world (p_key udp_parsed) = Some (zero_flow\<lparr>f_seen := 500\<rparr>)"
    by (simp_all add: udp_world_def)
  obtain w1 where w1: "udp_trigger list_kern udp_parsed sample_config False 1000 udp_world = (Some 0, w1)"
    "m_flow_locks w1 = m_flow_locks sample_world" "m_udp_flows w1 (p_key udp_parsed) = Some (udp_flow_at 1000 1 1)"
    using udp_sample_trigger [OF w0 udp_sample_update(1)] by auto
  obtain w2 where w2: "udp_trigger list_kern udp_parsed sample_config False 2000 w1 = (Some 0, w2)"
    "m_flow_locks w2 = m_flow_locks sample_world" "m_udp_flows w2 (p_key udp_parsed) = Some (udp_flow_at 2000 2 2)"
    using udp_sample_trigger [OF w1(2,3) udp_sample_update(2)] by auto
  obtain w3 where w3: "udp_trigger list_kern udp_parsed sample_config False 3000 w2 = (None, w3)"
    using udp_sample_trigger [OF w2(2,3) udp_sample_update(3)] by auto
  show ?thesis
    by (simp add: udp_run_def udp_step_def w1 w2 w3 w0 udp_step_restarts_def udp_idle_over_def
        sample_udp_fields udp_flow_at_def zero_flow_def word_less_nat_alt)
qed

section \<open>Properties\<close>

text \<open>
  Property C22. Only the first packets of a UDP window trigger: over any run of the trigger, with
  other flows interleaved and entries evicted, the number of triggers of one key, while its
  window is not reopened by \<open>udp_idle\<close> seconds of silence, is at most what the configured
  number of early packets exceeds the packets already seen by.
\<close>
theorem udp_quota:
  assumes "insert_noexist (flow_insert K)" and "c_udp_packets c \<noteq> 0xffffffff"
    and "never (udp_step_restarts c k) (udp_step K c k) evs w"
  shows "length (outputs (udp_step K c k) evs w) \<le>
    (case m_udp_flows w k of None \<Rightarrow> 0 | Some f \<Rightarrow> unat (c_udp_packets c) - unat (f_packets f))"
  using quota.bounded [OF udp_step_quota [OF assms(1)] assms(3)] assms(2)
  by (cases "m_udp_flows w k") (simp_all add: udp_step_left_def udp_left_def)

theorem udp_quota_witness:
  "length (outputs (udp_step list_kern sample_config (p_key udp_parsed)) udp_run udp_world) \<le> 2 \<and>
   outputs (udp_step list_kern sample_config (p_key udp_parsed)) udp_run udp_world = [0, 0]"
proof -
  have ins: "insert_noexist (flow_insert list_kern)" and c: "c_udp_packets sample_config \<noteq> 0xffffffff"
    by (simp_all add: list_kern_simps sample_udp_fields)
  from udp_quota [OF ins c conjunct1 [OF udp_sample_run]] udp_sample_run show ?thesis
    by (simp add: udp_world_def sample_udp_fields zero_flow_def)
qed

text \<open>
  A UDP packet triggers only as one of the first \<open>udp_packets\<close> of its window, and an
  inbound one only when both directions are enabled and an outbound packet of the same window
  has been seen; it reports the remote side's TTL as last seen in the window.
\<close>
theorem udp_fires_early:
  assumes "udp_trigger K p c ing now w = (Some ttl, w')"
    and "m_udp_flows w (p_key p) = Some f" and "\<not> udp_idle_over c now f"
  shows "(unat (f_packets f) < unat (c_udp_packets c) \<or> c_udp_packets c = 0xffffffff) \<and>
    (ing \<longrightarrow> c_udp_both c \<noteq> 0 \<and> f_outbound f) \<and> ttl = (if ing then ucast (p_ttl p) else f_remote_ttl f) \<and>
    (\<exists>f'. m_udp_flows w' (p_key p) = Some f' \<and> f_batches f' = f_batches f + 1 \<and> f_seen f' = now)"
proof -
  have lock: "flow_lock (p_key p) w \<noteq> None" using assms(1) by (cases "flow_lock (p_key p) w") (simp_all add: udp_trigger_def)
  obtain early out f' where up: "udp_update p c ing now f = (early, out, f')" by (metis prod_cases3)
  have out: "out = Some ttl" "m_udp_flows w' (p_key p) = Some f'"
    using assms(1) udp_trigger_eq [OF lock assms(2), of K c ing now] up by auto
  have seen: "f_seen f' = now" using up by (auto simp: udp_update_def Let_def split: if_splits)
  from up assms(3) show ?thesis
  proof (cases rule: udp_update_cases)
    case emit
    have "unat (f_packets f) < unat (c_udp_packets c) \<or> c_udp_packets c = 0xffffffff"
      using emit(3) unat_bump [of "f_packets f"] unat_u32 [of "c_udp_packets c"]
      by (auto simp: word_le_nat_alt word_unat_eq_iff)
    with emit out seen show ?thesis by auto
  qed (use out in simp)
qed

theorem udp_fires_early_witness:
  "\<exists>w'. udp_trigger list_kern udp_parsed sample_config False 1000 udp_world = (Some 0, w') \<and>
     (\<exists>f'. m_udp_flows w' (p_key udp_parsed) = Some f' \<and> f_batches f' = 1)"
proof -
  have w0: "m_flow_locks udp_world = m_flow_locks sample_world"
    "m_udp_flows udp_world (p_key udp_parsed) = Some (zero_flow\<lparr>f_seen := 500\<rparr>)"
    by (simp_all add: udp_world_def)
  obtain w1 where w1: "udp_trigger list_kern udp_parsed sample_config False 1000 udp_world = (Some 0, w1)"
    using udp_sample_trigger [OF w0 udp_sample_update(1)] by auto
  have "\<not> udp_idle_over sample_config 1000 (zero_flow\<lparr>f_seen := 500\<rparr>)"
    by (simp add: udp_idle_over_def sample_udp_fields word_less_nat_alt)
  from udp_fires_early [OF w1 w0(2) this] w1 show ?thesis by (auto simp: zero_flow_def)
qed

end
