(* ===== verification/Budget.thy ===== *)
theory Budget
  imports Udp
begin

text \<open>
  \<open>reserve\<close> of \<open>ebpf/bpf/observer.bpf.c\<close>: the token bucket that limits what an interface
  injects. Tokens are counted in units of 1e-9 packets. The bucket is shown to be a rate
  limiter in the sense of the locale \<open>limiter\<close>.
\<close>

section \<open>The bucket\<close>

definition limit :: "ff_config \<Rightarrow> u64" where
  "limit c = ucast (c_burst c) * FF_NS"

definition price :: "ff_config \<Rightarrow> u64" where
  "price c = ucast (c_repeat c) * FF_NS"

text \<open>The locked section up to the refilled level.\<close>

definition refill :: "ff_config \<Rightarrow> u64 \<Rightarrow> ff_budget \<Rightarrow> ff_budget" where
  "refill c now b =
     (let b = (if b_at b = 0 then b\<lparr>b_tokens := limit c, b_at := now\<rparr> else b);
          elapsed = now - b_at b;
          tokens = (if c_rate c \<noteq> 0 \<and> elapsed \<le> limit c div ucast (c_rate c)
                    then b_tokens b + elapsed * ucast (c_rate c) else limit c);
          tokens = (if limit c < tokens then limit c else tokens)
      in b\<lparr>b_at := now, b_tokens := tokens\<rparr>)"

definition spend :: "ff_config \<Rightarrow> ff_budget \<Rightarrow> bool \<times> ff_budget" where
  "spend c b = (if price c \<le> b_tokens b then (True, b\<lparr>b_tokens := b_tokens b - price c\<rparr>) else (False, b))"

definition reserve :: "ff_interface \<Rightarrow> ff_config \<Rightarrow> u64 \<Rightarrow> 'e world \<Rightarrow> bool \<times> 'e world" where
  "reserve iface c now w =
     (case m_budgets w (i_slot iface) of
        None \<Rightarrow> (False, w)
      | Some b \<Rightarrow>
          (case spend c (refill c now b) of (ok, b) \<Rightarrow>
             let w = w\<lparr>m_budgets := (m_budgets w)(i_slot iface \<mapsto> b)\<rparr> in
             (ok, if ok then w else stat FF_RATE_LIMITED w)))"

section \<open>The bucket in natural numbers\<close>

text \<open>
  A bucket never holds more than \<open>2 ^ 32\<close> packets, so no sum of the refill wraps around:
  \<open>limit c\<close> is below \<open>2 ^ 62\<close>.
\<close>

definition bucket_ok :: "ff_budget \<Rightarrow> bool" where
  "bucket_ok b \<longleftrightarrow> unat (b_tokens b) \<le> 2 ^ 32 * 10 ^ 9"

lemma unat_ucast32 [simp]: "unat (ucast (x :: u32) :: u64) = unat x"
  by (simp add: unat_ucast_up)

lemma unat_limit: "unat (limit c) = unat (c_burst c) * 10 ^ 9"
  using unat_u32 [of "c_burst c"] unfolding limit_def FF_NS_def
  by (subst unat_mult_small) simp_all

lemma unat_price: "unat (price c) = unat (c_repeat c) * 10 ^ 9"
  using unat_u32 [of "c_repeat c"] unfolding price_def FF_NS_def
  by (subst unat_mult_small) simp_all

definition accrued :: "ff_config \<Rightarrow> nat \<Rightarrow> nat \<Rightarrow> nat" where
  "accrued c tokens elapsed =
     (if c_rate c = 0 then unat (c_burst c) * 10 ^ 9
      else min (unat (c_burst c) * 10 ^ 9) (tokens + elapsed * unat (c_rate c)))"

lemma refill_accrued:
  assumes ok: "bucket_ok b" and at: "b_at b \<noteq> 0"
  shows "unat (b_tokens (refill c now b)) = accrued c (unat (b_tokens b)) (unat (now - b_at b))"
    and "b_at (refill c now b) = now"
proof -
  let ?e = "now - b_at b" and ?r = "ucast (c_rate c) :: u64"
  have lim: "unat (limit c) < 2 ^ 62"
    using unat_u32 [of "c_burst c"] by (simp add: unat_limit)
  show "unat (b_tokens (refill c now b)) = accrued c (unat (b_tokens b)) (unat ?e)"
  proof (cases "c_rate c \<noteq> 0 \<and> ?e \<le> limit c div ?r")
    case True
    then have e: "unat ?e \<le> unat (limit c) div unat (c_rate c)"
      by (simp add: word_le_nat_alt unat_div)
    then have m: "unat ?e * unat (c_rate c) \<le> unat (limit c)"
      by (meson div_times_less_eq_dividend le_trans mult_le_mono1)
    then have prod: "unat (?e * ?r) = unat ?e * unat (c_rate c)"
      using lim by (subst unat_mult_small) simp_all
    have sum: "unat (b_tokens b + ?e * ?r) = unat (b_tokens b) + unat ?e * unat (c_rate c)"
      using ok m lim by (subst unat_add_small) (simp_all add: prod bucket_ok_def)
    have "unat (b_tokens (refill c now b)) = unat (if limit c < b_tokens b + ?e * ?r then limit c else b_tokens b + ?e * ?r)"
      using True at by (simp add: refill_def Let_def)
    then show ?thesis
      using True sum by (auto simp: accrued_def word_less_nat_alt unat_limit)
  next
    case False
    have "unat (b_tokens (refill c now b)) = unat (limit c)"
      using False at by (auto simp: refill_def Let_def)
    moreover have "unat (c_burst c) * 10 ^ 9 \<le> unat ?e * unat (c_rate c)" if nz: "c_rate c \<noteq> 0"
    proof -
      have "unat (limit c) div unat (c_rate c) < unat ?e"
        using False nz by (simp add: word_le_nat_alt unat_div)
      moreover have "0 < unat (c_rate c)" using nz by (simp add: unat_gt_0)
      ultimately show ?thesis by (metis div_less_iff_less_mult less_imp_le_nat unat_limit)
    qed
    ultimately show ?thesis by (auto simp: accrued_def unat_limit)
  qed
  show "b_at (refill c now b) = now"
    by (simp add: refill_def Let_def)
qed

lemma refill_fresh:
  assumes "b_at b = 0"
  shows "unat (b_tokens (refill c now b)) = unat (c_burst c) * 10 ^ 9" and "b_at (refill c now b) = now"
  using assms by (simp_all add: refill_def Let_def unat_limit)

lemma refill_le: "unat (b_tokens (refill c now b)) \<le> unat (c_burst c) * 10 ^ 9"
  unfolding unat_limit [symmetric] word_le_nat_alt [symmetric] by (auto simp: refill_def Let_def not_less)

section \<open>The bucket as a rate limiter\<close>

definition bucket_step :: "ff_config \<Rightarrow> u64 \<Rightarrow> ff_budget \<Rightarrow> unit option \<times> ff_budget" where
  "bucket_step c now b = (case spend c (refill c now b) of (ok, b) \<Rightarrow> (if ok then Some () else None, b))"

definition bucket_level :: "ff_config \<Rightarrow> ff_budget \<Rightarrow> nat" where
  "bucket_level c b = (if b_at b = 0 then unat (c_burst c) * 10 ^ 9
     else min (unat (c_burst c) * 10 ^ 9) (unat (b_tokens b)))"

lemma bucket_step_cases:
  assumes "bucket_step c now b = (out, b')"
  shows "b_at b' = now" and "unat (b_tokens b') + (if out = None then 0 else unat (c_repeat c) * 10 ^ 9) =
    unat (b_tokens (refill c now b))"
  using assms refill_accrued(2) [of b c now] refill_fresh(2) [of b c now]
  by (auto simp: bucket_step_def spend_def word_le_nat_alt unat_sub_small unat_price refill_def Let_def split: if_splits)

interpretation bucket: limiter "bucket_step c" "\<lambda>now. now \<noteq> 0 \<and> c_rate c \<noteq> 0" unat bucket_ok
    "bucket_level c" "\<lambda>b. unat (b_at b)" "unat (c_repeat c) * 10 ^ 9" "unat (c_rate c)" "unat (c_burst c) * 10 ^ 9"
  for c
proof
  fix b b' :: ff_budget and now :: u64 and out
  assume ok: "bucket_ok b" and now: "now \<noteq> 0 \<and> c_rate c \<noteq> 0" and st: "bucket_step c now b = (out, b')"
  note cs = bucket_step_cases [OF st]
  have level: "bucket_level c b' = unat (b_tokens b')"
    using refill_le [of c now b] cs now by (auto simp: bucket_level_def)
  show "bucket_ok b' \<and> unat (b_at b') = unat now"
    using refill_le [of c now b] cs unat_u32 [of "c_burst c"] by (simp add: bucket_ok_def)
  show "bucket_level c b' + (if out = None then 0 else unat (c_repeat c) * 10 ^ 9) \<le> unat (c_burst c) * 10 ^ 9"
    using refill_le [of c now b] cs level by simp
  show "bucket_level c b' + (if out = None then 0 else unat (c_repeat c) * 10 ^ 9)
      \<le> bucket_level c b + unat (c_rate c) * (unat now - unat (b_at b))" if "unat (b_at b) \<le> unat now"
  proof (cases "b_at b = 0")
    case True
    then show ?thesis using cs level refill_fresh [of b c now] by (simp add: bucket_level_def)
  next
    case False
    have "unat (now - b_at b) = unat now - unat (b_at b)"
      using that by (simp add: unat_sub_small word_le_nat_alt)
    then show ?thesis
      using cs level refill_accrued(1) [OF ok False, of c now] now False
      by (simp add: accrued_def bucket_level_def min_def mult.commute split: if_splits)
  qed
qed

section \<open>Runs of \<open>reserve\<close>\<close>

text \<open>An output is a granted reservation of the interface.\<close>

definition reserve_step :: "ff_interface \<Rightarrow> ff_config \<Rightarrow> u64 \<Rightarrow> 'e world \<Rightarrow> unit option \<times> 'e world" where
  "reserve_step iface c now w = (case reserve iface c now w of (ok, w') \<Rightarrow> (if ok then Some () else None, w'))"

lemma reserve_step_bucket:
  assumes "m_budgets w (i_slot iface) = Some b"
  shows "fst (reserve_step iface c now w) = fst (bucket_step c now b)"
    and "m_budgets (snd (reserve_step iface c now w)) (i_slot iface) = Some (snd (bucket_step c now b))"
  using assms by (simp_all add: reserve_step_def reserve_def bucket_step_def Let_def split: prod.split)

lemma outputs_bucket:
  "m_budgets w (i_slot iface) = Some b \<Longrightarrow>
    outputs (reserve_step iface c) ts w = outputs (bucket_step c) ts b"
proof (induction ts arbitrary: w b)
  case (Cons t ts)
  obtain out w' where st: "reserve_step iface c t w = (out, w')" by fastforce
  obtain out2 b' where bs: "bucket_step c t b = (out2, b')" by fastforce
  note eq = reserve_step_bucket [OF Cons.prems, of c t, unfolded st bs fst_conv snd_conv]
  show ?case using Cons.IH [OF eq(2)] eq(1) st bs by simp
qed simp

lemma sorted_unat: "sorted (map unat (ts :: u64 list)) = sorted ts"
  by (induction ts) (auto simp: word_le_nat_alt)

section \<open>Properties\<close>

definition sample_bucket :: "u64 world" where
  "sample_bucket = sample_world\<lparr>m_budgets := [0 \<mapsto> \<lparr>b_generation = 0, b_at = 2000000000, b_tokens = 0\<rparr>]\<rparr>"

lemma sample_bucket_fields:
  "m_budgets sample_bucket (i_slot sample_interface) = Some \<lparr>b_generation = 0, b_at = 2000000000, b_tokens = 0\<rparr>"
  "c_rate sample_config = 100" "c_burst sample_config = 10" "c_repeat sample_config = 1"
  "bucket_ok \<lparr>b_generation = 0, b_at = 2000000000, b_tokens = 0\<rparr>"
  by (simp_all add: sample_bucket_def sample_interface_def sample_config_def bucket_ok_def)

text \<open>
  Property C28. The 64-bit arithmetic of \<open>reserve\<close> is that of an ideal token bucket: on a bucket
  in use, the level after the refill is the minimum of the burst and the old level plus the
  elapsed time times the rate (the burst itself when no rate is set), computed without
  wrap-around for every configuration; the reservation succeeds exactly when that covers
  \<open>repeat\<close> packets and then takes them.
\<close>
theorem reserve_is_token_bucket:
  assumes "m_budgets w (i_slot iface) = Some b" and "bucket_ok b" and "b_at b \<noteq> 0"
    and "reserve iface c now w = (ok, w')"
  shows "\<exists>b'. m_budgets w' (i_slot iface) = Some b' \<and> b_at b' = now \<and> bucket_ok b' \<and>
    (ok \<longleftrightarrow> unat (c_repeat c) * 10 ^ 9 \<le> accrued c (unat (b_tokens b)) (unat (now - b_at b))) \<and>
    unat (b_tokens b') = accrued c (unat (b_tokens b)) (unat (now - b_at b)) - (if ok then unat (c_repeat c) * 10 ^ 9 else 0)"
proof -
  obtain ok' b' where sp: "spend c (refill c now b) = (ok', b')" by fastforce
  have r: "ok = ok'" "m_budgets w' (i_slot iface) = Some b'"
    using assms(1,4) sp by (auto simp: reserve_def Let_def split: if_splits)
  note acc = refill_accrued [OF assms(2,3), of c now]
  have "bucket_ok b'"
    using refill_le [of c now b] unat_u32 [of "c_burst c"] sp
    by (auto simp: bucket_ok_def spend_def word_le_nat_alt unat_sub_small split: if_splits)
  with r acc sp show ?thesis
    by (auto simp: spend_def word_le_nat_alt unat_price unat_sub_small split: if_splits)
qed

theorem reserve_is_token_bucket_witness:
  "\<not> fst (reserve sample_interface sample_config 2005000000 sample_bucket) \<and>
   (\<exists>b'. m_budgets (snd (reserve sample_interface sample_config 2005000000 sample_bucket)) (i_slot sample_interface) = Some b' \<and>
     unat (b_tokens b') = 500000000)"
proof (cases "reserve sample_interface sample_config 2005000000 sample_bucket")
  case (Pair ok w')
  from reserve_is_token_bucket [OF sample_bucket_fields(1,5) _ Pair] Pair
  show ?thesis by (auto simp: sample_bucket_fields accrued_def)
qed

text \<open>
  Property C14. The rate limit holds over every interval: however often \<open>reserve\<close> is called for an
  interface at non-decreasing clock values, the packets it grants (\<open>repeat\<close> per success) are at
  most \<open>burst\<close> plus \<open>rate\<close> per second between the first and the last call.
\<close>
theorem reserve_rate_bound:
  assumes "m_budgets w (i_slot iface) = Some b" and "bucket_ok b" and "c_rate c \<noteq> 0"
    and "\<forall>t \<in> set (now # ts). t \<noteq> 0" and "sorted (now # ts)"
  shows "unat (c_repeat c) * 10 ^ 9 * length (outputs (reserve_step iface c) (now # ts) w) \<le>
    unat (c_burst c) * 10 ^ 9 + unat (c_rate c) * (unat (last (now # ts)) - unat now)"
  unfolding outputs_bucket [OF assms(1)]
  by (rule bucket.rate_bound [OF assms(2)])
    (use assms(3-5) in \<open>auto simp: sorted_unat word_le_nat_alt\<close>)

theorem reserve_rate_bound_witness:
  "10 ^ 9 * length (outputs (reserve_step sample_interface sample_config) [2010000000, 2011000000, 2020000000] sample_bucket)
     \<le> (11 * 10 ^ 9 :: nat)"
  using reserve_rate_bound [OF sample_bucket_fields(1,5), of sample_config 2010000000 "[2011000000, 2020000000]"]
  by (simp add: sample_bucket_fields word_le_nat_alt)

text \<open>
  The refill trusts its caller's clock reading, which is taken before the bucket is
  locked: a caller whose reading is older than the bucket's time stamp (another CPU was faster)
  sees the elapsed time wrap around and refills the bucket to the full burst.
\<close>
theorem reserve_stale_clock:
  assumes "m_budgets w (i_slot iface) = Some b" and "now < b_at b" and "unat (b_at b) - unat now \<le> 2 ^ 62"
    and "c_repeat c \<le> c_burst c"
  shows "fst (reserve iface c now w)"
proof -
  have at: "b_at b \<noteq> 0" using assms(2) by auto
  have "unat (now - b_at b) = unat now + 2 ^ 64 - unat (b_at b)"
    using assms(2) by (simp add: unat_sub_if' word_less_nat_alt word_le_nat_alt)
  then have e: "2 ^ 63 \<le> unat (now - b_at b)"
    using assms(3) by simp
  have lim: "unat (limit c) < 2 ^ 62"
    using unat_u32 [of "c_burst c"] by (simp add: unat_limit)
  have "unat (limit c) div unat (c_rate c) < 2 ^ 62"
    using lim by (rule order_le_less_trans [OF div_le_dividend])
  then have "\<not> now - b_at b \<le> limit c div ucast (c_rate c)"
    using e by (simp add: word_le_nat_alt unat_div)
  then have "b_tokens (refill c now b) = limit c"
    using at by (simp add: refill_def Let_def)
  moreover have "price c \<le> limit c"
    using assms(4) by (simp add: word_le_nat_alt unat_price unat_limit)
  ultimately show ?thesis
    using assms(1) by (simp add: reserve_def spend_def Let_def)
qed

theorem reserve_stale_clock_witness:
  "fst (reserve sample_interface sample_config 1999999999 sample_bucket) \<and>
   \<not> fst (reserve sample_interface sample_config 2000000000 sample_bucket)"
  using reserve_stale_clock [OF sample_bucket_fields(1), of 1999999999 sample_config]
    reserve_is_token_bucket [OF sample_bucket_fields(1,5), of sample_config 2000000000]
  by (simp add: sample_bucket_fields word_less_nat_alt word_le_nat_alt reserve_def spend_def refill_def Let_def limit_def price_def)
end
