(* ===== verification/Emit.thy ===== *)
theory Emit
  imports Budget
begin

text \<open>
  \<open>emit\<close> of \<open>ebpf/bpf/observer.bpf.c\<close>: the TTL of the fake, the reservation, the variant, and
  the loop that submits each copy to the builder as a clone of the packet under a fresh request.
\<close>

section \<open>The request word\<close>

definition FF_EMIT_META :: "u32 \<Rightarrow> u32 \<Rightarrow> u32" where
  "FF_EMIT_META ttl plan = (ttl AND 0xff) OR push_bit 8 (plan AND (FF_TEMPLATE_PLAN_COUNT - 1))"

section \<open>The TTL of the fake\<close>

text \<open>The estimate of the hop count: the distance to the next usual initial TTL.\<close>

definition hops :: "u32 \<Rightarrow> u32" where
  "hops remote_ttl =
     (if remote_ttl \<le> 64 then 64 else if remote_ttl \<le> 128 then 128 else 255) - remote_ttl"

text \<open>\<open>None\<close>: the remote side is too near.\<close>

definition fake_ttl :: "ff_config \<Rightarrow> u32 \<Rightarrow> u32 option" where
  "fake_ttl c remote_ttl =
     (if c_estimate_hops c \<noteq> 0 \<and> remote_ttl \<noteq> 0 then
        let dynamic = hops remote_ttl * c_percent c div 100;
            ttl = (if c_ttl c < dynamic then dynamic else c_ttl c)
        in if hops remote_ttl \<le> ttl then None else Some ttl
      else Some (c_ttl c))"

section \<open>One copy\<close>

definition next_id :: "'e world \<Rightarrow> u64 \<times> 'e world" where
  "next_id w = (let n = (case m_sequence w 0 of None \<Rightarrow> 0 | Some n \<Rightarrow> n) in
     (n + 1, w\<lparr>m_sequence := (m_sequence w)(0 \<mapsto> n + 1)\<rparr>))"

definition make_request ::
  "ff_interface \<Rightarrow> ff_config \<Rightarrow> bool \<Rightarrow> u64 \<Rightarrow> u32 \<Rightarrow> u32 \<Rightarrow> u32 \<Rightarrow> skb \<Rightarrow> ff_request" where
  "make_request iface c reverse now ttl plan variant s =
     \<lparr>rq_expires = now + FF_REQUEST_NS, rq_state = 0, rq_ifindex = sk_ifindex s,
      rq_ifgen = i_generation iface, rq_config_gen = c_generation c, rq_mode = i_mode iface,
      rq_reverse = reverse, rq_ttl = ttl,
      rq_variant = push_bit FF_TEMPLATE_VARIANT_BITS (plan AND (FF_TEMPLATE_PLAN_COUNT - 1)) OR variant,
      rq_saved_cb0 = sk_cb0 s, rq_saved_cb1 = sk_cb1 s\<rparr>"

definition delete_request :: "u64 \<Rightarrow> 'e world \<Rightarrow> 'e world" where
  "delete_request i w = w\<lparr>m_requests := (m_requests w)(i := None)\<rparr>"

text \<open>What the submission came to, counted from the request's state after the clone.\<close>

definition account :: "bool \<Rightarrow> ff_request option \<Rightarrow> 'e world \<Rightarrow> 'e world" where
  "account rc result w =
     (if rc then stat FF_CLONE_FAILED w
      else case result of
        None \<Rightarrow> stat FF_SUBMIT_OK w
      | Some q \<Rightarrow>
          if 2 \<le> rq_state q then stat FF_SUBMIT_OK w
          else if rq_state q = 0 then stat FF_BUILD_FAILED w
          else w)"

definition emit_copy ::
  "'e kern \<Rightarrow> ff_interface \<Rightarrow> ff_config \<Rightarrow> bool \<Rightarrow> u64 \<Rightarrow> u32 \<Rightarrow> u32 \<Rightarrow> u32 \<Rightarrow>
     skb \<times> 'e world \<Rightarrow> skb \<times> 'e world" where
  "emit_copy K iface c reverse now ttl plan variant = (\<lambda>(s, w).
     case next_id (stat FF_ATTEMPT w) of (i, w) \<Rightarrow>
     let r = make_request iface c reverse now ttl plan variant s in
     case request_insert K i r (m_requests w) of (err, m) \<Rightarrow>
     let w = w\<lparr>m_requests := m\<rparr> in
     if err then (s, stat FF_MAP_FAILED w)
     else
       let s = s\<lparr>sk_cb0 := ucast i, sk_cb1 := ucast (drop_bit 32 i)\<rparr> in
       case clone_redirect K s (i_builder iface) w of (rc, w) \<Rightarrow>
       let s = s\<lparr>sk_cb0 := rq_saved_cb0 r, sk_cb1 := rq_saved_cb1 r\<rparr>;
           result = m_requests w i;
           w = account rc result w
       in (s, case result of
                None \<Rightarrow> delete_request i w
              | Some q \<Rightarrow> if rq_state q \<noteq> 2 then delete_request i w else w))"

text \<open>The loop over the copies, from copy \<open>i\<close> on with at most \<open>n\<close> more.\<close>

fun emit_loop ::
  "'e kern \<Rightarrow> ff_interface \<Rightarrow> ff_config \<Rightarrow> bool \<Rightarrow> u64 \<Rightarrow> u32 \<Rightarrow> u32 \<Rightarrow> u32 \<Rightarrow> nat \<Rightarrow> nat \<Rightarrow>
     skb \<times> 'e world \<Rightarrow> skb \<times> 'e world" where
  "emit_loop K iface c reverse now ttl plan variant i 0 (s, w) = (s, w)"
| "emit_loop K iface c reverse now ttl plan variant i (Suc n) (s, w) =
     (if c_repeat c \<le> of_nat i then (s, w)
      else case ktime K w of (t, w) \<Rightarrow>
      case alive t w of (live, w) \<Rightarrow>
      if \<not> live then (s, w)
      else emit_loop K iface c reverse now ttl plan variant (i + 1) n
             (emit_copy K iface c reverse now ttl plan variant (s, w)))"

section \<open>The whole function\<close>

text \<open>A number of variants is a power of two, so the mask selects one of them.\<close>

definition pick_variant :: "ff_config \<Rightarrow> u32 \<Rightarrow> u32 \<Rightarrow> u32" where
  "pick_variant c plan rnd =
     (let vmax = c_variants c ! unat (plan AND (FF_TEMPLATE_PLAN_COUNT - 1));
          vmax = (if vmax = 0 then 1 else vmax)
      in drop_bit 26 (rnd * 2654435761) AND (vmax - 1))"

definition emit ::
  "'e kern \<Rightarrow> ff_interface \<Rightarrow> ff_config \<Rightarrow> bool \<Rightarrow> u32 \<Rightarrow> skb \<times> 'e world \<Rightarrow> skb \<times> 'e world" where
  "emit K iface c reverse meta = (\<lambda>(s, w).
     let remote_ttl = meta AND 0xff;
         plan = drop_bit 8 meta AND (FF_TEMPLATE_PLAN_COUNT - 1)
     in
     case ktime K w of (now, w) \<Rightarrow>
     case fake_ttl c remote_ttl of
       None \<Rightarrow> (s, stat FF_SKIP_NEAR w)
     | Some ttl \<Rightarrow>
         let w = (if remote_ttl = 0 then stat FF_TTL_UNKNOWN w else w) in
         case reserve iface c now w of (ok, w) \<Rightarrow>
         if \<not> ok then (s, w)
         else case m_sequence w 0 of
           None \<Rightarrow> (s, w)
         | Some _ \<Rightarrow>
             case prandom K w of (rnd, w) \<Rightarrow>
             emit_loop K iface c reverse now ttl plan (pick_variant c plan rnd) 0 8 (s, w))"

section \<open>One copy, then all of them\<close>

lemma emit_copy_packet [simp]: "fst (emit_copy K iface c reverse now ttl plan variant (s, w)) = s"
  by (simp add: emit_copy_def make_request_def Let_def split: prod.split)

lemma emit_loop_packet [simp]: "fst (emit_loop K iface c reverse now ttl plan variant i n (s, w)) = s"
proof (induction n arbitrary: i w)
  case (Suc n)
  have "emit_copy K iface c reverse now ttl plan variant (s, w') =
      (s, snd (emit_copy K iface c reverse now ttl plan variant (s, w')))" for w'
    by (rule prod_eqI) simp_all
  with Suc show ?case by (simp split: prod.split) metis
qed simp

text \<open>
  What the kernel's clone does to the requests while it runs the builder and the egress hook:
  a request may disappear or advance to a later state, nothing else about it changes.
\<close>

definition advances :: "ff_request \<Rightarrow> ff_request \<Rightarrow> bool" where
  "advances r r' \<longleftrightarrow> r' = r\<lparr>rq_state := rq_state r'\<rparr> \<and> rq_state r \<le> rq_state r'"

definition requests_advance :: "(u64 \<rightharpoonup> ff_request) \<Rightarrow> (u64 \<rightharpoonup> ff_request) \<Rightarrow> bool" where
  "requests_advance m m' \<longleftrightarrow> (\<forall>i r'. m' i = Some r' \<longrightarrow> (\<exists>r. m i = Some r \<and> advances r r'))"

definition tame_clone :: "'e kern \<Rightarrow> bool" where
  "tame_clone K \<longleftrightarrow> (\<forall>s j w e w'. clone_redirect K s j w = (e, w') \<longrightarrow>
     requests_advance (m_requests w) (m_requests w') \<and> m_sequence w' = m_sequence w)"

lemma tame_cloneD:
  assumes "tame_clone K" and "clone_redirect K s j w = (e, w')"
  shows "requests_advance (m_requests w) (m_requests w')" and "m_sequence w' = m_sequence w"
  using assms unfolding tame_clone_def by blast+

lemma advances_refl [simp]: "advances r r"
  by (simp add: advances_def)

lemma advances_trans: "advances a b \<Longrightarrow> advances b c \<Longrightarrow> advances a c"
  by (cases a; cases b; cases c) (auto simp: advances_def)

lemma account_frame [simp]:
  "m_requests (account rc result w) = m_requests w" "m_sequence (account rc result w) = m_sequence w"
  by (simp_all add: account_def split: option.split)

text \<open>A request that is left behind: an old one, advanced, or a new one that awaits its egress.\<close>

definition left_behind :: "(u64 \<rightharpoonup> ff_request) \<Rightarrow> u64 \<Rightarrow> ff_request \<Rightarrow> bool" where
  "left_behind m i q \<longleftrightarrow> rq_state q = 2 \<or> (\<exists>r. m i = Some r \<and> advances r q)"

lemma emit_copy_cases:
  assumes "emit_copy K iface c reverse now ttl plan variant (s, w) = (s', w')"
  obtains (full) i w1 m where "next_id (stat FF_ATTEMPT w) = (i, w1)"
      "request_insert K i (make_request iface c reverse now ttl plan variant s) (m_requests w) = (True, m)"
      "m_requests w' = m" "m_sequence w' = m_sequence w1"
  | (sent) i w1 m s2 e w2 where "next_id (stat FF_ATTEMPT w) = (i, w1)"
      "request_insert K i (make_request iface c reverse now ttl plan variant s) (m_requests w) = (False, m)"
      "clone_redirect K s2 (i_builder iface) (w1\<lparr>m_requests := m\<rparr>) = (e, w2)"
      "m_sequence w' = m_sequence w2"
      "m_requests w' = (case m_requests w2 i of Some q \<Rightarrow> if rq_state q \<noteq> 2 then (m_requests w2)(i := None) else m_requests w2
         | None \<Rightarrow> (m_requests w2)(i := None))"
      "s2 = s\<lparr>sk_cb0 := ucast i, sk_cb1 := ucast (drop_bit 32 i)\<rparr>"
proof -
  obtain i w1 where id: "next_id (stat FF_ATTEMPT w) = (i, w1)" by fastforce
  have w1: "m_requests w1 = m_requests w"
    using id by (auto simp: next_id_def Let_def)
  obtain err m where ins: "request_insert K i (make_request iface c reverse now ttl plan variant s) (m_requests w1) = (err, m)"
    by fastforce
  show ?thesis
  proof (cases err)
    case True
    then have "w' = stat FF_MAP_FAILED (w1\<lparr>m_requests := m\<rparr>)"
      using assms id ins by (simp add: emit_copy_def Let_def)
    then show ?thesis using id ins w1 True by (intro full) simp_all
  next
    case False
    let ?s2 = "s\<lparr>sk_cb0 := ucast i, sk_cb1 := ucast (drop_bit 32 i)\<rparr>"
    obtain e w2 where cl: "clone_redirect K ?s2 (i_builder iface) (w1\<lparr>m_requests := m\<rparr>) = (e, w2)" by fastforce
    have "w' = (case m_requests w2 i of
                None \<Rightarrow> delete_request i (account e (m_requests w2 i) w2)
              | Some q \<Rightarrow> if rq_state q \<noteq> 2 then delete_request i (account e (m_requests w2 i) w2)
                          else account e (m_requests w2 i) w2)"
      using assms id ins cl False by (simp add: emit_copy_def Let_def)
    then have "m_sequence w' = m_sequence w2"
      "m_requests w' = (case m_requests w2 i of Some q \<Rightarrow> if rq_state q \<noteq> 2 then (m_requests w2)(i := None) else m_requests w2
         | None \<Rightarrow> (m_requests w2)(i := None))"
      by (simp_all add: delete_request_def split: option.split)
    then show ?thesis using id ins cl w1 False by (intro sent [of i w1 m ?s2 e w2]) simp_all
  qed
qed

lemma emit_copy_leaves:
  assumes K: "hash_insert (request_insert K)" "tame_clone K"
    and run: "emit_copy K iface c reverse now ttl plan variant (s, w) = (s', w')"
    and q: "m_requests w' j = Some q"
  shows "rq_state q = 2 \<or> (\<exists>r. m_requests w j = Some r \<and> advances r q)"
  using run
proof (cases rule: emit_copy_cases)
  case (full i w1 m)
  with hash_insertD(1) [OF K(1) full(2)] q show ?thesis by auto
next
  case (sent i w1 m s2 e w2)
  note adv = tame_cloneD(1) [OF K(2) sent(3), unfolded requests_advance_def]
  show ?thesis
  proof (cases "j = i")
    case True
    then show ?thesis using q sent(5) by (auto split: option.splits if_splits)
  next
    case False
    then have "m_requests w2 j = Some q" using q sent(5) by (auto split: option.splits if_splits)
    with adv obtain r where "m j = Some r" "advances r q" by auto
    with hash_insertD(3) [OF K(1) sent(2)] False show ?thesis by auto
  qed
qed

lemma next_id_sequence:
  "next_id w = (i, w') \<Longrightarrow> m_sequence w 0 = Some n \<Longrightarrow> m_sequence w' 0 = Some (n + 1) \<and> i = n + 1"
  by (auto simp: next_id_def Let_def)

lemma emit_copy_sequence:
  assumes "tame_clone K" and "m_sequence w 0 = Some n"
    and "emit_copy K iface c reverse now ttl plan variant (s, w) = (s', w')"
  shows "m_sequence w' 0 = Some (n + 1)"
  using assms(3)
proof (cases rule: emit_copy_cases)
  case (full i w1 m)
  with next_id_sequence [OF full(1)] assms(2) show ?thesis by simp
next
  case (sent i w1 m s2 e w2)
  with next_id_sequence [OF sent(1)] assms(2) tame_cloneD(2) [OF assms(1) sent(3)] show ?thesis by simp
qed

lemma alive_sequence: "alive t w = (l, w') \<Longrightarrow> m_sequence w' = m_sequence w \<and> m_requests w' = m_requests w"
  using alive_frame [of t w] by (metis snd_conv)

lemma ktime_sequence: "ktime K w = (t, w') \<Longrightarrow> m_sequence w' = m_sequence w \<and> m_requests w' = m_requests w \<and>
    m_budgets w' = m_budgets w"
  using ktime_frame [of K w] by (metis snd_conv)

text \<open>An induction principle for the loop: one live copy, then the rest.\<close>

lemma emit_loop_step:
  assumes "emit_loop K iface c reverse now ttl plan variant i (Suc n) (s, w) = (s', w')"
  obtains (stop) "m_sequence w' = m_sequence w" "m_requests w' = m_requests w"
  | (copy) w1 w2 where "of_nat i < c_repeat c" "m_sequence w1 = m_sequence w" "m_requests w1 = m_requests w"
      "emit_copy K iface c reverse now ttl plan variant (s, w1) = (s, w2)"
      "emit_loop K iface c reverse now ttl plan variant (i + 1) n (s, w2) = (s', w')"
proof -
  obtain t w1 where kt: "ktime K w = (t, w1)" by fastforce
  obtain live w2 where al: "alive t w1 = (live, w2)" by fastforce
  have fr: "m_sequence w2 = m_sequence w" "m_requests w2 = m_requests w"
    using ktime_sequence [OF kt] alive_sequence [OF al] by simp_all
  have cp: "emit_copy K iface c reverse now ttl plan variant (s, w2) =
      (s, snd (emit_copy K iface c reverse now ttl plan variant (s, w2)))"
    by (rule prod_eqI) simp_all
  show ?thesis
  proof (cases "c_repeat c \<le> of_nat i \<or> \<not> live")
    case True
    then have "w' = w \<or> w' = w2" using assms kt al by (auto split: if_splits)
    with fr show ?thesis by (intro stop) auto
  next
    case False
    then have "emit_loop K iface c reverse now ttl plan variant (i + 1) n
        (s, snd (emit_copy K iface c reverse now ttl plan variant (s, w2))) = (s', w')"
      using assms kt al cp by simp
    with False fr cp show ?thesis by (intro copy [of w2]) auto
  qed
qed

lemma emit_loop_leaves:
  assumes K: "hash_insert (request_insert K)" "tame_clone K"
    and run: "emit_loop K iface c reverse now ttl plan variant i n (s, w) = (s', w')"
    and q: "m_requests w' j = Some q"
  shows "2 \<le> rq_state q \<or> (\<exists>r. m_requests w j = Some r \<and> advances r q)"
  using run
proof (induction n arbitrary: i w)
  case 0
  with q show ?case by auto
next
  case (Suc n)
  from Suc.prems show ?case
  proof (cases rule: emit_loop_step)
    case stop
    with q show ?thesis by auto
  next
    case (copy w1 w2)
    from Suc.IH [OF copy(5)] show ?thesis
    proof
      assume "\<exists>r. m_requests w2 j = Some r \<and> advances r q"
      then obtain r where r: "m_requests w2 j = Some r" "advances r q" by blast
      from emit_copy_leaves [OF K copy(4) r(1)] show ?thesis
      proof
        assume "rq_state r = 2"
        with r(2) show ?thesis by (simp add: advances_def)
      next
        assume "\<exists>r'. m_requests w1 j = Some r' \<and> advances r' r"
        with r(2) copy(3) show ?thesis by (auto dest: advances_trans)
      qed
    qed simp
  qed
qed

lemma emit_loop_sequence:
  assumes K: "tame_clone K" and "m_sequence w 0 = Some k"
    and "emit_loop K iface c reverse now ttl plan variant i n (s, w) = (s', w')"
    and "i \<le> 8" "i + n \<le> 8"
  shows "\<exists>j. m_sequence w' 0 = Some (k + of_nat j) \<and> j \<le> n \<and> j \<le> unat (c_repeat c) - i"
  using assms(2-)
proof (induction n arbitrary: i w k)
  case 0
  then show ?case by (auto intro: exI [of _ 0])
next
  case (Suc n)
  from Suc.prems(2) show ?case
  proof (cases rule: emit_loop_step)
    case stop
    with Suc.prems(1) show ?thesis by (auto intro: exI [of _ 0])
  next
    case (copy w1 w2)
    have lt: "i < unat (c_repeat c)"
      using copy(1) Suc.prems(3) by (simp add: word_less_nat_alt unat_of_nat)
    have "m_sequence w2 0 = Some (k + 1)"
      using emit_copy_sequence [OF K _ copy(4)] copy(2) Suc.prems(1) by simp
    from Suc.IH [OF this copy(5)] Suc.prems(4) obtain j where
      "m_sequence w' 0 = Some (k + 1 + of_nat j)" "j \<le> n" "j \<le> unat (c_repeat c) - (i + 1)" by auto
    with lt show ?thesis by (intro exI [of _ "Suc j"]) (auto simp: add_ac)
  qed
qed

lemma reserve_frame:
  "reserve iface c now w = (ok, w') \<Longrightarrow> m_sequence w' = m_sequence w \<and> m_requests w' = m_requests w"
  by (auto simp: reserve_def Let_def split: option.splits prod.splits if_splits)

lemma reserve_budgets: "m_budgets w' = m_budgets w \<Longrightarrow> fst (reserve iface c now w') = fst (reserve iface c now w)"
  by (simp add: reserve_def Let_def split: option.split prod.split)

lemma emit_cases:
  assumes "emit K iface c reverse meta (s, w) = (s', w')"
  obtains (quiet) "m_sequence w' = m_sequence w" "m_requests w' = m_requests w"
  | (loop) ttl plan variant w1 where "fake_ttl c (meta AND 0xff) = Some ttl"
      "fst (reserve iface c (fst (ktime K w)) w)"
      "m_sequence w1 = m_sequence w" "m_requests w1 = m_requests w"
      "emit_loop K iface c reverse (fst (ktime K w)) ttl plan variant 0 8 (s, w1) = (s', w')"
proof -
  obtain now w1 where kt: "ktime K w = (now, w1)" by fastforce
  note f1 = ktime_sequence [OF kt]
  show ?thesis
  proof (cases "fake_ttl c (meta AND 0xff)")
    case None
    then have "w' = stat FF_SKIP_NEAR w1" using assms kt by (simp add: emit_def)
    then show ?thesis using f1 by (intro quiet) simp_all
  next
    case (Some ttl)
    define w2 where "w2 = (if meta AND 0xff = 0 then stat FF_TTL_UNKNOWN w1 else w1)"
    have f2: "m_sequence w2 = m_sequence w" "m_requests w2 = m_requests w" "m_budgets w2 = m_budgets w"
      using f1 by (simp_all add: w2_def)
    obtain ok w3 where rs: "reserve iface c now w2 = (ok, w3)" by fastforce
    have f3: "m_sequence w3 = m_sequence w" "m_requests w3 = m_requests w"
      using f2 reserve_frame [OF rs] by simp_all
    show ?thesis
    proof (cases "\<not> ok \<or> m_sequence w3 0 = None")
      case True
      then have "w' = w3" using assms kt Some rs
        by (auto simp: emit_def Let_def w2_def [symmetric] split: if_splits)
      then show ?thesis using f3 by (intro quiet) simp_all
    next
      case False
      obtain rnd w4 where pr: "prandom K w3 = (rnd, w4)" by fastforce
      have f4: "m_sequence w4 = m_sequence w" "m_requests w4 = m_requests w"
        using f3 pr by (auto simp: prandom_def split: prod.splits)
      let ?plan = "drop_bit 8 meta AND (FF_TEMPLATE_PLAN_COUNT - 1)"
      have "emit_loop K iface c reverse now ttl ?plan (pick_variant c ?plan rnd) 0 8 (s, w4) = (s', w')"
        using assms kt Some rs pr False by (auto simp: emit_def Let_def w2_def [symmetric])
      moreover have "fst (reserve iface c now w)"
        using reserve_budgets [OF f2(3), of iface c now] rs False by simp
      ultimately show ?thesis using f4 Some kt by (intro loop) simp_all
    qed
  qed
qed

lemma emit_packet: "fst (emit K iface c reverse meta (s, w)) = s"
  by (simp add: emit_def Let_def split: prod.split option.split)

section \<open>Properties\<close>

text \<open>
  Emitting never changes the packet it is triggered by: whatever the clock, the
  budget, the maps and the clone helper do, the packet afterwards, its control block included,
  is the packet before.
\<close>
theorem emit_keeps_packet: "fst (emit K iface c reverse meta (s, w)) = s"
  by (rule emit_packet)

text \<open>
  Property C29. With hop estimation on and a known remote TTL the fake is sent with a TTL below the
  estimated hop count, so it dies before the remote host, and not below the configured one;
  with \<open>percent\<close> at most 100 it is the larger of the configured TTL and that share of the hops.
\<close>
theorem fake_ttl_below_hops:
  assumes "fake_ttl c remote_ttl = Some ttl" and "c_estimate_hops c \<noteq> 0"
    and "remote_ttl \<noteq> 0" and "remote_ttl \<le> 255"
  shows "ttl < hops remote_ttl \<and> c_ttl c \<le> ttl \<and> unat (hops remote_ttl) \<le> 126 \<and>
    (c_percent c \<le> 100 \<longrightarrow> unat ttl = max (unat (c_ttl c)) (unat (hops remote_ttl) * unat (c_percent c) div 100))"
proof -
  have h: "unat (hops remote_ttl) \<le> 126"
  proof -
    have r: "0 < unat remote_ttl" "unat remote_ttl \<le> 255"
      using assms(3,4) by (simp_all add: word_le_nat_alt unat_gt_0)
    then show ?thesis
      by (auto simp: hops_def word_le_nat_alt unat_sub_small)
  qed
  have "unat (hops remote_ttl * c_percent c div 100) = unat (hops remote_ttl) * unat (c_percent c) div 100"
    if "c_percent c \<le> 100"
  proof -
    have "unat (hops remote_ttl) * unat (c_percent c) \<le> 126 * 100"
      using h that by (intro mult_le_mono) (simp_all add: word_le_nat_alt)
    then have "unat (hops remote_ttl * c_percent c) = unat (hops remote_ttl) * unat (c_percent c)"
      by (intro unat_mult_small) simp
    then show ?thesis by (simp add: unat_div)
  qed
  moreover have "ttl < hops remote_ttl" and
    "ttl = (if c_ttl c < hops remote_ttl * c_percent c div 100 then hops remote_ttl * c_percent c div 100 else c_ttl c)"
    using assms by (auto simp: fake_ttl_def Let_def not_le split: if_splits)
  moreover from this(2) have "unat ttl = max (unat (c_ttl c)) (unat (hops remote_ttl * c_percent c div 100))"
    by (simp add: word_less_nat_alt)
  ultimately show ?thesis using h by (simp add: word_le_nat_alt)
qed

theorem fake_ttl_below_hops_witness:
  "fake_ttl sample_config 52 = Some 6 \<and> (6::u32) < hops 52"
proof -
  have *: "fake_ttl sample_config 52 = Some 6"
    by (simp add: fake_ttl_def hops_def sample_config_def word_le_nat_alt word_less_nat_alt)
  from fake_ttl_below_hops [OF this] show ?thesis
    using * by (simp add: sample_config_def word_le_nat_alt)
qed

text \<open>
  Emitting is bounded and paid for: a trigger consumes at most \<open>repeat\<close> and at most
  eight request numbers (one per submitted copy), and none unless the reservation succeeded.
\<close>
theorem emit_attempts_bounded:
  assumes "tame_clone K" and "m_sequence w 0 = Some n"
    and "emit K iface c reverse meta (s, w) = (s', w')"
  shows "\<exists>j. m_sequence w' 0 = Some (n + of_nat j) \<and> j \<le> 8 \<and> j \<le> unat (c_repeat c) \<and>
    (j = 0 \<or> fst (reserve iface c (fst (ktime K w)) w))"
  using assms(3)
proof (cases rule: emit_cases)
  case quiet
  with assms(2) show ?thesis by (auto intro: exI [of _ 0])
next
  case (loop ttl plan variant w1)
  from emit_loop_sequence [OF assms(1) _ loop(5)] assms(2) loop(2,3) show ?thesis by auto
qed

text \<open>
  \<open>emit\<close> cleans up after itself: a request that is in the map when it returns either
  was there before (and at most advanced) or has been built and redirected and waits for its
  egress; a request whose clone was never built or failed to build is gone.
\<close>
theorem emit_cleans_requests:
  assumes "hash_insert (request_insert K)" and "tame_clone K"
    and "emit K iface c reverse meta (s, w) = (s', w')" and "m_requests w' i = Some q"
  shows "2 \<le> rq_state q \<or> (\<exists>r. m_requests w i = Some r \<and> advances r q)"
  using assms(3)
proof (cases rule: emit_cases)
  case quiet
  with assms(4) show ?thesis by auto
next
  case (loop ttl plan variant w1)
  from emit_loop_leaves [OF assms(1,2) loop(5) assms(4)] loop(4) show ?thesis by simp
qed

section \<open>A worked example\<close>

text \<open>A world with a full budget and a request of an earlier trigger that awaits its egress.\<close>

definition old_request :: ff_request where
  "old_request = \<lparr>rq_expires = 500, rq_state = 2, rq_ifindex = 3, rq_ifgen = 1, rq_config_gen = 5,
     rq_mode = FF_L3, rq_reverse = False, rq_ttl = 6, rq_variant = 0, rq_saved_cb0 = 0, rq_saved_cb1 = 0\<rparr>"

definition emit_world :: "u64 world" where
  "emit_world = sample_world\<lparr>m_budgets := [0 \<mapsto> \<lparr>b_generation = 0, b_at = 0, b_tokens = 0\<rparr>],
     m_sequence := [0 \<mapsto> 7], m_requests := [5 \<mapsto> old_request]\<rparr>"

lemma emit_loop_numeral:
  "emit_loop K iface c reverse now ttl plan variant i (numeral n) (s, w) =
     (if c_repeat c \<le> of_nat i then (s, w)
      else case ktime K w of (t, w) \<Rightarrow>
      case alive t w of (live, w) \<Rightarrow>
      if \<not> live then (s, w)
      else emit_loop K iface c reverse now ttl plan variant (i + 1) (pred_numeral n)
             (emit_copy K iface c reverse now ttl plan variant (s, w)))"
  by (simp add: numeral_eq_Suc)

lemma emit_sample_requests:
  "m_requests (snd (emit list_kern sample_interface sample_config False 52 (syn_packet, emit_world))) 5 = Some old_request \<and>
   m_sequence (snd (emit list_kern sample_interface sample_config False 52 (syn_packet, emit_world))) 0 = Some 8"
  apply (simp add: emit_def Let_def ktime_def list_kern_simps emit_world_def sample_world_def empty_world_def)
  apply (simp add: fake_ttl_def hops_def sample_config_def word_le_nat_alt word_less_nat_alt)
  apply (simp add: reserve_def sample_interface_def refill_def spend_def limit_def price_def Let_def word_le_nat_alt word_less_nat_alt)
  apply (simp add: prandom_def list_kern_simps emit_loop_numeral)
  apply (simp add: alive_def ktime_def list_kern_simps word_less_nat_alt)
  apply (simp add: emit_copy_def next_id_def stat_def make_request_def list_kern_simps plain_insert_def Let_def account_def
     delete_request_def sample_config_def emit_loop_numeral word_le_nat_alt)
  done

lemma emit_sample:
  obtains s' w' where "emit list_kern sample_interface sample_config False 52 (syn_packet, emit_world) = (s', w')"
    and "m_requests w' 5 = Some old_request" and "m_sequence w' 0 = Some 8"
  using emit_sample_requests by (cases "emit list_kern sample_interface sample_config False 52 (syn_packet, emit_world)") simp

lemma list_kern_tame [simp]: "tame_clone list_kern"
  by (auto simp: tame_clone_def list_kern_simps requests_advance_def)

theorem emit_attempts_bounded_witness:
  "tame_clone list_kern \<and> m_sequence emit_world 0 = Some 7 \<and>
   fst (reserve sample_interface sample_config (fst (ktime list_kern emit_world)) emit_world)"
proof -
  obtain s' w' where run: "emit list_kern sample_interface sample_config False 52 (syn_packet, emit_world) = (s', w')"
    and seq: "m_sequence w' 0 = Some 8" by (rule emit_sample)
  have "m_sequence emit_world 0 = Some 7" by (simp add: emit_world_def)
  from emit_attempts_bounded [OF list_kern_tame this run] seq this show ?thesis by auto
qed

theorem emit_cleans_requests_witness:
  "\<exists>s' w' q. emit list_kern sample_interface sample_config False 52 (syn_packet, emit_world) = (s', w') \<and>
     m_requests w' 5 = Some q \<and> 2 \<le> rq_state q"
proof -
  obtain s' w' where run: "emit list_kern sample_interface sample_config False 52 (syn_packet, emit_world) = (s', w')"
    and q: "m_requests w' 5 = Some old_request" by (rule emit_sample)
  have "hash_insert (request_insert list_kern)" by (simp add: list_kern_simps)
  from emit_cleans_requests [OF this list_kern_tame run q] run q show ?thesis
    by (auto simp: old_request_def emit_world_def advances_def)
qed

end
