(* ===== verification/Builder.thy ===== *)
theory Builder
  imports Emit
begin

text \<open>
  \<open>ebpf/bpf/builder.bpf.c\<close>: the builder, which turns the clone of an observed packet into
  the fake datagram. \<open>build\<close> is cut into the steps that read the clone, the headers it
  computes (\<open>build_eth\<close>, \<open>build_ip\<close>, \<open>build_th\<close>), the checksum deltas, and the sequence of
  writes; \<open>ff_builder\<close> is the program with its claim of the request.
\<close>

section \<open>Checksums and bounded transfers\<close>

definition fold_checksum :: "u64 \<Rightarrow> u16" where
  "fold_checksum n =
     (let n = (n AND 0xffffffff) + drop_bit 32 n;
          n = (n AND 0xffff) + drop_bit 16 n;
          n = (n AND 0xffff) + drop_bit 16 n
      in ucast (NOT n))"

definition store_payload :: "'e kern \<Rightarrow> u32 \<Rightarrow> u8 list \<Rightarrow> u64 \<Rightarrow> skb \<Rightarrow> bool \<times> skb" where
  "store_payload K off data bytes s =
     (if of_nat FF_PAYLOAD_MAX \<le> bytes - 1 then (True, s)
      else skb_store_bytes K s off (take (unat bytes) data) 1)"

definition load_chunk :: "'e kern \<Rightarrow> skb \<Rightarrow> u32 \<Rightarrow> u64 \<Rightarrow> buf option" where
  "load_chunk K s off bytes = (if 64 \<le> bytes - 1 then None else skb_load_bytes K s off (unat bytes))"

text \<open>\<open>bpf_htonl\<close> on the little-endian host.\<close>

definition htonl :: "u32 \<Rightarrow> u32" where
  "htonl x = push_bit 24 x OR (push_bit 8 x AND 0xff0000) OR (drop_bit 8 x AND 0xff00) OR drop_bit 24 x"

section \<open>Reading the clone\<close>

definition fresh :: "packet \<Rightarrow> bool" where
  "fresh p \<longleftrightarrow> p_first_fragment p \<or> p_fragment_header p"

definition iplen :: "packet \<Rightarrow> u32" where
  "iplen p = (if k_family (p_key p) = 4 then 20 else 40)"

definition thlen :: "packet \<Rightarrow> u32" where
  "thlen p = (if k_protocol (p_key p) = 6 then 20 else 8)"

text \<open>The sum of the clone's transport segment, in blocks of 64 bytes, from block \<open>i\<close> on.\<close>

fun old_sum :: "'e kern \<Rightarrow> skb \<Rightarrow> packet \<Rightarrow> nat \<Rightarrow> nat \<Rightarrow> u32 \<Rightarrow> u32 option" where
  "old_sum K s p i 0 acc = Some acc"
| "old_sum K s p i (Suc k) acc =
     (let off = p_l4 p + of_nat i * 64 in
      if p_end p \<le> off then Some acc
      else
        let n = (if 64 < p_end p - off then 64 else p_end p - off) in
        case load_chunk K s off (ucast n) of
          None \<Rightarrow> None
        | Some h \<Rightarrow>
            old_sum K s p (i + 1) k
              (ucast (csum_diff K [] (bytes_of h 0 (unat n) @ replicate (64 - unat n) 0) acc)))"

text \<open>
  The check of a clone whose fragment header is removed: a checksum helper that changes the
  field shows that the clone's checksum is not left to the device. \<open>Some s\<close>: go on with \<open>s\<close>.
\<close>

definition probe_checksum :: "'e kern \<Rightarrow> packet \<Rightarrow> skb \<times> 'e world \<Rightarrow> bool \<times> skb \<times> 'e world" where
  "probe_checksum K p = (\<lambda>(s, w).
     if \<not> p_fragment_header p then (False, s, w)
     else case l4_csum_replace K s (p_l4 p + 6) 0 1 0 of (err, s) \<Rightarrow>
       if err then (True, s, w)
       else (case skb_load_bytes K s (p_l4 p + 6) 2 of
               None \<Rightarrow> (True, s, w)
             | Some h \<Rightarrow>
                 if copy16 h 0 = p_checksum p then (True, s, stat FF_SKIP_LAYOUT w)
                 else (False, s, w)))"

definition request_plan :: "ff_request \<Rightarrow> u32" where
  "request_plan r = drop_bit FF_TEMPLATE_VARIANT_BITS (rq_variant r) AND (FF_TEMPLATE_PLAN_COUNT - 1)"

definition request_template_key :: "ff_request \<Rightarrow> u32" where
  "request_template_key r =
     FF_TEMPLATE_KEY (rq_config_gen r) (request_plan r) (rq_variant r AND (FF_TEMPLATE_VARIANTS - 1))"

section \<open>The headers of the fake\<close>

text \<open>\<open>None\<close> is the refusal of a PPPoE header in an impossible place.\<close>

definition build_eth :: "ff_request \<Rightarrow> packet \<Rightarrow> u32 \<Rightarrow> u8 list \<Rightarrow> u8 list option" where
  "build_eth r p transport eth =
     (let eth = (if rq_reverse r \<and> p_l3 p \<noteq> 0
                 then blit 6 (take 6 (p_eth p)) (blit 0 (take 6 (drop 6 (p_eth p))) eth) else eth);
          len = iplen p + transport + 2;
          at = unat (p_l3 p - 4)
      in if k_session (p_key p) = 0 then Some eth
         else if p_l3 p < 8 \<or> 30 < p_l3 p then None
         else Some (eth[at := ucast (drop_bit 8 len), at + 1 := ucast len]))"

definition build_ip :: "'e kern \<Rightarrow> ff_request \<Rightarrow> packet \<Rightarrow> u32 \<Rightarrow> u8 list \<Rightarrow> u8 list" where
  "build_ip K r p transport ip =
     (if k_family (p_key p) = 4 then
        let ip = blit 16 (take 4 (k_remote (p_key p))) (blit 12 (take 4 (k_local (p_key p))) ip);
            ip = (if p_first_fragment p then write16 ip 6 0 else ip);
            ip = write16 ip 2 (ucast (iplen p + transport));
            ip = ip[8 := ucast (rq_ttl r), 10 := 0, 11 := 0]
        in blit 10 (bytes16 (fold_checksum (csum_diff K [] ip 0))) ip
      else
        let ip = blit 24 (k_remote (p_key p)) (blit 8 (k_local (p_key p)) ip);
            ip = (write16 ip 4 (ucast transport))[7 := ucast (rq_ttl r)]
        in if p_fragment_header p then ip[6 := 17] else ip)"

definition build_th :: "ff_request \<Rightarrow> packet \<Rightarrow> u32 \<Rightarrow> u8 list" where
  "build_th r p transport =
     (let th = write16 (write16 (replicate 20 0) 0 (k_local_port (p_key p))) 2 (k_remote_port (p_key p)) in
      if k_protocol (p_key p) = 6 then
        let th = write32 th 4 (if rq_reverse r then p_ack p else p_seq p + 1);
            th = write32 th 8 (if rq_reverse r then p_seq p + 1 else p_ack p);
            th = write16 (th[12 := 0x50, 13 := 0x18]) 14 128
        in blit 16 (bytes16 (p_checksum p)) th
      else
        let th = write16 th 4 (ucast transport)
        in if fresh p then th else blit 6 (bytes16 (p_checksum p)) th)"

section \<open>Checksum deltas\<close>

text \<open>The sum of the payload's 80-byte chunks on top of the header's, from chunk \<open>i\<close> on.\<close>

fun payload_sum :: "'e kern \<Rightarrow> ff_template \<Rightarrow> nat \<Rightarrow> nat \<Rightarrow> u32 \<Rightarrow> u32 option" where
  "payload_sum K t i 0 acc = Some acc"
| "payload_sum K t i (Suc k) acc =
     (if unat (t_len t) \<le> i * 80 then Some acc
      else if 1120 < i * 80 then None
      else
        let part = csum_diff K [] (take 80 (drop (i * 80) (t_data t))) acc in
        if sint part < 0 then None else payload_sum K t (i + 1) k (ucast part))"

definition data_delta :: "u32 \<Rightarrow> u32 \<Rightarrow> u64" where
  "data_delta oldsum newsum =
     (let delta = ucast (NOT oldsum) + ucast newsum :: u64 in (delta AND 0xffffffff) + drop_bit 32 delta)"

definition pseudo_sum :: "'e kern \<Rightarrow> packet \<Rightarrow> u32 \<Rightarrow> u8 list \<Rightarrow> u32" where
  "pseudo_sum K p transport ip =
     (if k_family (p_key p) = 4
      then ucast (csum_diff K [] (take 12 (write16
             ((blit 0 (take 8 (drop 12 ip)) (replicate 64 0))[9 := 17]) 10 (ucast transport))) 0)
      else ucast (csum_diff K [] (take 40
             ((write32 (blit 0 (take 32 (drop 8 ip)) (replicate 64 0)) 32 transport)[39 := 17])) 0))"

section \<open>The writes\<close>

text \<open>\<open>if(f) return -1; if(g) return -1; ...\<close>: calls in order up to the first that fails.\<close>

fun in_order :: "(skb \<Rightarrow> bool \<times> skb) list \<Rightarrow> skb \<Rightarrow> bool \<times> skb" where
  "in_order [] s = (False, s)"
| "in_order (f # fs) s = (case f s of (err, s) \<Rightarrow> if err then (True, s) else in_order fs s)"

text \<open>
  1 is \<open>BPF_F_RECOMPUTE_CSUM\<close>, 16 is \<open>BPF_F_PSEUDO_HDR\<close>, 32 is \<open>BPF_F_MARK_MANGLED_0\<close>.
\<close>

definition write_calls ::
  "'e kern \<Rightarrow> packet \<Rightarrow> ff_template \<Rightarrow> u8 list \<Rightarrow> u8 list \<Rightarrow> u8 list \<Rightarrow> u64 \<Rightarrow> u32 \<Rightarrow> (skb \<Rightarrow> bool \<times> skb) list" where
  "write_calls K p t eth ip th delta pseudo =
     (let transport = thlen p + t_len t;
          output_l4 = p_l3 p + iplen p;
          cs = output_l4 + (if k_protocol (p_key p) = 6 then 16 else 6);
          flags = (if k_protocol (p_key p) = 17 then 32 else 0) :: u64
      in
      [\<lambda>s. skb_change_tail K s (p_l3 p + iplen p + transport)] @
      (if p_l3 p \<noteq> 0
       then (\<lambda>s. skb_store_bytes K s 0 (take 14 eth) 1) #
            map (\<lambda>off s. skb_store_bytes K s (of_nat off) (take 4 (drop off eth)) 1)
              (filter (\<lambda>off. of_nat (off + 4) \<le> p_l3 p) [14, 18, 22, 26])
       else []) @
      [\<lambda>s. skb_store_bytes K s (p_l3 p) (take (unat (iplen p)) ip) 1,
       \<lambda>s. skb_store_bytes K s output_l4 (take (unat (thlen p)) th) 1,
       store_payload K (output_l4 + thlen p) (t_data t) (ucast (t_len t)),
       \<lambda>s. l4_csum_replace K s cs 0 delta flags,
       \<lambda>s. if fresh p then l4_csum_replace K s cs 0 (ucast pseudo) (16 OR flags)
           else l4_csum_replace K s cs (ucast (htonl (p_end p - p_l4 p))) (ucast (htonl transport))
                  (4 OR 16 OR flags)])"

section \<open>Building\<close>

text \<open>
  What the builder reads of the clone before it changes it: the sum of the segment that is to
  be replaced (of no use when the checksum is computed afresh), the first 32 bytes, and the
  network header in a buffer of 40 bytes.
\<close>

definition read_clone :: "'e kern \<Rightarrow> packet \<Rightarrow> skb \<Rightarrow> (u32 \<times> u8 list \<times> u8 list) option" where
  "read_clone K p s =
     (case (if fresh p then Some 0 else old_sum K s p 0 64 0) of
        None \<Rightarrow> None
      | Some oldsum \<Rightarrow>
     (case (if p_l3 p \<noteq> 0 then map_option (\<lambda>h. bytes_of h 0 32) (skb_load_bytes K s 0 32)
            else Some (replicate 32 0)) of
        None \<Rightarrow> None
      | Some eth \<Rightarrow>
     (case skb_load_bytes K s (p_l3 p) (unat (iplen p)) of
        None \<Rightarrow> None
      | Some h \<Rightarrow> Some (oldsum, eth, bytes_of h 0 (unat (iplen p)) @ replicate (40 - unat (iplen p)) 0))))"

text \<open>The transport header as it is stored: a fresh checksum starts from ones'-complement zero.\<close>

definition final_th :: "packet \<Rightarrow> u8 list \<Rightarrow> u8 list" where
  "final_th p th = (if fresh p then th[6 := 0xff, 7 := 0xff] else th)"

text \<open>The writes, with the checksum deltas they end in; \<open>True\<close> is the return value -1.\<close>

definition write_fake ::
  "'e kern \<Rightarrow> packet \<Rightarrow> ff_template \<Rightarrow> u8 list \<Rightarrow> u8 list \<Rightarrow> u8 list \<Rightarrow> u32 \<Rightarrow> u32 \<Rightarrow> skb \<Rightarrow> bool \<times> skb" where
  "write_fake K p t eth ip th oldsum newsum s =
     (let delta = (if fresh p then ucast newsum else data_delta oldsum newsum);
          pseudo = (if fresh p then pseudo_sum K p (thlen p + t_len t) ip else 0)
      in
      case in_order (write_calls K p t eth ip (final_th p th) delta pseudo) s of
        (err, s) \<Rightarrow> if err then (True, s) else (False, csum_level_reset K s))"

definition build_fake ::
  "'e kern \<Rightarrow> ff_request \<Rightarrow> packet \<Rightarrow> ff_template \<Rightarrow> skb \<Rightarrow> bool \<times> skb" where
  "build_fake K r p t s =
     (let transport = thlen p + t_len t in
      case read_clone K p s of
        None \<Rightarrow> (True, s)
      | Some (oldsum, eth, ip) \<Rightarrow>
     (case build_eth r p transport eth of
        None \<Rightarrow> (True, s)
      | Some eth \<Rightarrow>
          let ip = build_ip K r p transport ip; th = build_th r p transport in
         (case payload_sum K t 0 15 (ucast (csum_diff K [] th 0)) of
            None \<Rightarrow> (True, s)
          | Some newsum \<Rightarrow> write_fake K p t eth ip th oldsum newsum s)))"

definition build ::
  "'e kern \<Rightarrow> ff_request \<Rightarrow> ff_interface \<Rightarrow> skb \<times> 'e world \<Rightarrow> bool \<times> skb \<times> 'e world" where
  "build K r iface = (\<lambda>(s, w).
     case parse K s iface (rq_reverse r) w of
       (None, w) \<Rightarrow> (True, s, w)
     | (Some p, w) \<Rightarrow>
      (case probe_checksum K p (s, w) of (err, s, w) \<Rightarrow>
       if err then (True, s, w)
       else
        (case m_templates w (request_template_key r) of
           None \<Rightarrow> (True, s, w)
         | Some t \<Rightarrow>
             if 30 < p_l3 p \<or> t_len t = 0 \<or> of_nat FF_PAYLOAD_MAX < t_len t then (True, s, w)
             else if i_mtu iface < iplen p + (thlen p + t_len t) then (True, s, stat FF_SKIP_MTU w)
             else (case build_fake K r p t s of (err, s) \<Rightarrow> (err, s, w)))))"

section \<open>The program\<close>

definition request_id :: "skb \<Rightarrow> u64" where
  "request_id s = push_bit 32 (ucast (sk_cb1 s)) OR ucast (sk_cb0 s)"

text \<open>\<open>__sync_val_compare_and_swap\<close> on a request's state, and a plain store to it.\<close>

definition cas_state :: "u64 \<Rightarrow> u32 \<Rightarrow> u32 \<Rightarrow> 'e world \<Rightarrow> bool \<times> 'e world" where
  "cas_state i old new w =
     (case m_requests w i of
        None \<Rightarrow> (False, w)
      | Some r \<Rightarrow>
          if rq_state r = old then (True, w\<lparr>m_requests := (m_requests w)(i \<mapsto> r\<lparr>rq_state := new\<rparr>)\<rparr>)
          else (False, w))"

definition set_state :: "u64 \<Rightarrow> u32 \<Rightarrow> 'e world \<Rightarrow> 'e world" where
  "set_state i new w =
     (case m_requests w i of
        None \<Rightarrow> w
      | Some r \<Rightarrow> w\<lparr>m_requests := (m_requests w)(i \<mapsto> r\<lparr>rq_state := new\<rparr>)\<rparr>)"

text \<open>The request under the clone's number, if it is there, not expired and the lease is alive.\<close>

definition valid_request :: "u64 \<Rightarrow> u64 \<Rightarrow> 'e world \<Rightarrow> ff_request option \<times> 'e world" where
  "valid_request i now w =
     (case m_requests w i of
        None \<Rightarrow> (None, w)
      | Some r \<Rightarrow>
          if rq_expires r < now then (None, w)
          else (case alive now w of (live, w) \<Rightarrow> (if live then Some r else None, w)))"

text \<open>What is left once the request is claimed: build, and redirect unless the lease has ended.\<close>

definition build_claimed ::
  "'e kern \<Rightarrow> ff_request \<Rightarrow> ff_interface \<Rightarrow> skb \<times> 'e world \<Rightarrow> verdict \<times> skb \<times> 'e world" where
  "build_claimed K r iface = (\<lambda>(s, w).
     case build K r iface (s, w) of (err, s', w) \<Rightarrow>
       if err then (TC_ACT_SHOT, s', stat FF_BUILD_FAILED w)
       else
        (case ktime K w of (now, w) \<Rightarrow>
         case alive now w of (live, w) \<Rightarrow>
           if \<not> live then (TC_ACT_SHOT, s', w)
           else (TC_ACT_REDIRECT (rq_ifindex r), s',
                 set_state (request_id s) 2 (stat FF_BUILD_OK w))))"

definition ff_builder :: "'e kern \<Rightarrow> skb \<times> 'e world \<Rightarrow> verdict \<times> skb \<times> 'e world" where
  "ff_builder K = (\<lambda>(s, w).
     case ktime K w of (now, w) \<Rightarrow>
    (case valid_request (request_id s) now w of
       (None, w) \<Rightarrow> (TC_ACT_SHOT, s, stat FF_REQUEST_EXPIRED w)
     | (Some r, w) \<Rightarrow>
      (case m_interfaces w (rq_ifindex r) of
         None \<Rightarrow> (TC_ACT_SHOT, s, w)
       | Some iface \<Rightarrow>
           if i_generation iface \<noteq> rq_ifgen r \<or> i_builder iface \<noteq> sk_ifindex s then (TC_ACT_SHOT, s, w)
           else
            (case cas_state (request_id s) 0 1 w of (won, w) \<Rightarrow>
             if \<not> won then (TC_ACT_SHOT, s, w)
             else build_claimed K r iface (s, w)))))"

definition ff_drop :: "skb \<times> 'e world \<Rightarrow> verdict \<times> skb \<times> 'e world" where
  "ff_drop = (\<lambda>(s, w). (TC_ACT_SHOT, s, w))"

section \<open>Claiming and spending a request\<close>

lemma cas_state_cases:
  assumes "cas_state i old new w = (won, w')"
  obtains (won) r where "won" "m_requests w i = Some r" "rq_state r = old"
      "w' = w\<lparr>m_requests := (m_requests w)(i \<mapsto> r\<lparr>rq_state := new\<rparr>)\<rparr>"
  | (lost) "\<not> won" "w' = w" "\<forall>r. m_requests w i = Some r \<longrightarrow> rq_state r \<noteq> old"
  using assms by (auto simp: cas_state_def split: option.splits if_splits)

lemma valid_request_cases:
  assumes "valid_request i now w = (r, w')"
  shows "m_requests w' = m_requests w" and "m_interfaces w' = m_interfaces w"
    and "r = Some r0 \<Longrightarrow> m_requests w i = Some r0 \<and> now \<le> rq_expires r0 \<and>
      (\<exists>l. m_leases w 0 = Some l \<and> now < le_until l)"
proof -
  obtain live w1 where al: "alive now w = (live, w1)" by fastforce
  have fr: "m_requests w1 = m_requests w" "m_interfaces w1 = m_interfaces w"
    using alive_frame [of now w] by (simp_all add: al)
  have li: "live \<longleftrightarrow> (\<exists>l. m_leases w 0 = Some l \<and> now < le_until l)"
    using alive_iff [of now w] by (simp add: al)
  show "m_requests w' = m_requests w" "m_interfaces w' = m_interfaces w"
    "r = Some r0 \<Longrightarrow> m_requests w i = Some r0 \<and> now \<le> rq_expires r0 \<and> (\<exists>l. m_leases w 0 = Some l \<and> now < le_until l)"
    using assms fr li by (auto simp: valid_request_def al not_less split: option.splits if_splits)
qed

lemma parse_frame:
  "parse K s iface ing w = (p, w') \<Longrightarrow> (w' = w \<or> (\<exists>e. w' = stat e w)) \<and> (\<forall>q. p = Some q \<longrightarrow> w' = w \<and> parse_packet K s iface ing = Inr q)"
  by (auto simp: parse_def split: sum.splits)

lemma build_frame:
  assumes "build K r iface (s, w) = (err, s', w')"
  shows "w' = w \<or> (\<exists>e. w' = stat e w)"
proof -
  obtain p w1 where p: "parse K s iface (rq_reverse r) w = (p, w1)" by fastforce
  show ?thesis
  proof (cases p)
    case None
    then show ?thesis using assms parse_frame [OF p] p by (auto simp: build_def)
  next
    case (Some q)
    then have w1: "w1 = w" using parse_frame [OF p] by simp
    obtain e s2 w2 where pr: "probe_checksum K q (s, w1) = (e, s2, w2)" by (metis prod_cases3)
    have w2: "e \<Longrightarrow> w2 = w \<or> (\<exists>i. w2 = stat i w)" "\<not> e \<Longrightarrow> w2 = w"
      using pr w1 by (auto simp: probe_checksum_def split: if_splits option.splits prod.splits)
    show ?thesis
      using assms p Some pr w2
      by (auto simp: build_def split: if_splits option.splits prod.splits)
  qed
qed

lemma stat_requests: "w' = w \<or> (\<exists>e. w' = stat e w) \<Longrightarrow>
   m_requests w' = m_requests w \<and> m_interfaces w' = m_interfaces w \<and> m_leases w' = m_leases w \<and> m_sequence w' = m_sequence w"
  by auto

section \<open>What the builder does to the requests\<close>

text \<open>
  The builder refuses a clone without a claimable request, claims the request and drops the
  clone (state 1), or claims it, builds and redirects (state 2).
\<close>

lemma ktime_frameD:
  "ktime K w = (t, w') \<Longrightarrow> m_requests w' = m_requests w \<and> m_interfaces w' = m_interfaces w \<and>
     m_leases w' = m_leases w \<and> m_sequence w' = m_sequence w \<and> t = fst (ktime K w) \<and>
     m_configs w' = m_configs w \<and> m_templates w' = m_templates w \<and> m_active_config w' = m_active_config w"
  using ktime_frame [of K w] by (metis fst_conv snd_conv)

lemma alive_frameD:
  assumes "alive t w = (l, w')"
  shows "m_requests w' = m_requests w \<and> m_interfaces w' = m_interfaces w \<and> m_sequence w' = m_sequence w \<and>
    m_configs w' = m_configs w \<and> m_templates w' = m_templates w \<and> m_active_config w' = m_active_config w"
proof -
  have "w' = snd (alive t w)" using assms by simp
  then show ?thesis by simp
qed

lemma valid_request_sequence:
  assumes "valid_request i now w = (r, w')"
  shows "m_sequence w' = m_sequence w"
proof -
  obtain live w1 where al: "alive now w = (live, w1)" by fastforce
  have "m_sequence w1 = m_sequence w" using alive_frame(9) [of now w] by (simp add: al)
  then show ?thesis using assms by (auto simp: valid_request_def al split: option.splits if_splits)
qed

lemma build_claimed_cases:
  assumes "build_claimed K r iface (s, w) = (v, s', w')" and "m_requests w (request_id s) = Some q"
  obtains (dropped) "v = TC_ACT_SHOT" "m_requests w' = m_requests w"
      "m_interfaces w' = m_interfaces w" "m_sequence w' = m_sequence w"
  | (built) w1 where "v = TC_ACT_REDIRECT (rq_ifindex r)" "build K r iface (s, w) = (False, s', w1)"
      "m_requests w' = (m_requests w)(request_id s \<mapsto> q\<lparr>rq_state := 2\<rparr>)"
      "m_interfaces w' = m_interfaces w" "m_sequence w' = m_sequence w"
proof -
  obtain err s1 w1 where b: "build K r iface (s, w) = (err, s1, w1)" by (metis prod_cases3)
  note f1 = stat_requests [OF build_frame [OF b]]
  obtain t w2 where kt: "ktime K w1 = (t, w2)" by fastforce
  obtain live w3 where al: "alive t w2 = (live, w3)" by fastforce
  have f3: "m_requests w3 = m_requests w1" "m_interfaces w3 = m_interfaces w1" "m_sequence w3 = m_sequence w1"
    using alive_frameD [OF al] ktime_frameD [OF kt] by simp_all
  consider "err" "(v, s', w') = (TC_ACT_SHOT, s1, stat FF_BUILD_FAILED w1)"
    | "\<not> err" "\<not> live" "(v, s', w') = (TC_ACT_SHOT, s1, w3)"
    | "\<not> err" "live" "(v, s', w') = (TC_ACT_REDIRECT (rq_ifindex r), s1, set_state (request_id s) 2 (stat FF_BUILD_OK w3))"
    using assms(1) by (cases err; cases live) (simp_all add: build_claimed_def b kt al)
  then show ?thesis
  proof cases
    case 1
    then show ?thesis using f1 by (intro dropped) simp_all
  next
    case 2
    then show ?thesis using f1 f3 by (intro dropped) simp_all
  next
    case 3
    then show ?thesis using f1 f3 b assms(2) by (intro built [of w1]) (simp_all add: set_state_def)
  qed
qed

lemma ff_builder_cases:
  assumes "ff_builder K (s, w) = (v, s', w')"
  obtains (refused) "v = TC_ACT_SHOT" "s' = s" "m_requests w' = m_requests w"
      "m_interfaces w' = m_interfaces w" "m_sequence w' = m_sequence w"
  | (claimed) r iface w1 where "m_requests w (request_id s) = Some r" "rq_state r = 0"
      "fst (ktime K w) \<le> rq_expires r" "\<exists>l. m_leases w 0 = Some l \<and> fst (ktime K w) < le_until l"
      "m_interfaces w (rq_ifindex r) = Some iface"
      "i_generation iface = rq_ifgen r" "i_builder iface = sk_ifindex s"
      "m_requests w1 = (m_requests w)(request_id s \<mapsto> r\<lparr>rq_state := 1\<rparr>)"
      "m_interfaces w1 = m_interfaces w" "m_sequence w1 = m_sequence w"
      "build_claimed K r iface (s, w1) = (v, s', w')"
proof -
  obtain now w1 where kt: "ktime K w = (now, w1)" by fastforce
  note f1 = ktime_frameD [OF kt]
  obtain rr w2 where vr: "valid_request (request_id s) now w1 = (rr, w2)" by fastforce
  have f2: "m_requests w2 = m_requests w" "m_interfaces w2 = m_interfaces w" "m_sequence w2 = m_sequence w"
    using valid_request_cases(1,2) [OF vr] valid_request_sequence [OF vr] f1 by simp_all
  show ?thesis
  proof (cases rr)
    case None
    then have "(v, s', w') = (TC_ACT_SHOT, s, stat FF_REQUEST_EXPIRED w2)" using assms kt vr by (simp add: ff_builder_def)
    then show ?thesis using f2 by (intro refused) simp_all
  next
    case (Some r)
    from valid_request_cases(3) [OF vr Some] f1 have r: "m_requests w (request_id s) = Some r" "now \<le> rq_expires r"
      "\<exists>l. m_leases w 0 = Some l \<and> now < le_until l" by simp_all
    obtain won w3 where cas: "cas_state (request_id s) 0 1 w2 = (won, w3)" by fastforce
    consider "(v, s', w') = (TC_ACT_SHOT, s, w2)"
      | "\<not> won" "(v, s', w') = (TC_ACT_SHOT, s, w3)"
      | iface where "won" "m_interfaces w (rq_ifindex r) = Some iface" "i_generation iface = rq_ifgen r"
        "i_builder iface = sk_ifindex s" "(v, s', w') = build_claimed K r iface (s, w3)"
      using assms by (cases "m_interfaces w (rq_ifindex r)"; cases won)
        (simp_all add: ff_builder_def kt vr Some f2 cas split: if_splits)
    then show ?thesis
    proof cases
      case 1
      then show ?thesis using f2 by (intro refused) simp_all
    next
      case 2
      with cas have "w3 = w2" by (auto elim: cas_state_cases)
      with 2 show ?thesis using f2 by (intro refused) simp_all
    next
      case 3
      from cas show ?thesis
      proof (cases rule: cas_state_cases)
        case (won q)
        with r f2 have "q = r" by simp
        with won 3 r f1 f2 show ?thesis by (intro claimed [of r iface w3]) simp_all
      next
        case lost
        with 3 show ?thesis by simp
      qed
    qed
  qed
qed

section \<open>Control block and device of the clone\<close>

text \<open>The helpers that change packet bytes leave the control block and the device alone.\<close>

definition same_control :: "skb \<Rightarrow> skb \<Rightarrow> bool" where
  "same_control s s' \<longleftrightarrow> sk_cb0 s' = sk_cb0 s \<and> sk_cb1 s' = sk_cb1 s \<and> sk_ifindex s' = sk_ifindex s"

definition keeps_control :: "'e kern \<Rightarrow> bool" where
  "keeps_control K \<longleftrightarrow>
     (\<forall>s off ys fl. same_control s (snd (skb_store_bytes K s off ys fl))) \<and>
     (\<forall>s off a b fl. same_control s (snd (l4_csum_replace K s off a b fl))) \<and>
     (\<forall>s n. same_control s (snd (skb_change_tail K s n))) \<and>
     (\<forall>s. same_control s (csum_level_reset K s))"

lemma list_kern_control [simp, intro]: "keeps_control list_kern"
  by (auto simp: keeps_control_def list_kern_def same_control_def Let_def)

lemma same_control_refl [simp]: "same_control s s"
  by (simp add: same_control_def)

lemma same_control_trans: "same_control a b \<Longrightarrow> same_control b c \<Longrightarrow> same_control a c"
  by (simp add: same_control_def)

lemma same_control_id: "same_control s s' \<Longrightarrow> request_id s' = request_id s \<and> sk_ifindex s' = sk_ifindex s"
  by (simp add: same_control_def request_id_def)

lemma keeps_controlD:
  assumes "keeps_control K"
  shows "same_control s (snd (skb_store_bytes K s off ys fl))"
    and "same_control s (snd (l4_csum_replace K s off a b fl))"
    and "same_control s (snd (skb_change_tail K s n))"
    and "same_control s (csum_level_reset K s)"
  using assms unfolding keeps_control_def by blast+

lemma in_order_control:
  "\<forall>f \<in> set fs. \<forall>s. same_control s (snd (f s)) \<Longrightarrow> same_control s (snd (in_order fs s))"
proof (induction fs arbitrary: s)
  case (Cons f fs)
  from Cons.prems have f: "same_control s (snd (f s))" by simp
  from Cons.prems have "same_control (snd (f s)) (snd (in_order fs (snd (f s))))" by (intro Cons.IH) simp
  with f show ?case by (auto split: prod.split intro: same_control_trans)
qed simp

lemma write_calls_control:
  assumes "keeps_control K" and "f \<in> set (write_calls K p t eth ip th delta pseudo)"
  shows "same_control s (snd (f s))"
  using assms(2) keeps_controlD [OF assms(1)]
  by (auto simp: write_calls_def Let_def store_payload_def split: if_splits)

lemma write_fake_cases:
  assumes "write_fake K p t eth ip th oldsum newsum s = (err, s')"
  obtains delta pseudo s1 where "in_order (write_calls K p t eth ip (final_th p th) delta pseudo) s = (err, s1)"
    and "s' = (if err then s1 else csum_level_reset K s1)"
  using assms by (auto simp: write_fake_def Let_def split: prod.splits if_splits)

lemma write_fake_control:
  assumes "keeps_control K" and "write_fake K p t eth ip th oldsum newsum s = (err, s')"
  shows "same_control s s'"
  using assms(2)
proof (rule write_fake_cases)
  fix delta pseudo s1
  assume io: "in_order (write_calls K p t eth ip (final_th p th) delta pseudo) s = (err, s1)"
    and s': "s' = (if err then s1 else csum_level_reset K s1)"
  have "same_control s (snd (in_order (write_calls K p t eth ip (final_th p th) delta pseudo) s))"
    using assms(1) by (intro in_order_control ballI allI) (rule write_calls_control)
  then have "same_control s s1" by (simp add: io)
  with s' same_control_trans [OF this keeps_controlD(4) [OF assms(1)]] show ?thesis by simp
qed

lemma build_fake_cases:
  assumes "build_fake K r p t s = (err, s')"
  obtains (refused) "err" "s' = s"
  | (written) oldsum eth0 ip eth newsum where "read_clone K p s = Some (oldsum, eth0, ip)"
      "build_eth r p (thlen p + t_len t) eth0 = Some eth"
      "write_fake K p t eth (build_ip K r p (thlen p + t_len t) ip) (build_th r p (thlen p + t_len t)) oldsum newsum s = (err, s')"
proof (cases "read_clone K p s")
  case None
  with assms show ?thesis by (intro refused) (simp_all add: build_fake_def Let_def)
next
  case (Some c)
  obtain oldsum eth0 ip where c: "c = (oldsum, eth0, ip)" by (metis prod_cases3)
  let ?tr = "thlen p + t_len t"
  show ?thesis
  proof (cases "build_eth r p ?tr eth0")
    case None
    with assms Some c show ?thesis by (intro refused) (simp_all add: build_fake_def Let_def)
  next
    case eth: (Some eth)
    show ?thesis
    proof (cases "payload_sum K t 0 15 (ucast (csum_diff K [] (build_th r p ?tr) 0))")
      case None
      with assms Some c eth show ?thesis by (intro refused) (simp_all add: build_fake_def Let_def)
    next
      case (Some newsum)
      with assms \<open>read_clone K p s = Some c\<close> c eth show ?thesis
        by (intro written [of oldsum eth0 ip eth newsum]) (simp_all add: build_fake_def Let_def)
    qed
  qed
qed

lemma build_fake_control:
  assumes "keeps_control K" and "build_fake K r p t s = (err, s')"
  shows "same_control s s'"
  using assms(2)
proof (cases rule: build_fake_cases)
  case (written oldsum eth0 ip eth newsum)
  show ?thesis by (rule write_fake_control [OF assms(1) written(3)])
qed simp

lemma build_control:
  assumes "keeps_control K" and "build K r iface (s, w) = (err, s', w')"
  shows "same_control s s'"
proof -
  obtain p w1 where p: "parse K s iface (rq_reverse r) w = (p, w1)" by fastforce
  show ?thesis
  proof (cases p)
    case None
    then show ?thesis using assms(2) p by (auto simp: build_def)
  next
    case (Some q)
    obtain e s2 w2 where pr: "probe_checksum K q (s, w1) = (e, s2, w2)" by (metis prod_cases3)
    have s2: "same_control s s2"
      using pr keeps_controlD(2) [OF assms(1), of s "p_l4 q + 6" 0 1 0]
      by (auto simp: probe_checksum_def split: if_splits option.splits prod.splits)
    have "s' = s2 \<or> (\<exists>t e'. build_fake K r q t s2 = (e', s'))"
      using assms(2) p Some pr
      by (auto simp: build_def split: if_splits option.splits prod.splits)
    then show ?thesis using s2 build_fake_control [OF assms(1)] by (auto intro: same_control_trans)
  qed
qed

section \<open>The checksum fold\<close>

lemma unat_and_numeral_mask:
  fixes x :: u64
  shows "unat (x AND 0xffff) = unat x mod 65536" "unat (x AND 0xffffffff) = unat x mod 4294967296"
proof -
  have m: "mask 16 = (0xffff :: u64)" "mask 32 = (0xffffffff :: u64)"
    by (simp_all add: mask_eq_exp_minus_1)
  show "unat (x AND 0xffff) = unat x mod 65536" "unat (x AND 0xffffffff) = unat x mod 4294967296"
    using unat_and_mask [of x 16, unfolded m] unat_and_mask [of x 32, unfolded m] by simp_all
qed

lemma unat_drop_bit: "unat (drop_bit n (x :: 'a::len word)) = unat x div 2 ^ n"
  by (simp add: unsigned_drop_bit_eq take_bit_nat_eq_self_iff) (simp add: drop_bit_eq_div take_bit_nat_eq_self)

lemma fold16_split: "fold16 n = fold16 (n mod 65536 + n div 65536)"
proof (cases "n = 0")
  case False
  let ?a = "n div 65536" and ?b = "n mod 65536"
  have n: "n = 65535 * ?a + (?a + ?b)" by simp
  from False have pos: "0 < ?a + ?b" by (metis add_is_0 div_mult_mod_eq gr0I mult_0)
  then have "n - 1 = 65535 * ?a + (?a + ?b - 1)" using n by linarith
  then have "(n - 1) mod 65535 = (?a + ?b - 1) mod 65535" by (metis mod_mult_self4)
  then show ?thesis using False pos by (simp add: fold16_def add.commute)
qed simp

lemma fold16_id: "n \<le> 65535 \<Longrightarrow> fold16 n = n"
  by (simp add: fold16_def)

lemma ucast_not_u16: "unat x \<le> 65535 \<Longrightarrow> unat (ucast (NOT (x :: u64)) :: u16) = 65535 - unat x"
proof -
  assume x: "unat x \<le> 65535"
  have "ucast (NOT x) = NOT (ucast x :: u16)" by (rule bit_word_eqI) (simp add: bit_simps)
  also have "\<dots> = 65535 - ucast x"
  proof -
    have "(65535 :: u16) = - 1" by simp
    then show ?thesis by (simp only: not_eq_complement) simp
  qed
  finally have "unat (ucast (NOT x) :: u16) = unat ((65535 :: u16) - ucast x)" by simp
  moreover have u: "unat (ucast x :: u16) = unat x" using x by (simp add: unsigned_ucast_eq take_bit_nat_eq_self_iff)
  moreover have "(ucast x :: u16) \<le> 65535" using x u by (simp add: word_le_nat_alt)
  ultimately show ?thesis by (simp add: unat_sub_small)
qed

lemma fold_checksum_fold16:
  assumes "n \<le> 0xffffffff"
  shows "unat (fold_checksum n) = 65535 - fold16 (unat n)"
proof -
  have n: "unat n \<le> 4294967295" using assms by (simp add: word_le_nat_alt)
  define a where "a = (n AND 0xffffffff) + drop_bit 32 n"
  define b where "b = (a AND 0xffff) + drop_bit 16 a"
  define c where "c = (b AND 0xffff) + drop_bit 16 b"
  have a: "unat a = unat n"
    using n unfolding a_def by (subst unat_add_small) (simp_all add: unat_and_numeral_mask unat_drop_bit)
  have b: "unat b = unat n mod 65536 + unat n div 65536"
    using n a unfolding b_def by (subst unat_add_small) (simp_all add: unat_and_numeral_mask unat_drop_bit)
  then have b_le: "unat b \<le> 131070" using n by linarith
  have c: "unat c = unat b mod 65536 + unat b div 65536"
    using b_le unfolding c_def by (subst unat_add_small) (simp_all add: unat_and_numeral_mask unat_drop_bit)
  have c_le: "unat c \<le> 65535"
  proof (cases "unat b < 65536")
    case False
    then have "unat b div 65536 = 1" "unat b mod 65536 = unat b - 65536"
      using b_le by (simp_all add: div_nat_eqI mod_if)
    with c b_le show ?thesis by simp
  qed (use c in simp)
  have "fold16 (unat n) = fold16 (unat c)"
    using fold16_split [of "unat n"] fold16_split [of "unat b"] b c by simp
  then have "fold16 (unat n) = unat c" using c_le by (simp add: fold16_id)
  moreover have "fold_checksum n = ucast (NOT c)"
    by (simp add: fold_checksum_def a_def b_def c_def Let_def)
  ultimately show ?thesis using ucast_not_u16 [OF c_le] by simp
qed

end
