(* ===== verification/Fake.thy ===== *)
theory Fake
  imports Builder
begin

text \<open>
  What the builder of \<open>ebpf/bpf/builder.bpf.c\<close> produces: the words that name its template, the
  header checksum, and the bytes of the finished datagram.
\<close>

section \<open>Words that travel between the programs\<close>

lemma small_bits:
  fixes x :: "'a::len word"
  assumes "unat x < 2 ^ n" and "bit x i"
  shows "i < n"
proof -
  have "take_bit n (unat x) = unat x" using assms(1) by (simp add: take_bit_nat_eq_self_iff)
  moreover have "bit (unat x) i" using assms(2) by (simp add: bit_unsigned_iff bit_imp_le_length)
  ultimately show ?thesis by (metis bit_take_bit_iff)
qed

lemma request_word:
  assumes "plan < 4" and "variant < 32"
  shows "drop_bit 5 (push_bit 5 plan OR variant) AND 3 = (plan :: u32)"
    and "(push_bit 5 plan OR variant) AND 31 = (variant :: u32)" and "plan AND 3 = plan"
proof -
  have p: "bit plan i \<Longrightarrow> i < 2" for i using small_bits [of plan 2 i] assms by (simp add: word_less_nat_alt)
  have v: "bit variant i \<Longrightarrow> i < 5" for i using small_bits [of variant 5 i] assms by (simp add: word_less_nat_alt)
  have m: "(3 :: u32) = mask 2" "(31 :: u32) = mask 5" by (simp_all add: mask_eq_exp_minus_1)
  show "plan AND 3 = plan"
    unfolding m by (rule bit_word_eqI) (auto simp: bit_simps dest: p)
  show "drop_bit 5 (push_bit 5 plan OR variant) AND 3 = plan"
    unfolding m by (rule bit_word_eqI) (auto simp: bit_simps dest: p v)
  show "(push_bit 5 plan OR variant) AND 31 = variant"
    unfolding m by (rule bit_word_eqI) (auto simp: bit_simps dest: p v)
qed

lemma emit_word:
  assumes "plan < 4"
  shows "FF_EMIT_META ttl plan AND 0xff = ttl AND 0xff"
    and "drop_bit 8 (FF_EMIT_META ttl plan) AND 3 = plan"
proof -
  have p: "bit plan i \<Longrightarrow> i < 2" for i using small_bits [of plan 2 i] assms by (simp add: word_less_nat_alt)
  have m: "(3 :: u32) = mask 2" "(0xff :: u32) = mask 8" by (simp_all add: mask_eq_exp_minus_1)
  show "FF_EMIT_META ttl plan AND 0xff = ttl AND 0xff"
    unfolding FF_EMIT_META_def by (simp add: m) (rule bit_word_eqI, auto simp: bit_simps)
  show "drop_bit 8 (FF_EMIT_META ttl plan) AND 3 = plan"
    unfolding FF_EMIT_META_def by (simp add: m) (rule bit_word_eqI, auto simp: bit_simps dest: p)
qed

text \<open>The key of a template as a number: no generation below the bound wraps around.\<close>

definition last_generation :: u32 where "last_generation = 0xffffffff div 128"

lemma key_digits:
  fixes v p g :: nat
  assumes "v < 32" and "p < 4"
  shows "(128 * g + 32 * p + v) mod 32 = v" and "(128 * g + 32 * p + v) div 32 mod 4 = p"
    and "(128 * g + 32 * p + v) div 128 = g"
proof -
  have e: "128 * g + 32 * p + v = v + 32 * (p + 4 * g)" by simp
  have d: "(v + 32 * (p + 4 * g)) div 32 = p + 4 * g" using assms(1) by simp
  show "(128 * g + 32 * p + v) mod 32 = v"
    using assms(1) by (simp only: e mod_mult_self2 mod_less)
  show "(128 * g + 32 * p + v) div 32 mod 4 = p"
    using assms(2) by (simp only: e d mod_mult_self2 mod_less)
  have "(128 * g + 32 * p + v) div 128 = (v + 32 * (p + 4 * g)) div (32 * 4)" by simp
  also have "\<dots> = (p + 4 * g) div 4" by (simp only: div_mult2_eq d)
  also have "\<dots> = g" using assms(2) by simp
  finally show "(128 * g + 32 * p + v) div 128 = g" .
qed

lemma template_key_nat:
  assumes "gen \<le> last_generation" and "plan < 4" and "variant < 32"
  shows "unat (FF_TEMPLATE_KEY gen plan variant) = 128 * unat gen + 32 * unat plan + unat variant"
proof -
  have g: "unat gen \<le> 33554431" and p: "unat plan < 4" and v: "unat variant < 32"
    using assms by (simp_all add: word_le_nat_alt word_less_nat_alt last_generation_def)
  have 1: "unat (gen * 4) = unat gen * 4" using g by (intro trans [OF unat_mult_small]) simp_all
  have 2: "unat (gen * 4 + plan) = unat gen * 4 + unat plan"
    using g p 1 by (intro trans [OF unat_add_small]) simp_all
  have 3: "unat ((gen * 4 + plan) * 32) = (unat gen * 4 + unat plan) * 32"
    using g p 2 by (intro trans [OF unat_mult_small]) simp_all
  have "unat ((gen * 4 + plan) * 32 + variant) = (unat gen * 4 + unat plan) * 32 + unat variant"
    using g p v 3 by (intro trans [OF unat_add_small]) simp_all
  then show ?thesis by (simp add: FF_TEMPLATE_KEY_def)
qed

section \<open>The header checksum\<close>

text \<open>
  \<open>bpf_csum_diff\<close> with an empty first buffer returns, in 32 bits, a ones'-complement sum of the
  seed and the halfwords of the second one (which of the two zeros, when all are zero, is open).
\<close>

definition csum_faithful :: "'e kern \<Rightarrow> bool" where
  "csum_faithful K \<longleftrightarrow> (\<forall>ys seed. csum_diff K [] ys seed \<le> 0xffffffff \<and>
     (0 < unat seed + sum16 ys \<longrightarrow>
        fold16 (unat (csum_diff K [] ys seed)) = fold16 (unat seed + sum16 ys)))"

lemma fold16_le: "fold16 n \<le> 65535"
  by (simp add: fold16_def Suc_le_eq)

lemma fold16_mod: "0 < n \<Longrightarrow> fold16 (n + 65535 * k) = fold16 n"
proof -
  assume "0 < n"
  then have "n + 65535 * k - 1 = 65535 * k + (n - 1)" by simp
  then have "(n + 65535 * k - 1) mod 65535 = (n - 1) mod 65535" by (metis mod_mult_self4)
  with \<open>0 < n\<close> show ?thesis by (simp add: fold16_def)
qed

lemma fold16_idem [simp]: "fold16 (fold16 n) = fold16 n"
  using fold16_le [of n] by (rule fold16_id)

lemma list_kern_csum_diff:
  "csum_diff list_kern xs ys seed = of_nat (fold16 (unat seed + sum16 ys + (65535 - fold16 (sum16 xs))))"
  by (simp add: list_kern_def)

lemma list_kern_csum [simp, intro]: "csum_faithful list_kern"
proof -
  have *: "unat (csum_diff list_kern [] ys seed) = fold16 (unat seed + sum16 ys + 65535)" for ys seed
    using fold16_le [of "unat seed + sum16 ys + 65535"]
    by (simp add: list_kern_csum_diff fold16_def [of 0] unat_of_nat)
  show ?thesis unfolding csum_faithful_def
    using fold16_mod [of _ 1] by (auto simp: * word_le_nat_alt intro!: le_trans [OF fold16_le])
qed

text \<open>A sum and the complement of its fold add up to ones'-complement zero.\<close>

lemma fold16_complement: "0 < n \<Longrightarrow> fold16 (n + (65535 - fold16 n)) = 65535"
proof -
  assume n: "0 < n"
  have f: "n = 65535 * ((n - 1) div 65535) + fold16 n"
    using n by (simp add: fold16_def)
  then have "n + (65535 - fold16 n) = 65535 + 65535 * ((n - 1) div 65535)"
    using fold16_le [of n] by linarith
  then show ?thesis using fold16_mod [of 65535 "(n - 1) div 65535"] by (simp add: fold16_id)
qed

lemma sum16_append: "even (length xs) \<Longrightarrow> sum16 (xs @ ys) = sum16 xs + sum16 ys"
  by (induction xs rule: sum16.induct) auto

lemma sum16_zeros: "set xs \<subseteq> {0} \<Longrightarrow> sum16 xs = 0"
  by (induction xs rule: sum16.induct) auto

lemma sum16_zero: "sum16 (replicate n 0) = 0"
  by (intro sum16_zeros) auto

lemma sum16_pos: "xs \<noteq> [] \<Longrightarrow> hd xs \<noteq> 0 \<Longrightarrow> 0 < sum16 xs"
  by (cases xs rule: sum16.cases) (auto simp: unat_gt_0)

text \<open>Writing the complement of the fold into a zeroed field at an even offset.\<close>

lemma sum16_bytes16: "sum16 (bytes16 x) = unat x"
  by (simp add: bytes16_def unsigned_ucast_eq unat_drop_bit take_bit_eq_mod)
    (use unat_u16 [of x] in simp)

lemma sum16_bytes16_append: "sum16 (bytes16 x @ ys) = unat x + sum16 ys"
  using sum16_bytes16 [of x] by (simp add: bytes16_def)

lemma checksum_field:
  assumes "length ip = 20" and "ip ! 0 \<noteq> 0" and "ip ! 10 = 0" and "ip ! 11 = 0"
    and "unat cs = 65535 - fold16 (sum16 ip)"
  shows "fold16 (sum16 (blit 10 (bytes16 cs) ip)) = 65535"
proof -
  obtain a b where ab: "ip = a @ [0, 0] @ b" "length a = 10"
  proof
    show "ip = take 10 ip @ [0, 0] @ drop 12 ip"
      using id_take_nth_drop [of 10 ip] Cons_nth_drop_Suc [of 11 ip] assms(1,3,4) by simp
    show "length (take 10 ip) = 10" using assms(1) by simp
  qed
  have "blit 10 (bytes16 cs) ip = a @ bytes16 cs @ b"
    using ab by (simp add: blit_def bytes16_def)
  then have "sum16 (blit 10 (bytes16 cs) ip) = sum16 ip + (65535 - fold16 (sum16 ip))"
    using ab by (simp add: sum16_append sum16_bytes16_append assms(5))
  moreover have "0 < sum16 ip"
  proof (rule sum16_pos)
    show "ip \<noteq> []" using assms(1) by auto
    then show "hd ip \<noteq> 0" using assms(2) by (simp add: hd_conv_nth)
  qed
  ultimately show ?thesis by (simp add: fold16_complement)
qed

section \<open>Properties\<close>

text \<open>
  The fold of a 32-bit sum is the checksum of RFC 1071, the complement of its
  ones'-complement sum; the second fold of the code is enough for every input below
  \<open>2 ^ 32\<close>, which is all \<open>bpf_csum_diff\<close> returns.
\<close>
theorem fold_checksum_rfc1071:
  assumes "n \<le> 0xffffffff"
  shows "unat (fold_checksum n) = 65535 - fold16 (unat n)"
  using assms by (rule fold_checksum_fold16)

theorem fold_checksum_rfc1071_witness:
  "unat (fold_checksum 0xffff0002) = 65533"
  using fold_checksum_rfc1071 [of "0xffff0002"] by (simp add: word_le_nat_alt fold16_def)

lemma write16_simps [simp]:
  "length (write16 xs i n) = length xs"
  "i + 1 < length xs \<Longrightarrow> write16 xs i n ! j = (if j = i then ucast (drop_bit 8 n) else if j = i + 1 then ucast n else xs ! j)"
  by (simp_all add: write16_def nth_list_update)

text \<open>The IPv4 header before its checksum is filled in.\<close>

definition ipv4_fields :: "ff_request \<Rightarrow> packet \<Rightarrow> u32 \<Rightarrow> u8 list \<Rightarrow> u8 list" where
  "ipv4_fields r p transport ip =
     (let ip = blit 16 (take 4 (k_remote (p_key p))) (blit 12 (take 4 (k_local (p_key p))) ip);
          ip = (if p_first_fragment p then write16 ip 6 0 else ip);
          ip = write16 ip 2 (ucast (iplen p + transport))
      in ip[8 := ucast (rq_ttl r), 10 := 0, 11 := 0])"

lemma build_ip_fields:
  "k_family (p_key p) = 4 \<Longrightarrow> build_ip K r p transport ip =
     (let ip = ipv4_fields r p transport ip in blit 10 (bytes16 (fold_checksum (csum_diff K [] ip 0))) ip)"
  by (simp add: build_ip_def ipv4_fields_def Let_def)

lemma ipv4_fields_nth:
  assumes "length ip = n" "20 \<le> n" "4 \<le> length (k_local (p_key p))" "4 \<le> length (k_remote (p_key p))" "j < n"
  shows "length (ipv4_fields r p transport ip) = n" and
    "ipv4_fields r p transport ip ! j =
       (if j = 10 \<or> j = 11 then 0 else if j = 8 then ucast (rq_ttl r)
        else if j = 2 then ucast (drop_bit 8 (ucast (iplen p + transport) :: u16))
        else if j = 3 then ucast (ucast (iplen p + transport) :: u16)
        else if p_first_fragment p \<and> (j = 6 \<or> j = 7) then 0
        else if 16 \<le> j \<and> j < 20 then k_remote (p_key p) ! (j - 16)
        else if 12 \<le> j \<and> j < 16 then k_local (p_key p) ! (j - 12) else ip ! j)"
proof -
  let ?ip = "blit 16 (take 4 (k_remote (p_key p))) (blit 12 (take 4 (k_local (p_key p))) ip)"
  have l: "length ?ip = n" using assms by (simp add: size_simps)
  then show "length (ipv4_fields r p transport ip) = n" by (simp add: ipv4_fields_def Let_def)
  have "?ip ! j = (if 16 \<le> j \<and> j < 20 then k_remote (p_key p) ! (j - 16)
      else if 12 \<le> j \<and> j < 16 then k_local (p_key p) ! (j - 12) else ip ! j)"
    using assms by (auto simp: nth_blit size_simps)
  then show "ipv4_fields r p transport ip ! j =
       (if j = 10 \<or> j = 11 then 0 else if j = 8 then ucast (rq_ttl r)
        else if j = 2 then ucast (drop_bit 8 (ucast (iplen p + transport) :: u16))
        else if j = 3 then ucast (ucast (iplen p + transport) :: u16)
        else if p_first_fragment p \<and> (j = 6 \<or> j = 7) then 0
        else if 16 \<le> j \<and> j < 20 then k_remote (p_key p) ! (j - 16)
        else if 12 \<le> j \<and> j < 16 then k_local (p_key p) ! (j - 12) else ip ! j)"
    using assms l by (simp add: ipv4_fields_def Let_def nth_list_update)
qed

lemma sum16_pad: "even (length xs) \<Longrightarrow> sum16 (xs @ replicate n 0) = sum16 xs"
  by (simp add: sum16_append sum16_zero)

lemma nth_blit_bytes16:
  "i + 2 \<le> length xs \<Longrightarrow> j < length xs \<Longrightarrow> j \<noteq> i \<Longrightarrow> j \<noteq> i + 1 \<Longrightarrow> blit i (bytes16 x) xs ! j = xs ! j"
  by (subst nth_blit) (auto simp: bytes16_def)

lemma build_ip_checksum:
  assumes K: "csum_faithful K" and fam: "k_family (p_key p) = 4"
    and keys: "4 \<le> length (k_local (p_key p))" "4 \<le> length (k_remote (p_key p))"
    and ip: "length ip = 20" "ip ! 0 \<noteq> 0"
  shows "fold16 (sum16 (take 20 (build_ip K r p transport (ip @ replicate 20 0)))) = 65535"
proof -
  let ?h = "ipv4_fields r p transport (ip @ replicate 20 0)"
  have len: "length ?h = 40" using ipv4_fields_nth(1) [of _ 40 p 0] keys ip by simp
  note nth = ipv4_fields_nth(2) [of "ip @ replicate 20 0" 40 p _ r transport, OF _ _ keys]
  have tail: "drop 20 ?h = replicate 20 0"
    by (rule nth_equalityI) (use len ip in \<open>simp_all add: nth nth_append\<close>)
  then have split: "?h = take 20 ?h @ replicate 20 0" by (metis append_take_drop_id)
  have head: "take 20 ?h ! 0 \<noteq> 0" "take 20 ?h ! 10 = 0" "take 20 ?h ! 11 = 0"
    using ip by (simp_all add: nth nth_append)
  define c where "c = csum_diff K [] ?h 0"
  have sums: "sum16 ?h = sum16 (take 20 ?h)" using split sum16_pad [of "take 20 ?h" 20] len by simp
  have "0 < sum16 (take 20 ?h)"
  proof (rule sum16_pos)
    show "take 20 ?h \<noteq> []" using len by auto
    then show "hd (take 20 ?h) \<noteq> 0" using head(1) by (simp add: hd_conv_nth)
  qed
  with K sums have c: "c \<le> 0xffffffff" "fold16 (unat c) = fold16 (sum16 (take 20 ?h))"
    unfolding c_def csum_faithful_def by auto
  have "take 20 (build_ip K r p transport (ip @ replicate 20 0)) = blit 10 (bytes16 (fold_checksum c)) (take 20 ?h)"
    using len by (simp add: build_ip_fields [OF fam] Let_def c_def [symmetric] blit_def bytes16_def min_def)
      (simp add: take_Cons' drop_take)
  moreover have "fold16 (sum16 (blit 10 (bytes16 (fold_checksum c)) (take 20 ?h))) = 65535"
    using len head c fold_checksum_fold16 [OF c(1)] by (intro checksum_field) simp_all
  ultimately show ?thesis by simp
qed

text \<open>
  The IPv4 header of the fake is valid: whatever the observed header was, its
  checksum verifies, it names the local and the remote address of the flow in the fake's
  direction, the request's TTL and the length of the whole fake, and is not a fragment.
\<close>
lemma ipv4_header_valid:
  assumes "csum_faithful K" and "k_family (p_key p) = 4"
    and "length (k_local (p_key p)) = 16" and "length (k_remote (p_key p)) = 16"
    and "length ip = 20" and "ip ! 0 \<noteq> 0"
    and "h = build_ip K r p transport (ip @ replicate 20 0)"
  shows "fold16 (sum16 (take 20 h)) = 65535 \<and> h ! 8 = ucast (rq_ttl r) \<and>
    take 4 (drop 12 h) = take 4 (k_local (p_key p)) \<and> take 4 (drop 16 h) = take 4 (k_remote (p_key p)) \<and>
    h ! 2 = ucast (drop_bit 8 (20 + transport)) \<and> h ! 3 = ucast (20 + transport) \<and>
    (if p_first_fragment p then h ! 6 = 0 \<and> h ! 7 = 0 else h ! 6 = ip ! 6 \<and> h ! 7 = ip ! 7) \<and>
    h ! 9 = ip ! 9"
proof -
  have keys: "4 \<le> length (k_local (p_key p))" "4 \<le> length (k_remote (p_key p))" using assms(3,4) by simp_all
  let ?f = "ipv4_fields r p transport (ip @ replicate 20 0)"
  note len = ipv4_fields_nth(1) [of "ip @ replicate 20 0" 40 p 0 r transport, OF _ _ keys]
  note nth = ipv4_fields_nth(2) [of "ip @ replicate 20 0" 40 p _ r transport, OF _ _ keys]
  have h: "h ! j = ?f ! j" if "j < 40" "j \<noteq> 10" "j \<noteq> 11" for j
    using that len assms(5) by (simp add: assms(7) build_ip_fields [OF assms(2)] Let_def nth_blit_bytes16)
  have lh: "length h = 40"
    using len assms(5) by (simp add: assms(7) build_ip_fields [OF assms(2)] Let_def size_simps bytes16_def)
  have ipl: "iplen p = 20" using assms(2) by (simp add: iplen_def)
  have b: "ucast (drop_bit 8 (ucast (20 + transport) :: u16)) = (ucast (drop_bit 8 (20 + transport)) :: u8)"
    "ucast (ucast (20 + transport) :: u16) = (ucast (20 + transport) :: u8)"
    by (rule bit_word_eqI; auto simp: bit_simps)+
  have "fold16 (sum16 (take 20 h)) = 65535"
    unfolding assms(7) by (rule build_ip_checksum [OF assms(1,2) keys assms(5,6)])
  moreover have "take 4 (drop 12 h) = take 4 (k_local (p_key p))"
    by (rule nth_equalityI) (use lh assms(3,5) in \<open>simp_all add: h nth\<close>)
  moreover have "take 4 (drop 16 h) = take 4 (k_remote (p_key p))"
    by (rule nth_equalityI) (use lh assms(4,5) in \<open>simp_all add: h nth\<close>)
  ultimately show ?thesis using assms(5) by (simp add: h nth nth_append ipl b)
qed

text \<open>
  The word the observer hands to \<open>emit\<close> and the word \<open>emit\<close> stores in a request
  lose nothing: the TTL, the plan and the variant come back as they went in, and the builder
  looks for the template of exactly that plan and variant of the configuration in force.
\<close>
theorem request_word_roundtrip:
  assumes "plan < FF_TEMPLATE_PLAN_COUNT" and "variant < FF_TEMPLATE_VARIANTS"
    and "r = make_request iface c reverse now ttl plan variant s"
  shows "FF_EMIT_META ttl plan AND 0xff = ttl AND 0xff \<and>
    drop_bit 8 (FF_EMIT_META ttl plan) AND (FF_TEMPLATE_PLAN_COUNT - 1) = plan \<and>
    request_plan r = plan \<and> rq_variant r AND (FF_TEMPLATE_VARIANTS - 1) = variant \<and>
    request_template_key r = FF_TEMPLATE_KEY (c_generation c) plan variant"
proof -
  have p: "plan < 4" and v: "variant < 32" using assms(1,2) by simp_all
  from request_word [OF p v] emit_word [OF p, of ttl] show ?thesis
    by (simp add: assms(3) make_request_def request_plan_def request_template_key_def)
qed

text \<open>
  No two templates share a key: below the generation \<open>publish\<close> stops at, the keys of
  different (generation, plan, variant) triples differ, in spite of the 32-bit arithmetic.
\<close>
theorem template_key_injective:
  assumes "gen \<le> last_generation" and "gen' \<le> last_generation"
    and "plan < FF_TEMPLATE_PLAN_COUNT" and "plan' < FF_TEMPLATE_PLAN_COUNT"
    and "v < FF_TEMPLATE_VARIANTS" and "v' < FF_TEMPLATE_VARIANTS"
    and "(gen, plan, v) \<noteq> (gen', plan', v')"
  shows "FF_TEMPLATE_KEY gen plan v \<noteq> FF_TEMPLATE_KEY gen' plan' v'"
proof
  assume "FF_TEMPLATE_KEY gen plan v = FF_TEMPLATE_KEY gen' plan' v'"
  then have "128 * unat gen + 32 * unat plan + unat v = 128 * unat gen' + 32 * unat plan' + unat v'"
    using template_key_nat [of gen plan v] template_key_nat [of gen' plan' v'] assms by simp
  moreover have "unat plan < 4" "unat plan' < 4" "unat v < 32" "unat v' < 32"
    using assms(3-6) by (simp_all add: word_less_nat_alt)
  ultimately have "unat gen = unat gen' \<and> unat plan = unat plan' \<and> unat v = unat v'"
    using key_digits [of "unat v" "unat plan" "unat gen"] key_digits [of "unat v'" "unat plan'" "unat gen'"] by metis
  then have "gen = gen' \<and> plan = plan' \<and> v = v'" by (simp only: word_unat_eq_iff)
  with assms(7) show False by simp
qed

theorem template_key_injective_witness:
  "FF_TEMPLATE_KEY 33554431 3 31 \<noteq> FF_TEMPLATE_KEY 0 0 0"
  using template_key_injective [of 33554431 0 3 0 31 0]
  by (simp add: last_generation_def word_le_nat_alt)

theorem request_word_roundtrip_witness:
  "request_template_key (make_request sample_interface sample_config False 1000 6 1 17 syn_packet) = FF_TEMPLATE_KEY 5 1 17"
  using request_word_roundtrip [of 1 17 _ sample_interface sample_config False 1000 6 syn_packet, OF _ _ refl]
  by (simp add: sample_config_fields)

section \<open>The bytes of the finished datagram\<close>

text \<open>
  \<open>bpf_skb_change_tail\<close> sets the length and leaves the whole packet writable;
  \<open>bpf_csum_level\<close> touches no byte.
\<close>

definition resize_access :: "'e kern \<Rightarrow> (skb \<Rightarrow> nat \<Rightarrow> bool) \<Rightarrow> bool" where
  "resize_access K W \<longleftrightarrow>
     (\<forall>s n s'. skb_change_tail K s n = (False, s') \<longrightarrow>
        W s' (unat n) \<and> length (sk_data s') = unat n \<and> sk_len s' = n) \<and>
     (\<forall>s. same_packet s (csum_level_reset K s))"

lemma list_kern_resize [simp, intro]: "resize_access list_kern (\<lambda>s m. m \<le> length (sk_data s))"
  by (auto simp: resize_access_def list_kern_def same_packet_def)

text \<open>A list of stores that fills the packet without a gap.\<close>

fun adjacent :: "nat \<Rightarrow> (u32 \<times> u8 list) list \<Rightarrow> bool" where
  "adjacent a [] \<longleftrightarrow> True"
| "adjacent a ((off, ys) # ws) \<longleftrightarrow> unat off = a \<and> adjacent (a + length ys) ws"

definition store_at :: "'e kern \<Rightarrow> u32 \<times> u8 list \<Rightarrow> skb \<Rightarrow> bool \<times> skb" where
  "store_at K = (\<lambda>(off, ys) s. skb_store_bytes K s off ys 1)"

lemma in_order_stores:
  assumes K: "writable_access K W"
  shows "W s n \<Longrightarrow> sk_data s = A @ R \<Longrightarrow> length (sk_data s) = n \<Longrightarrow> adjacent (length A) ws \<Longrightarrow>
    length A + length (concat (map snd ws)) \<le> n \<Longrightarrow>
    \<exists>s'. (\<forall>fs. in_order (map (store_at K) ws @ fs) s = in_order fs s') \<and> W s' n \<and> same_but_data s s' \<and>
      sk_data s' = A @ concat (map snd ws) @ drop (length (concat (map snd ws))) R"
proof (induction ws arbitrary: s A R)
  case Nil
  then show ?case by (auto simp: same_but_data_def intro: exI [of _ s])
next
  case (Cons w ws)
  obtain off ys where w: "w = (off, ys)" by fastforce
  have fits: "unat off + length ys \<le> n" using Cons.prems(4,5) w by simp
  obtain s1 where s1: "skb_store_bytes K s off ys 1 = (False, s1)" "same_but_data s s1"
    "sk_data s1 = blit (unat off) ys (sk_data s)" "W s1 n"
    by (rule writable_store [OF K Cons.prems(1) fits])
  have d1: "sk_data s1 = (A @ ys) @ drop (length ys) R"
    using s1(3) Cons.prems(2,4) w by (simp add: blit_def)
  have l1: "length (sk_data s1) = n"
    using s1(3) fits Cons.prems(3) by (simp add: length_blit)
  from Cons.IH [OF s1(4) d1 l1] Cons.prems(4,5) w obtain s' where
    "\<forall>fs. in_order (map (store_at K) ws @ fs) s1 = in_order fs s'" "W s' n" "same_but_data s1 s'"
    "sk_data s' = (A @ ys) @ concat (map snd ws) @ drop (length (concat (map snd ws))) (drop (length ys) R)"
    by auto
  then show ?case using s1(1) w same_but_data_trans [OF s1(2)]
    by (intro exI [of _ s']) (simp add: store_at_def add.commute)
qed

definition fake_stores :: "packet \<Rightarrow> ff_template \<Rightarrow> u8 list \<Rightarrow> u8 list \<Rightarrow> u8 list \<Rightarrow> (u32 \<times> u8 list) list" where
  "fake_stores p t eth ip th =
     (if p_l3 p \<noteq> 0
      then (0, take 14 eth) # map (\<lambda>off. (of_nat off, take 4 (drop off eth)))
             (filter (\<lambda>off. of_nat (off + 4) \<le> p_l3 p) [14, 18, 22, 26])
      else []) @
     [(p_l3 p, take (unat (iplen p)) ip), (p_l3 p + iplen p, take (unat (thlen p)) th),
      (p_l3 p + iplen p + thlen p, take (unat (t_len t)) (t_data t))]"

text \<open>The whole datagram.\<close>

definition fake_bytes :: "packet \<Rightarrow> ff_template \<Rightarrow> u8 list \<Rightarrow> u8 list \<Rightarrow> u8 list \<Rightarrow> u8 list" where
  "fake_bytes p t eth ip th =
     take (unat (p_l3 p)) eth @ take (unat (iplen p)) ip @ take (unat (thlen p)) th @
     take (unat (t_len t)) (t_data t)"

lemma write_calls_stores:
  assumes "t_len t \<noteq> 0" and "unat (t_len t) \<le> 1200"
  shows "write_calls K p t eth ip th delta pseudo =
    (\<lambda>s. skb_change_tail K s (p_l3 p + iplen p + (thlen p + t_len t))) #
    map (store_at K) (fake_stores p t eth ip th) @
    [\<lambda>s. l4_csum_replace K s (p_l3 p + iplen p + (if k_protocol (p_key p) = 6 then 16 else 6)) 0 delta
        (if k_protocol (p_key p) = 17 then 32 else 0),
     \<lambda>s. l4_csum_replace K s (p_l3 p + iplen p + (if k_protocol (p_key p) = 6 then 16 else 6))
        (if fresh p then 0 else ucast (htonl (p_end p - p_l4 p)))
        (if fresh p then ucast pseudo else ucast (htonl (thlen p + t_len t)))
        ((if fresh p then 16 else 4 OR 16) OR (if k_protocol (p_key p) = 17 then 32 else 0))]"
proof -
  have len: "unat (ucast (t_len t) :: u64) = unat (t_len t)" by (rule unat_ucast_up) simp
  have pos: "0 < unat (t_len t)" using assms(1) by (simp add: unat_gt_0)
  have "unat ((ucast (t_len t) :: u64) - 1) = unat (t_len t) - 1"
    using pos len by (subst unat_sub_small) (auto simp: word_le_nat_alt)
  then have fits: "\<not> 1200 \<le> (ucast (t_len t) :: u64) - 1"
    using assms(2) pos by (simp add: word_le_nat_alt)
  have pay: "store_payload K off (t_data t) (ucast (t_len t)) = store_at K (off, take (unat (t_len t)) (t_data t))" for off
    by (rule ext) (simp add: store_payload_def store_at_def fits len)
  show ?thesis
    by (auto simp: write_calls_def Let_def fake_stores_def pay store_at_def comp_def)
qed

lemma fake_stores_chunks:
  assumes "unat (p_l3 p) \<in> {0, 14, 18, 22, 26, 30}"
  shows "fake_stores p t eth ip th =
    map (\<lambda>i. (of_nat i, take (if i = 0 then 14 else 4) (drop i eth))) (filter (\<lambda>i. i < unat (p_l3 p)) [0, 14, 18, 22, 26]) @
     [(p_l3 p, take (unat (iplen p)) ip), (p_l3 p + iplen p, take (unat (thlen p)) th),
      (p_l3 p + iplen p + thlen p, take (unat (t_len t)) (t_data t))]"
proof -
  have z: "p_l3 p = 0 \<longleftrightarrow> unat (p_l3 p) = 0" by (simp add: unat_eq_0)
  show ?thesis using assms by (auto simp: fake_stores_def word_le_nat_alt z)
qed

lemma fake_stores_layout:
  assumes l3: "unat (p_l3 p) \<in> {0, 14, 18, 22, 26, 30}"
    and len: "length eth = 32" "length ip = 40" "length th = 20" "unat (t_len t) \<le> length (t_data t)"
      "unat (t_len t) \<le> 1200"
  shows "concat (map snd (fake_stores p t eth ip th)) = fake_bytes p t eth ip th"
    and "adjacent 0 (fake_stores p t eth ip th)"
    and "length (fake_bytes p t eth ip th) = unat (p_l3 p + iplen p + (thlen p + t_len t))"
proof -
  have e: "take (14 + 4) eth = take 14 eth @ take 4 (drop 14 eth)" "take (18 + 4) eth = take 18 eth @ take 4 (drop 18 eth)"
    "take (22 + 4) eth = take 22 eth @ take 4 (drop 22 eth)" "take (26 + 4) eth = take 26 eth @ take 4 (drop 26 eth)"
    by (rule take_add)+
  have w: "p_l3 p = of_nat (unat (p_l3 p))" by simp
  have i: "iplen p = 20 \<or> iplen p = 40" and h: "thlen p = 20 \<or> thlen p = 8"
    by (simp_all add: iplen_def thlen_def)
  have sm: "unat (p_l3 p + iplen p) = unat (p_l3 p) + unat (iplen p)"
    using l3 i by (intro unat_add_small) auto
  have sm2: "unat (p_l3 p + iplen p + thlen p) = unat (p_l3 p) + unat (iplen p) + unat (thlen p)"
    using l3 i h sm by (subst unat_add_small) auto
  have sm3: "unat (p_l3 p + iplen p + (thlen p + t_len t)) = unat (p_l3 p) + unat (iplen p) + unat (thlen p) + unat (t_len t)"
    using l3 i h sm2 len(5) by (simp only: add.assoc [symmetric]) (subst unat_add_small, auto)
  show "length (fake_bytes p t eth ip th) = unat (p_l3 p + iplen p + (thlen p + t_len t))"
    using l3 i h len unfolding sm3 by (auto simp: fake_bytes_def)
  have c: "unat (p_l3 p) = 0 \<or> unat (p_l3 p) = 14 \<or> unat (p_l3 p) = 18 \<or> unat (p_l3 p) = 22 \<or>
      unat (p_l3 p) = 26 \<or> unat (p_l3 p) = 30"
    using l3 by auto
  have li: "unat (iplen p) \<le> 40" and lh: "unat (thlen p) \<le> 20" using i h by auto
  show "concat (map snd (fake_stores p t eth ip th)) = fake_bytes p t eth ip th"
    unfolding fake_stores_chunks [OF l3] fake_bytes_def using c e by (elim disjE; simp)
  show "adjacent 0 (fake_stores p t eth ip th)"
    unfolding fake_stores_chunks [OF l3] using c len li lh sm sm2 by (elim disjE; simp)
qed

lemma resize_accessD:
  assumes "resize_access K W" and "skb_change_tail K s n = (False, s')"
  shows "W s' (unat n)" and "length (sk_data s') = unat n"
  using assms unfolding resize_access_def by blast+

lemma writes_layout:
  assumes K: "writable_access K W" "resize_access K W"
    and l3: "unat (p_l3 p) \<in> {0, 14, 18, 22, 26, 30}"
    and len: "length eth = 32" "length ip = 40" "length th = 20" "unat (t_len t) \<le> length (t_data t)"
      "t_len t \<noteq> 0" "unat (t_len t) \<le> 1200"
    and prot: "k_protocol (p_key p) \<in> {6, 17}"
    and run: "in_order (write_calls K p t eth ip th delta pseudo) s = (False, s')"
  shows "\<exists>c d. sk_data s' = blit (unat (p_l3 p) + unat (iplen p) + (if k_protocol (p_key p) = 6 then 16 else 6))
    [c, d] (fake_bytes p t eth ip th)"
proof -
  let ?n = "p_l3 p + iplen p + (thlen p + t_len t)"
  let ?cs = "p_l3 p + iplen p + (if k_protocol (p_key p) = 6 then 16 else 6)"
  note lay = fake_stores_layout [OF l3 len(1,2,3,4,6)]
  let ?a = "if fresh p then 0 else ucast (htonl (p_end p - p_l4 p))"
    and ?b = "if fresh p then ucast pseudo else ucast (htonl (thlen p + t_len t))"
    and ?flag = "if k_protocol (p_key p) = 17 then 32 else 0"
  let ?fl = "(if fresh p then 16 else 4 OR 16) OR ?flag"
  let ?fs = "[\<lambda>s. l4_csum_replace K s ?cs 0 delta ?flag, \<lambda>s. l4_csum_replace K s ?cs ?a ?b ?fl]"
  note wc = write_calls_stores [OF len(5,6), of K p eth ip th delta pseudo]
  from run obtain s1 where s1: "skb_change_tail K s ?n = (False, s1)"
    by (auto simp: wc split: prod.splits if_splits)
  note r1 = resize_accessD [OF K(2) s1]
  obtain s2 where run2: "in_order (map (store_at K) (fake_stores p t eth ip th) @ ?fs) s1 = in_order ?fs s2"
    and s2: "W s2 (unat ?n)" "sk_data s2 = fake_bytes p t eth ip th"
    using in_order_stores [where A = "[]" and R = "sk_data s1" and ws = "fake_stores p t eth ip th",
      OF K(1) r1(1)] r1(2) lay by auto
  have last: "in_order ?fs s2 = (False, s')"
    using run s1 run2 by (simp only: wc in_order.simps(2) prod.case if_False)
  have i: "iplen p = 20 \<or> iplen p = 40" by (simp add: iplen_def)
  have l3_le: "unat (p_l3 p) \<le> 30" using l3 by auto
  have cs: "unat ?cs = unat (p_l3 p) + unat (iplen p) + (if k_protocol (p_key p) = 6 then 16 else 6)"
    using l3 i by (subst unat_add_small; (subst unat_add_small)?) auto
  have fit: "unat ?cs + 2 \<le> unat ?n"
    using lay(3) len prot i l3_le unfolding cs by (auto simp: fake_bytes_def thlen_def)
  obtain e3 s3 where s3: "l4_csum_replace K s2 ?cs 0 delta ?flag = (e3, s3)" by fastforce
  obtain c1 d1 where d1: "W s3 (unat ?n)" "sk_data s3 = blit (unat ?cs) [c1, d1] (sk_data s2)"
    by (rule writable_csum [OF K(1) s2(1) fit s3]) 
  obtain e4 s4 where s4: "l4_csum_replace K s3 ?cs ?a ?b ?fl = (e4, s4)" by fastforce
  obtain c2 d2 where d2: "sk_data s4 = blit (unat ?cs) [c2, d2] (sk_data s3)"
    by (rule writable_csum [OF K(1) d1(1) fit s4]) 
  have "s' = s4" using last s3 s4 by (simp split: if_splits)
  moreover have "sk_data s4 = blit (unat ?cs) [c2, d2] (fake_bytes p t eth ip th)"
    using d2 d1(2) s2(2) fit lay(3) by (simp add: blit_blit)
  ultimately show ?thesis unfolding cs by blast
qed

text \<open>The network header as the builder reads it.\<close>

lemma read_clone_ip:
  assumes "read_clone K p s = Some (oldsum, eth0, ip)"
  shows "length eth0 = 32" and "length ip = 40"
    and "\<exists>h. skb_load_bytes K s (p_l3 p) (unat (iplen p)) = Some h \<and>
      ip = bytes_of h 0 (unat (iplen p)) @ replicate (40 - unat (iplen p)) 0"
proof -
  have "length eth0 = 32 \<and> (\<exists>h. skb_load_bytes K s (p_l3 p) (unat (iplen p)) = Some h \<and>
      ip = bytes_of h 0 (unat (iplen p)) @ replicate (40 - unat (iplen p)) 0)"
    using assms by (auto simp: read_clone_def split: option.splits if_splits)
  then show "length eth0 = 32" "\<exists>h. skb_load_bytes K s (p_l3 p) (unat (iplen p)) = Some h \<and>
      ip = bytes_of h 0 (unat (iplen p)) @ replicate (40 - unat (iplen p)) 0" by simp_all
  then show "length ip = 40" by (auto simp: iplen_def)
qed

lemma length_build_eth:
  assumes "build_eth r p transport eth0 = Some eth" and "length eth0 = 32" and "length (p_eth p) = 22"
  shows "length eth = 32"
  using assms by (auto simp: build_eth_def Let_def size_simps split: if_splits)

lemma length_build_ip:
  assumes "length ip = 40" and "length (k_local (p_key p)) = 16" and "length (k_remote (p_key p)) = 16"
  shows "length (build_ip K r p transport ip) = 40"
  using assms by (simp add: build_ip_def Let_def size_simps bytes16_def)

lemma length_write32 [simp]: "length (write32 xs i n) = length xs"
  by (simp add: write32_def)

lemma length_build_th [simp]: "length (build_th r p transport) = 20" "length (final_th p th) = length th"
  by (simp_all add: build_th_def final_th_def Let_def size_simps bytes16_def)

lemma build_fake_layout:
  assumes K: "writable_access K W" "resize_access K W"
    and p: "packet_layout s0 p" "length (k_local (p_key p)) = 16" "length (k_remote (p_key p)) = 16"
    and t: "unat (t_len t) \<le> length (t_data t)" "t_len t \<noteq> 0" "unat (t_len t) \<le> 1200"
    and run: "build_fake K r p t s = (False, s')"
  obtains oldsum eth0 ip eth c d where "read_clone K p s = Some (oldsum, eth0, ip)" and "length eth = 32"
    and "sk_data s' = blit (unat (p_l3 p) + unat (iplen p) + (if k_protocol (p_key p) = 6 then 16 else 6)) [c, d]
      (fake_bytes p t eth (build_ip K r p (thlen p + t_len t) ip) (final_th p (build_th r p (thlen p + t_len t))))"
  using run
proof (cases rule: build_fake_cases)
  case (written oldsum eth0 ip eth newsum)
  note rc = read_clone_ip [OF written(1)]
  from p(1) have l3: "unat (p_l3 p) \<in> {0, 14, 18, 22, 26, 30}" and prot: "k_protocol (p_key p) \<in> {6, 17}"
    and pe: "length (p_eth p) = 22"
    by (auto simp: packet_layout_def)
  have le: "length eth = 32" by (rule length_build_eth [OF written(2) rc(1) pe])
  have th: "length (final_th p (build_th r p (thlen p + t_len t))) = 20" by simp
  from written(3) obtain delta pseudo s1 where io: "in_order (write_calls K p t eth (build_ip K r p (thlen p + t_len t) ip)
      (final_th p (build_th r p (thlen p + t_len t))) delta pseudo) s = (False, s1)" and s': "s' = csum_level_reset K s1"
    by (rule write_fake_cases) simp
  from K(2) have "sk_data s' = sk_data s1" unfolding resize_access_def s' by (metis same_packet_simps(1))
  with writes_layout [OF K l3 le length_build_ip [OF rc(2) p(2,3)] th t prot io] that [OF written(1) le]
  show ?thesis by auto
qed simp

lemma parse_keys:
  assumes "parse_packet K s iface ing = Inr p"
  shows "length (k_local (p_key p)) = 16" and "length (k_remote (p_key p)) = 16"
    and "faithful_load K \<Longrightarrow> k_family (p_key p) = 4 \<Longrightarrow> sk_data s ! unat (p_l3 p) = 0x45"
proof -
  from assms obtain st q where q: "parse_l3 K s iface ing st = Inr q"
    and p: "parse_l4 K s ing (l_envelope st) q = Inr p"
    by (auto simp: parse_packet_def split: sum.splits)
  have l3: "length (k_local (p_key q)) = 16 \<and> length (k_remote (p_key q)) = 16 \<and>
      (k_family (p_key q) = 4 \<longrightarrow> (\<exists>h. skb_load_bytes K s (p_l3 q) 20 = Some h \<and> h 0 = 0x45))"
    using q by (auto simp: parse_l3_def parse_ipv4_def parse_ipv6_def zero_packet_def addr4_def Let_def
        split: if_splits option.splits)
  have keys: "k_local (p_key (parse_ports h ing x)) = k_local (p_key x)"
    "k_remote (p_key (parse_ports h ing x)) = k_remote (p_key x)" for h x
    by (simp_all add: parse_ports_def Let_def)
  have l4: "k_local (p_key p) = k_local (p_key q) \<and> k_remote (p_key p) = k_remote (p_key q)"
    using p
  proof (cases rule: parse_l4_cases)
    case tcp
    from tcp(2) show ?thesis by (rule parse_tcp_cases) (simp add: keys)
  next
    case udp
    from udp(2) show ?thesis by (rule parse_udp_cases) (simp add: keys)
  qed
  from l3 l4 show "length (k_local (p_key p)) = 16" "length (k_remote (p_key p)) = 16" by simp_all
  assume K: "faithful_load K" and "k_family (p_key p) = 4"
  with l3 parse_l4_frame [OF p] obtain h where "skb_load_bytes K s (p_l3 p) 20 = Some h" "h 0 = 0x45" by auto
  with faithful_loadD(2) [OF K this(1), of 0] show "sk_data s ! unat (p_l3 p) = 0x45" by simp
qed

text \<open>Big-endian fields, as they stand in a packet.\<close>

definition be16 :: "u16 \<Rightarrow> u8 list" where
  "be16 n = [ucast (drop_bit 8 n), ucast n]"

definition be32 :: "u32 \<Rightarrow> u8 list" where
  "be32 n = be16 (ucast (drop_bit 16 n)) @ be16 (ucast n)"

lemma build_th_bytes:
  "take 4 (final_th p (build_th r p transport)) = be16 (k_local_port (p_key p)) @ be16 (k_remote_port (p_key p))"
  "k_protocol (p_key p) = 6 \<Longrightarrow> \<not> fresh p \<Longrightarrow> take 8 (drop 4 (final_th p (build_th r p transport))) =
     (if rq_reverse r then be32 (p_ack p) @ be32 (p_seq p + 1) else be32 (p_seq p + 1) @ be32 (p_ack p))"
  by (simp_all add: final_th_def build_th_def Let_def write16_def write32_def be16_def be32_def blit_def bytes16_def
      numeral_eq_Suc)

lemma unat_iplen: "unat (iplen p) = (if k_family (p_key p) = 4 then 20 else 40)"
  and unat_thlen: "unat (thlen p) = (if k_protocol (p_key p) = 6 then 20 else 8)"
  by (simp_all add: iplen_def thlen_def)

lemma build_cases:
  assumes "build K r iface (s, w) = (False, s', w')"
  obtains p s2 t where "parse_packet K s iface (rq_reverse r) = Inr p"
    and "probe_checksum K p (s, w) = (False, s2, w')" and "\<not> p_fragment_header p \<Longrightarrow> s2 = s"
    and "m_templates w (request_template_key r) = Some t"
    and "t_len t \<noteq> 0" and "t_len t \<le> 1200" and "iplen p + (thlen p + t_len t) \<le> i_mtu iface"
    and "build_fake K r p t s2 = (False, s')"
proof -
  obtain q w1 where q: "parse K s iface (rq_reverse r) w = (q, w1)" by fastforce
  from assms q obtain p where p: "q = Some p" by (cases q) (auto simp: build_def)
  with parse_frame [OF q] have pp: "w1 = w" "parse_packet K s iface (rq_reverse r) = Inr p" by auto
  obtain e s2 w2 where pr: "probe_checksum K p (s, w) = (e, s2, w2)" by (metis prod_cases3)
  from assms q p pp pr have e: "\<not> e" by (auto simp: build_def split: if_splits)
  then have w2: "w2 = w" "\<not> p_fragment_header p \<Longrightarrow> s2 = s"
    using pr by (auto simp: probe_checksum_def split: if_splits option.splits prod.splits)
  obtain t where t: "m_templates w (request_template_key r) = Some t"
    using assms q p pp pr e w2 by (cases "m_templates w (request_template_key r)") (auto simp: build_def)
  show ?thesis
    using assms q p pp pr e w2 t that [OF pp(2), of s2 t]
    by (auto simp: build_def not_less split: if_splits prod.splits)
qed

lemma blit_middle:
  "o' + length ys \<le> length T \<Longrightarrow> blit (length A + o') ys (A @ T @ P) = A @ blit o' ys T @ P"
  by (simp add: blit_def)

lemma take_blit: "n \<le> i \<Longrightarrow> i \<le> length xs \<Longrightarrow> take n (blit i ys xs) = take n xs"
  by (simp add: blit_def min_def)

lemma built_bytes:
  assumes "faithful_load K" and "writable_access K W" and "resize_access K W"
    and pp: "parse_packet K s iface (rq_reverse r) = Inr p"
    and t: "length (t_data t) = 1200" "t_len t \<noteq> 0" "t_len t \<le> 1200"
    and bf: "build_fake K r p t s2 = (False, s')"
  obtains oldsum eth0 ip A T where "read_clone K p s2 = Some (oldsum, eth0, ip)" and "length A = unat (p_l3 p)"
    and "sk_data s' = A @ take (unat (iplen p)) (build_ip K r p (thlen p + t_len t) ip) @ T @ take (unat (t_len t)) (t_data t)"
    and "length T = unat (thlen p)" and "length (build_ip K r p (thlen p + t_len t) ip) = 40"
    and "take (if k_protocol (p_key p) = 6 then 16 else 6) T =
      take (if k_protocol (p_key p) = 6 then 16 else 6) (final_th p (build_th r p (thlen p + t_len t)))"
proof -
  note lay = parse_packet_layout [OF pp]
  have tl: "unat (t_len t) \<le> length (t_data t)" "unat (t_len t) \<le> 1200" using t by (simp_all add: word_le_nat_alt)
  obtain oldsum eth0 ip eth c d where rc: "read_clone K p s2 = Some (oldsum, eth0, ip)" "length eth = 32"
    and sd: "sk_data s' = blit (unat (p_l3 p) + unat (iplen p) + (if k_protocol (p_key p) = 6 then 16 else 6)) [c, d]
      (fake_bytes p t eth (build_ip K r p (thlen p + t_len t) ip) (final_th p (build_th r p (thlen p + t_len t))))"
    by (rule build_fake_layout [OF assms(2,3) lay parse_keys(1,2) [OF pp] tl(1) t(2) tl(2) bf])
  let ?ip = "build_ip K r p (thlen p + t_len t) ip" and ?th = "final_th p (build_th r p (thlen p + t_len t))"
  have lip: "length ?ip = 40"
    by (rule length_build_ip [OF read_clone_ip(2) [OF rc(1)] parse_keys(1,2) [OF pp]])
  let ?A = "take (unat (p_l3 p)) eth" and ?H = "take (unat (iplen p)) ?ip" and ?T = "take (unat (thlen p)) ?th"
    and ?o = "if k_protocol (p_key p) = 6 then 16 else 6 :: nat"
  have lA: "length ?A = unat (p_l3 p)" using rc(2) lay by (auto simp: packet_layout_def)
  have lH: "length ?H = unat (iplen p)" using lip by (simp add: unat_iplen)
  have lT: "length ?T = unat (thlen p)" by (simp add: unat_thlen)
  have "sk_data s' = (?A @ ?H) @ blit ?o [c, d] ?T @ take (unat (t_len t)) (t_data t)"
    using sd lA lH blit_middle [of ?o "[c, d]" ?T "?A @ ?H"] lT by (simp add: fake_bytes_def unat_thlen)
  moreover have "length (blit ?o [c, d] ?T) = unat (thlen p)" using lT by (subst length_blit) (simp_all add: unat_thlen)
  moreover have "take ?o (blit ?o [c, d] ?T) = take ?o ?th"
    using lT by (subst take_blit) (simp_all add: unat_thlen min_def)
  ultimately show ?thesis using that [OF rc(1) lA _ _ lip] by simp
qed

lemma take_take_drop: "k + n \<le> m \<Longrightarrow> take m xs = take m ys \<Longrightarrow> take n (drop k xs) = take n (drop k ys)"
  by (metis drop_take le_diff_conv2 min.absorb1 take_take add.commute add_leD1)

text \<open>
  Property C10. What the builder sends is a well-formed datagram of the observed flow: when it
  succeeds, the packet is the link header, an IP header, a transport header and exactly the
  template's bytes; it fits the interface's MTU, carries the flow's ports and, for TCP, the
  sequence numbers of the handshake, and an IPv4 header with a valid checksum, the
  flow's addresses, the request's TTL and the right total length.
\<close>
theorem build_output:
  assumes "faithful_load K" and "writable_access K W" and "resize_access K W" and "csum_faithful K"
    and "\<forall>k t. m_templates w k = Some t \<longrightarrow> length (t_data t) = 1200"
    and "build K r iface (s, w) = (False, s', w')"
  shows "\<exists>p t. parse_packet K s iface (rq_reverse r) = Inr p \<and> m_templates w (request_template_key r) = Some t \<and>
    unat (iplen p) + unat (thlen p) + unat (t_len t) \<le> unat (i_mtu iface) \<and>
    (let l4 = unat (p_l3 p) + unat (iplen p); h = drop (unat (p_l3 p)) (sk_data s'); th = drop l4 (sk_data s') in
      length (sk_data s') = l4 + unat (thlen p) + unat (t_len t) \<and>
      drop (unat (thlen p)) th = take (unat (t_len t)) (t_data t) \<and>
      take 4 th = be16 (k_local_port (p_key p)) @ be16 (k_remote_port (p_key p)) \<and>
      (k_protocol (p_key p) = 6 \<longrightarrow> take 8 (drop 4 th) =
         (if rq_reverse r then be32 (p_ack p) @ be32 (p_seq p + 1) else be32 (p_seq p + 1) @ be32 (p_ack p))) \<and>
      (k_family (p_key p) = 4 \<longrightarrow> fold16 (sum16 (take 20 h)) = 65535 \<and> h ! 8 = ucast (rq_ttl r) \<and>
         take 4 (drop 12 h) = take 4 (k_local (p_key p)) \<and> take 4 (drop 16 h) = take 4 (k_remote (p_key p)) \<and>
         h ! 2 = ucast (drop_bit 8 (20 + (thlen p + t_len t))) \<and> h ! 3 = ucast (20 + (thlen p + t_len t))))"
  using assms(6)
proof (rule build_cases)
  fix p s2 t
  assume pp: "parse_packet K s iface (rq_reverse r) = Inr p" and s2: "\<not> p_fragment_header p \<Longrightarrow> s2 = s"
    and t: "m_templates w (request_template_key r) = Some t" "t_len t \<noteq> 0" "t_len t \<le> 1200"
    and mtu: "iplen p + (thlen p + t_len t) \<le> i_mtu iface" and bf: "build_fake K r p t s2 = (False, s')"
  note lay = parse_packet_layout [OF pp]
  from assms(5) t(1) have td: "length (t_data t) = 1200" by blast
  let ?tr = "thlen p + t_len t"
  have tl: "unat (t_len t) \<le> 1200" using t(3) by (simp add: word_le_nat_alt)
  have "unat ?tr = unat (thlen p) + unat (t_len t)" using tl by (intro unat_add_small) (simp add: unat_thlen)
  moreover have "unat (iplen p + ?tr) = unat (iplen p) + unat ?tr"
    using tl calculation by (intro unat_add_small) (simp add: unat_thlen unat_iplen)
  ultimately have m: "unat (iplen p) + unat (thlen p) + unat (t_len t) \<le> unat (i_mtu iface)"
    using mtu by (simp add: word_le_nat_alt)
  obtain oldsum eth0 ip A T where rc: "read_clone K p s2 = Some (oldsum, eth0, ip)"
    and A: "length A = unat (p_l3 p)" and T: "length T = unat (thlen p)" and lip: "length (build_ip K r p ?tr ip) = 40"
    and sd: "sk_data s' = A @ take (unat (iplen p)) (build_ip K r p ?tr ip) @ T @ take (unat (t_len t)) (t_data t)"
    and Th: "take (if k_protocol (p_key p) = 6 then 16 else 6) T =
      take (if k_protocol (p_key p) = 6 then 16 else 6) (final_th p (build_th r p ?tr))"
    by (rule built_bytes [OF assms(1-3) pp td t(2,3) bf])
  let ?ip = "build_ip K r p ?tr ip"
  have lH: "length (take (unat (iplen p)) ?ip) = unat (iplen p)" using lip by (simp add: unat_iplen)
  have d1: "drop (unat (p_l3 p)) (sk_data s') = take (unat (iplen p)) ?ip @ T @ take (unat (t_len t)) (t_data t)"
    using sd A by simp
  have d2: "drop (unat (p_l3 p) + unat (iplen p)) (sk_data s') = T @ take (unat (t_len t)) (t_data t)"
    using d1 lH by (simp add: drop_drop [symmetric] add.commute del: drop_drop)
  have ports: "take 4 T = be16 (k_local_port (p_key p)) @ be16 (k_remote_port (p_key p))"
    using take_take_drop [OF _ Th, of 0 4] build_th_bytes(1) [of p r ?tr] by simp
  have seqs: "k_protocol (p_key p) = 6 \<Longrightarrow> take 8 (drop 4 T) =
      (if rq_reverse r then be32 (p_ack p) @ be32 (p_seq p + 1) else be32 (p_seq p + 1) @ be32 (p_ack p))"
    using take_take_drop [OF _ Th, of 4 8] build_th_bytes(2) [of p r ?tr] lay
    by (simp add: packet_layout_def fresh_def)
  have v4: "fold16 (sum16 (take 20 ?ip)) = 65535 \<and> ?ip ! 8 = ucast (rq_ttl r) \<and>
      take 4 (drop 12 ?ip) = take 4 (k_local (p_key p)) \<and> take 4 (drop 16 ?ip) = take 4 (k_remote (p_key p)) \<and>
      ?ip ! 2 = ucast (drop_bit 8 (20 + ?tr)) \<and> ?ip ! 3 = ucast (20 + ?tr)"
    if fam: "k_family (p_key p) = 4"
  proof -
    have "s2 = s" using s2 lay fam by (auto simp: packet_layout_def)
    with read_clone_ip(3) [OF rc] fam obtain h where h: "skb_load_bytes K s (p_l3 p) 20 = Some h"
      and ip: "ip = bytes_of h 0 20 @ replicate 20 0" by (auto simp: unat_iplen)
    have "bytes_of h 0 20 ! 0 \<noteq> 0"
      using parse_keys(3) [OF pp assms(1) fam] faithful_loadD(2) [OF assms(1) h, of 0] by simp
    from ipv4_header_valid [OF assms(4) fam parse_keys(1,2) [OF pp] _ this, of ?ip r ?tr] show ?thesis by (simp add: ip)
  qed
  have T4: "4 \<le> length T" "k_protocol (p_key p) = 6 \<Longrightarrow> 12 \<le> length T" using T by (simp_all add: unat_thlen)
  let ?d = "sk_data s'" and ?l4 = "unat (p_l3 p) + unat (iplen p)"
  have "length ?d = ?l4 + unat (thlen p) + unat (t_len t)"
    using sd A T lH td tl by simp
  moreover have "drop (unat (thlen p)) (drop ?l4 ?d) = take (unat (t_len t)) (t_data t)"
    unfolding d2 using T by simp
  moreover have "take 4 (drop ?l4 ?d) = be16 (k_local_port (p_key p)) @ be16 (k_remote_port (p_key p))"
    unfolding d2 using T4(1) ports by simp
  moreover have "k_protocol (p_key p) = 6 \<longrightarrow> take 8 (drop 4 (drop ?l4 ?d)) =
      (if rq_reverse r then be32 (p_ack p) @ be32 (p_seq p + 1) else be32 (p_seq p + 1) @ be32 (p_ack p))"
  proof
    assume tcp: "k_protocol (p_key p) = 6"
    have "8 \<le> length T - 4" using T4(2) [OF tcp] by simp
    then show "take 8 (drop 4 (drop ?l4 ?d)) =
      (if rq_reverse r then be32 (p_ack p) @ be32 (p_seq p + 1) else be32 (p_seq p + 1) @ be32 (p_ack p))"
      unfolding d2 using seqs [OF tcp] by (simp del: drop_drop)
  qed
  moreover have "k_family (p_key p) = 4 \<longrightarrow> fold16 (sum16 (take 20 (drop (unat (p_l3 p)) ?d))) = 65535 \<and>
      drop (unat (p_l3 p)) ?d ! 8 = ucast (rq_ttl r) \<and>
      take 4 (drop 12 (drop (unat (p_l3 p)) ?d)) = take 4 (k_local (p_key p)) \<and>
      take 4 (drop 16 (drop (unat (p_l3 p)) ?d)) = take 4 (k_remote (p_key p)) \<and>
      drop (unat (p_l3 p)) ?d ! 2 = ucast (drop_bit 8 (20 + ?tr)) \<and> drop (unat (p_l3 p)) ?d ! 3 = ucast (20 + ?tr)"
  proof
    assume fam: "k_family (p_key p) = 4"
    have i: "unat (iplen p) = 20" using fam by (simp add: unat_iplen)
    have tk: "take n (drop m (take 20 ?ip @ X)) = take n (drop m ?ip)" if "m + n \<le> 20" for m n X
      using that lip by (simp add: take_drop min_def)
    show "fold16 (sum16 (take 20 (drop (unat (p_l3 p)) ?d))) = 65535 \<and>
      drop (unat (p_l3 p)) ?d ! 8 = ucast (rq_ttl r) \<and>
      take 4 (drop 12 (drop (unat (p_l3 p)) ?d)) = take 4 (k_local (p_key p)) \<and>
      take 4 (drop 16 (drop (unat (p_l3 p)) ?d)) = take 4 (k_remote (p_key p)) \<and>
      drop (unat (p_l3 p)) ?d ! 2 = ucast (drop_bit 8 (20 + ?tr)) \<and> drop (unat (p_l3 p)) ?d ! 3 = ucast (20 + ?tr)"
      unfolding d1 i using v4 [OF fam] lip tk [of 12 4] tk [of 16 4] by (simp add: nth_append del: drop_append)
  qed
  ultimately show ?thesis using pp t(1) m by (simp only: Let_def) blast
qed


section \<open>A worked example\<close>

lemma list_kern_csum_replace:
  "unat off + 2 \<le> length (sk_data s) \<Longrightarrow>
    \<exists>s'. l4_csum_replace list_kern s off a b fl = (False, s') \<and> length (sk_data s') = length (sk_data s)"
  by (simp add: list_kern_def Let_def length_blit)

lemma list_kern_write_fake:
  assumes l3: "unat (p_l3 p) \<in> {0, 14, 18, 22, 26, 30}"
    and len: "length eth = 32" "length ip = 40" "length th = 20" "unat (t_len t) \<le> length (t_data t)"
      "t_len t \<noteq> 0" "unat (t_len t) \<le> 1200"
    and prot: "k_protocol (p_key p) \<in> {6, 17}"
  shows "\<exists>s'. write_fake list_kern p t eth ip th old new s = (False, s')"
proof -
  let ?W = "\<lambda>s m. m \<le> length (sk_data s)" and ?n = "p_l3 p + iplen p + (thlen p + t_len t)"
  have "length (final_th p th) = 20" using len(3) by simp
  note lay = fake_stores_layout [OF l3 len(1,2) this len(4,6)]
  obtain s1 where s1: "skb_change_tail list_kern s ?n = (False, s1)" by (simp add: list_kern_def)
  note r1 = resize_accessD [OF list_kern_resize s1]
  let ?cs = "p_l3 p + iplen p + (if k_protocol (p_key p) = 6 then 16 else 6)"
  have i: "iplen p = 20 \<or> iplen p = 40" by (simp add: iplen_def)
  have l3_le: "unat (p_l3 p) \<le> 30" using l3 by auto
  have cs: "unat ?cs = unat (p_l3 p) + unat (iplen p) + (if k_protocol (p_key p) = 6 then 16 else 6)"
    using l3 i by (subst unat_add_small; (subst unat_add_small)?) auto
  have fit: "unat ?cs + 2 \<le> unat ?n"
    using lay(3) len prot i l3_le unfolding cs by (auto simp: fake_bytes_def thlen_def)
  have ok: "\<exists>s'. in_order [\<lambda>s. l4_csum_replace list_kern s ?cs a b fl, \<lambda>s. l4_csum_replace list_kern s ?cs a' b' fl'] s2 = (False, s')"
    if s2: "length (sk_data s2) = unat ?n" for s2 a b fl a' b' fl'
  proof -
    obtain s3 where s3: "l4_csum_replace list_kern s2 ?cs a b fl = (False, s3)" "length (sk_data s3) = unat ?n"
      using list_kern_csum_replace [of ?cs s2] fit s2 by metis
    obtain s4 where s4: "l4_csum_replace list_kern s3 ?cs a' b' fl' = (False, s4)"
      using list_kern_csum_replace [of ?cs s3] fit s3(2) by metis
    show ?thesis by (simp add: s3(1) s4)
  qed
  have "\<exists>s'. in_order (write_calls list_kern p t eth ip (final_th p th) delta pseudo) s = (False, s')" for delta pseudo
  proof -
    obtain s2 where run: "\<And>fs. in_order (map (store_at list_kern) (fake_stores p t eth ip (final_th p th)) @ fs) s1 = in_order fs s2"
      and s2: "sk_data s2 = fake_bytes p t eth ip (final_th p th)"
      using in_order_stores [where A = "[]" and R = "sk_data s1" and ws = "fake_stores p t eth ip (final_th p th)",
        OF list_kern_access r1(1)] r1(2) lay by auto
    show ?thesis
      using ok [of s2] s2 lay(3) by (simp only: write_calls_stores [OF len(5,6)] in_order.simps(2) s1 prod.case if_False run)
  qed
  then obtain s' where "in_order (write_calls list_kern p t eth ip (final_th p th)
      (if fresh p then ucast new else data_delta old new)
      (if fresh p then pseudo_sum list_kern p (thlen p + t_len t) ip else 0)) s = (False, s')" by blast
  then show ?thesis by (simp add: write_fake_def Let_def)
qed

text \<open>The request that the sample SYN's connection leads to, and a template for it.\<close>

definition sample_template :: ff_template where
  "sample_template = \<lparr>t_len = 4, t_data = [71, 69, 84, 32] @ replicate 1196 0\<rparr>"

definition sample_request :: ff_request where
  "sample_request = make_request sample_interface sample_config False 1000 6 1 17 syn_packet"

definition builder_world :: "u64 world" where
  "builder_world = sample_world\<lparr>m_templates := [FF_TEMPLATE_KEY 5 1 17 \<mapsto> sample_template],
     m_requests := [7 \<mapsto> sample_request], m_sequence := [0 \<mapsto> 7]\<rparr>"

lemma sample_request_fields:
  "rq_state sample_request = 0" "rq_expires sample_request = 1000001000" "rq_ifindex sample_request = 3"
  "rq_ifgen sample_request = 1" "\<not> rq_reverse sample_request" "rq_ttl sample_request = 6"
  "rq_saved_cb0 sample_request = 0" "rq_saved_cb1 sample_request = 0"
  "request_template_key sample_request = FF_TEMPLATE_KEY 5 1 17"
  by (simp_all add: sample_request_def make_request_def sample_interface_def sample_config_def syn_packet_def
      request_template_key_def request_plan_def)

lemma sample_template_fields:
  "t_len sample_template = 4" "length (t_data sample_template) = 1200"
  by (simp_all add: sample_template_def)

lemma old_sum_numeral:
  "old_sum K s p i (numeral n) acc =
     (let off = p_l4 p + of_nat i * 64 in
      if p_end p \<le> off then Some acc
      else
        let m = (if 64 < p_end p - off then 64 else p_end p - off) in
        case load_chunk K s off (ucast m) of
          None \<Rightarrow> None
        | Some h \<Rightarrow>
            old_sum K s p (i + 1) (pred_numeral n)
              (ucast (csum_diff K [] (bytes_of h 0 (unat m) @ replicate (64 - unat m) 0) acc)))"
  by (simp add: numeral_eq_Suc)

lemma payload_sum_numeral:
  "payload_sum K t i (numeral n) acc =
     (if unat (t_len t) \<le> i * 80 then Some acc
      else if 1120 < i * 80 then None
      else
        let part = csum_diff K [] (take 80 (drop (i * 80) (t_data t))) acc in
        if sint part < 0 then None else payload_sum K t (i + 1) (pred_numeral n) (ucast part))"
  by (simp add: numeral_eq_Suc)

text \<open>The clone of the SYN on the builder device, under request 7.\<close>

definition sample_clone :: skb where
  "sample_clone = syn_packet\<lparr>sk_cb0 := 7, sk_ifindex := 9\<rparr>"

definition clone_parsed :: packet where
  "clone_parsed = syn_parsed\<lparr>p_key := (p_key syn_parsed)\<lparr>k_ifindex := 9\<rparr>\<rparr>"

lemma sample_clone_data: "sk_data sample_clone = sk_data syn_packet" "sk_len sample_clone = 48"
  "request_id sample_clone = 7" "sk_ifindex sample_clone = 9"
  "length (sk_data syn_packet) = 48"
  by (simp_all add: sample_clone_def syn_packet_def request_id_def)

lemma parse_clone:
  assumes "skb_load_bytes K = skb_load_bytes list_kern"
  shows "parse_packet K sample_clone sample_interface False = Inr clone_parsed"
  unfolding clone_parsed_def syn_parsed_def sample_clone_def
  apply (simp add: parse_packet_def parse_l2_def sample_interface_def l2_start_def syn_packet_fields)
  apply (simp add: parse_l3_def assms list_kern_simps parse_ipv4_def Let_def read16_def syn_packet_fields)
  apply (simp add: parse_l4_def parse_tcp_def assms list_kern_simps zero_packet_def zero_key_def syn_packet_fields)
  apply (simp add: parse_ports_def read16_def read32_def copy16_def addr4_def bytes_of_def upt_rec)
  done

lemma sample_build:
  assumes "m_templates w = m_templates builder_world"
  obtains s' where "build list_kern sample_request sample_interface (sample_clone, w) = (False, s', w)"
proof -
  let ?w = w and ?s = sample_clone and ?p = clone_parsed
  have pp: "parse list_kern ?s sample_interface (rq_reverse sample_request) ?w = (Some ?p, ?w)"
    using parse_clone [of list_kern] sample_request_fields(5) by (simp add: parse_def)
  have pf: "p_l3 ?p = 0" "p_l4 ?p = 20" "p_end ?p = 48" "k_family (p_key ?p) = 4" "k_protocol (p_key ?p) = 6"
    "\<not> p_fragment_header ?p" "\<not> p_first_fragment ?p" "k_session (p_key ?p) = 0" "length (k_local (p_key ?p)) = 16"
    "length (k_remote (p_key ?p)) = 16"
    by (simp_all add: clone_parsed_def syn_parsed_def zero_packet_def zero_key_def)
  have len: "iplen ?p = 20" "thlen ?p = 20" "\<not> fresh ?p" using pf by (simp_all add: iplen_def thlen_def fresh_def)
  have probe: "probe_checksum list_kern ?p (?s, ?w) = (False, ?s, ?w)" using pf by (simp add: probe_checksum_def)
  obtain old where old: "old_sum list_kern ?s ?p 0 64 0 = Some old"
    by (simp add: old_sum_numeral pf load_chunk_def list_kern_simps sample_clone_data Let_def)
  then obtain ip where rc: "read_clone list_kern ?p ?s = Some (old, replicate 32 0, ip)"
    by (simp add: read_clone_def pf len list_kern_simps sample_clone_data)
  have eth: "build_eth sample_request ?p (thlen ?p + t_len sample_template) (replicate 32 0) = Some (replicate 32 0)"
    by (simp add: build_eth_def sample_request_fields pf)
  obtain new where new: "payload_sum list_kern sample_template 0 15
      (ucast (csum_diff list_kern [] (build_th sample_request ?p (thlen ?p + t_len sample_template)) 0)) = Some new"
    by (simp add: payload_sum_numeral sample_template_fields Let_def csum_nonneg)
  let ?ip = "build_ip list_kern sample_request ?p (thlen ?p + t_len sample_template) ip"
  have lip: "length (build_ip list_kern sample_request ?p tr ip) = 40" for tr
    by (rule length_build_ip [OF read_clone_ip(2) [OF rc] pf(9,10)])
  have "\<exists>s'. write_fake list_kern ?p sample_template (replicate 32 0) ?ip
      (build_th sample_request ?p (thlen ?p + t_len sample_template)) old new ?s = (False, s')"
    by (rule list_kern_write_fake) (simp_all add: pf lip sample_template_fields)
  then obtain s' where wf: "write_fake list_kern ?p sample_template (replicate 32 0) ?ip
      (build_th sample_request ?p (thlen ?p + t_len sample_template)) old new ?s = (False, s')" by blast
  have "build_fake list_kern sample_request ?p sample_template ?s = (False, s')"
    unfolding build_fake_def Let_def by (simp only: rc eth new option.case prod.case wf)
  moreover have "m_templates ?w (request_template_key sample_request) = Some sample_template"
    by (simp add: assms sample_request_fields builder_world_def)
  moreover have "i_mtu sample_interface = 1500" by (simp add: sample_interface_def)
  ultimately have "build list_kern sample_request sample_interface (?s, ?w) = (False, s', ?w)"
    by (simp add: build_def pp probe sample_template_fields len pf word_less_nat_alt)
  then show ?thesis by (rule that)
qed

lemma builder_world_template: "m_templates builder_world k = Some t \<Longrightarrow> length (t_data t) = 1200"
  by (auto simp: builder_world_def sample_template_fields sample_world_def empty_world_def split: if_splits)

theorem build_output_witness:
  "\<exists>s' w'. build list_kern sample_request sample_interface (sample_clone, builder_world) = (False, s', w') \<and>
     drop 40 (sk_data s') = [71, 69, 84, 32] \<and> length (sk_data s') = 44 \<and>
     fold16 (sum16 (take 20 (sk_data s'))) = 65535 \<and> sk_data s' ! 8 = 6"
proof -
  obtain s' where run: "build list_kern sample_request sample_interface (sample_clone, builder_world) = (False, s', builder_world)"
    using sample_build [OF refl] .
  have pp: "parse_packet list_kern sample_clone sample_interface False = Inr clone_parsed"
    by (rule parse_clone) simp
  have tm: "\<forall>k t. m_templates builder_world k = Some t \<longrightarrow> length (t_data t) = 1200"
    using builder_world_template by blast
  have t: "m_templates builder_world (FF_TEMPLATE_KEY 5 1 17) = Some sample_template"
    by (simp add: builder_world_def)
  have f: "p_l3 clone_parsed = 0" "unat (iplen clone_parsed) = 20" "unat (thlen clone_parsed) = 20" "k_family (p_key clone_parsed) = 4"
    by (simp_all add: clone_parsed_def syn_parsed_def zero_packet_def zero_key_def iplen_def thlen_def)
  have td: "take 4 (t_data sample_template) = [71, 69, 84, 32]" by (simp add: sample_template_def)
  from build_output [OF list_kern_load list_kern_access list_kern_resize list_kern_csum tm run]
  show ?thesis using run
    by (simp add: pp t f Let_def sample_template_fields td sample_request_fields)
qed


end
