(* ===== verification/Publish.thy ===== *)
theory Publish
  imports Lifecycle Fake
begin

text \<open>
  What publishing a configuration promises (\<open>publish\<close>, \<open>reap_configs\<close> of
  \<open>ebpf/user/lifecycle.c\<close>): reaping returns and leaves the current and the previous generation,
  a failed publication leaves the maps as they were, a successful one writes every template the new
  configuration refers to, and three generations always fit.
\<close>

section \<open>Generations and keys\<close>

text \<open>The generation a template key belongs to.\<close>

definition key_gen :: "u32 \<Rightarrow> nat" where
  "key_gen k = unat k div 128"

lemma template_span_val: "template_span = 128"
  by (simp add: template_span_def)

lemma template_key_span: "FF_TEMPLATE_KEY gen plan v = gen * template_span + plan * FF_TEMPLATE_VARIANTS + v"
  by (simp add: FF_TEMPLATE_KEY_def template_span_def algebra_simps)

lemma span_key_nat:
  assumes "gen \<le> last_generation" and "i < 128"
  shows "unat (gen * template_span + of_nat i) = 128 * unat gen + i"
proof -
  have g: "unat gen \<le> 33554431" using assms(1) by (simp add: last_generation_def word_le_nat_alt)
  have i: "unat (of_nat i :: u32) = i" using assms(2) by (simp add: unat_of_nat)
  have m: "unat (gen * 128) = unat gen * 128" using g by (intro unat_mult_small [THEN trans]) simp_all
  show ?thesis unfolding template_span_val using m i g assms(2) by (subst unat_add_small) simp_all
qed

lemma key_gen_span: "gen \<le> last_generation \<Longrightarrow> i < 128 \<Longrightarrow> key_gen (gen * template_span + of_nat i) = unat gen"
  by (simp add: key_gen_def span_key_nat)

lemma key_gen_template:
  "gen \<le> last_generation \<Longrightarrow> plan < 4 \<Longrightarrow> v < 32 \<Longrightarrow> key_gen (FF_TEMPLATE_KEY gen plan v) = unat gen"
  using template_key_nat [of gen plan v] by (simp add: key_gen_def word_less_nat_alt)

lemma in_span_iff:
  assumes "gen \<le> last_generation"
  shows "(\<exists>i < 128. k = gen * template_span + of_nat i) \<longleftrightarrow> key_gen k = unat gen"
proof
  assume "key_gen k = unat gen"
  then have "unat k = 128 * unat gen + unat k mod 128" by (simp add: key_gen_def) (metis div_mult_mod_eq mult.commute)
  also have "\<dots> = unat (gen * template_span + of_nat (unat k mod 128))"
    by (rule span_key_nat [OF assms, symmetric]) simp
  finally have "k = gen * template_span + of_nat (unat k mod 128)" by (simp only: word_unat_eq_iff)
  then show "\<exists>i < 128. k = gen * template_span + of_nat i" by (intro exI [of _ "unat k mod 128"]) simp
qed (auto simp: key_gen_span assms)

lemma clear_span_at: "clear_span base n m k = (if \<exists>i < n. k = base + of_nat i then None else m k)"
  by (induction n) (auto simp: less_Suc_eq)

definition without_gen :: "u32 \<Rightarrow> (u32 \<rightharpoonup> ff_template) \<Rightarrow> (u32 \<rightharpoonup> ff_template)" where
  "without_gen gen m = (\<lambda>k. if key_gen k = unat gen then None else m k)"

lemma clear_span_gen:
  "gen \<le> last_generation \<Longrightarrow> clear_span (gen * template_span) (unat template_span) m = without_gen gen m"
  using in_span_iff [of gen] by (auto simp: fun_eq_iff clear_span_at without_gen_def template_span_val)

section \<open>Reaping old generations\<close>

definition stale :: "u32 \<Rightarrow> u32 \<Rightarrow> bool" where
  "stale gen k \<longleftrightarrow> k + 1 < gen"

text \<open>What reaping is meant to leave: everything but the generations older than the previous one.\<close>

definition outdated :: "u32 \<Rightarrow> 'e world \<Rightarrow> u32 \<Rightarrow> bool" where
  "outdated gen w t \<longleftrightarrow> (\<exists>k. m_configs w k \<noteq> None \<and> stale gen k \<and> key_gen t = unat k)"

definition reaped :: "u32 \<Rightarrow> 'e world \<Rightarrow> 'e world" where
  "reaped gen w = w\<lparr>
     m_templates := (\<lambda>t. if outdated gen w t then None else m_templates w t),
     m_configs := (\<lambda>k. if stale gen k then None else m_configs w k)\<rparr>"

text \<open>The documented behaviour of the iteration: it visits every entry once.\<close>

definition iterates :: "'e host \<Rightarrow> bool" where
  "iterates H \<longleftrightarrow> (\<forall>m. finite (dom m) \<longrightarrow> distinct (config_keys H m) \<and> set (config_keys H m) = dom m)"

definition config_store :: "(u32 \<rightharpoonup> ff_config) \<Rightarrow> bool" where
  "config_store m \<longleftrightarrow> (\<forall>k \<in> dom m. 0 < k \<and> k \<le> last_generation)"

lemma finite_dom_u32 [simp]: "finite (dom (m :: u32 \<rightharpoonup> 'v))"
  by (rule finite_subset [OF subset_UNIV]) simp

definition delete_gen :: "u32 \<Rightarrow> 'e world \<Rightarrow> 'e world" where
  "delete_gen k w = w\<lparr>m_templates := without_gen k (m_templates w), m_configs := (m_configs w)(k := None)\<rparr>"

lemma next_key_at:
  assumes "distinct (seen @ rest)" and "0 \<notin> set (seen @ rest)"
    and "key = (if seen = [] then 0 else last seen)"
  shows "next_key (seen @ rest) (if key = 0 then None else Some key) = (if rest = [] then None else Some (hd rest))"
proof (cases seen rule: rev_cases)
  case Nil
  with assms(3) show ?thesis by (simp add: next_key_def)
next
  case (snoc xs x)
  with assms have k: "key = x" "key \<noteq> 0" by auto
  have "x \<notin> set xs" using assms(1) snoc by simp
  then have "dropWhile (\<lambda>y. y \<noteq> x) (xs @ x # rest) = x # rest" by (induction xs) auto
  with k snoc show ?thesis by (simp add: next_key_def)
qed

lemma reap_loop_scan:
  assumes "iterates H" and "config_store (m_configs w)" and "config_keys H (m_configs w) = seen @ rest"
    and "key = (if seen = [] then 0 else last seen)"
  shows "reap_loop H gen key w = (case find (stale gen) rest of None \<Rightarrow> Some w
    | Some k \<Rightarrow> reap_loop H gen 0 (delete_gen k w))"
  using assms(3,4)
proof (induction rest arbitrary: seen key)
  case Nil
  have d: "distinct (seen @ [])" "0 \<notin> set (seen @ [])"
    using assms(1,2) Nil(1) by (auto simp: iterates_def config_store_def)
  show ?case using next_key_at [OF d Nil(2)] Nil(1) by (subst reap_loop.simps) simp
next
  case (Cons k rest)
  have set: "set (seen @ k # rest) = dom (m_configs w)"
    using assms(1) Cons.prems(1) by (metis finite_dom_u32 iterates_def)
  have d: "distinct (seen @ k # rest)" "0 \<notin> set (seen @ k # rest)"
  proof -
    show "distinct (seen @ k # rest)" using assms(1) Cons.prems(1) by (metis finite_dom_u32 iterates_def)
    show "0 \<notin> set (seen @ k # rest)" unfolding set using assms(2) by (auto simp: config_store_def)
  qed
  have "k \<in> dom (m_configs w)" unfolding set [symmetric] by simp
  with assms(2) have k: "k \<le> last_generation" by (simp add: config_store_def)
  note step = reap_loop.simps [of H gen key w, unfolded Cons.prems(1) next_key_at [OF d Cons.prems(2)]]
  show ?case
  proof (cases "stale gen k")
    case True
    then show ?thesis
      by (subst step) (simp add: stale_def delete_gen_def clear_span_gen [OF k])
  next
    case False
    have "reap_loop H gen k w = (case find (stale gen) rest of None \<Rightarrow> Some w
        | Some k \<Rightarrow> reap_loop H gen 0 (delete_gen k w))"
      by (rule Cons.IH [of "seen @ [k]"]) (use Cons.prems in simp_all)
    with False show ?thesis by (subst step) (simp add: stale_def)
  qed
qed

lemma reaped_delete:
  assumes "stale gen k" and "m_configs w k \<noteq> None"
  shows "reaped gen (delete_gen k w) = reaped gen w"
proof -
  have "m_templates (reaped gen (delete_gen k w)) = m_templates (reaped gen w)"
    using assms by (auto simp: reaped_def outdated_def delete_gen_def without_gen_def fun_eq_iff)
  moreover have "m_configs (reaped gen (delete_gen k w)) = m_configs (reaped gen w)"
    using assms by (auto simp: reaped_def delete_gen_def fun_eq_iff)
  ultimately show ?thesis by (intro world.equality) (simp_all add: reaped_def delete_gen_def)
qed

lemma reaped_nothing: "(\<And>k. m_configs w k \<noteq> None \<Longrightarrow> \<not> stale gen k) \<Longrightarrow> reaped gen w = w"
proof -
  assume fresh: "\<And>k. m_configs w k \<noteq> None \<Longrightarrow> \<not> stale gen k"
  then have "(if stale gen k then None else m_configs w k) = m_configs w k" for k by (cases "m_configs w k") auto
  then have "m_configs (reaped gen w) = m_configs w" by (simp add: reaped_def)
  moreover have "m_templates (reaped gen w) = m_templates w" using fresh by (auto simp: reaped_def outdated_def fun_eq_iff)
  ultimately show "reaped gen w = w" by (intro world.equality) (simp_all add: reaped_def)
qed

lemma reap_loop_reaped:
  assumes "iterates H"
  shows "config_store (m_configs w) \<Longrightarrow> reap_loop H gen 0 w = Some (reaped gen w)"
proof (induction "card (dom (m_configs w))" arbitrary: w rule: less_induct)
  case less
  let ?ks = "config_keys H (m_configs w)"
  have set: "set ?ks = dom (m_configs w)" using assms by (simp add: iterates_def)
  note scan = reap_loop_scan [OF assms less.prems, of "[]" ?ks 0 gen, simplified]
  show ?case
  proof (cases "find (stale gen) ?ks")
    case None
    then have "reaped gen w = w" using set by (intro reaped_nothing) (auto simp: find_None_iff)
    with scan None show ?thesis by simp
  next
    case (Some k)
    then have k: "stale gen k" "k \<in> dom (m_configs w)" using set by (metis find_Some_iff nth_mem)+
    have "card (dom (m_configs (delete_gen k w))) < card (dom (m_configs w))"
      using k(2) unfolding delete_gen_def by (simp add: card_Diff1_less del: card_Diff_insert)
    moreover have "config_store (m_configs (delete_gen k w))"
      using less.prems by (simp add: config_store_def delete_gen_def)
    ultimately have "reap_loop H gen 0 (delete_gen k w) = Some (reaped gen (delete_gen k w))"
      by (rule less.hyps)
    moreover have "reaped gen (delete_gen k w) = reaped gen w"
      using k by (intro reaped_delete) auto
    ultimately show ?thesis using scan Some by simp
  qed
qed

section \<open>Writing the templates of a generation\<close>

text \<open>\<open>bpf_map_update_elem\<close> with \<open>BPF_ANY\<close>: an error changes nothing.\<close>

definition map_update :: "('k \<Rightarrow> 'v \<Rightarrow> ('k \<rightharpoonup> 'v) \<Rightarrow> bool \<times> ('k \<rightharpoonup> 'v)) \<Rightarrow> bool" where
  "map_update upd \<longleftrightarrow> (\<forall>k v m e m'. upd k v m = (e, m') \<longrightarrow> m' = (if e then m else m(k \<mapsto> v)))"

text \<open>The maps of the daemon behave as documented.\<close>

definition host_maps :: "'e host \<Rightarrow> bool" where
  "host_maps H \<longleftrightarrow> iterates H \<and> hash_insert (template_insert H) \<and> hash_insert (config_insert H) \<and> map_update (active_update H)"

lemma publish_variants_frame:
  assumes "hash_insert (template_insert H)"
  shows "publish_variants H k ts m = (err, m') \<Longrightarrow> (\<And>i. i < length ts \<Longrightarrow> t \<noteq> k + of_nat i) \<Longrightarrow> m' t = m t"
proof (induction ts arbitrary: k m)
  case (Cons x ts)
  obtain e m1 where ins: "template_insert H k x m = (e, m1)" by fastforce
  have t: "t \<noteq> k" using Cons.prems(2) [of 0] by simp
  have one: "m1 t = m t" using hash_insertD [OF assms ins] t by (cases e) auto
  show ?case
  proof (cases e)
    case True
    with Cons.prems(1) ins one show ?thesis by simp
  next
    case False
    with Cons.prems(1) ins have "publish_variants H (k + 1) ts m1 = (err, m')" by simp
    moreover have "t \<noteq> k + 1 + of_nat i" if "i < length ts" for i
      using Cons.prems(2) [of "Suc i"] that by (simp add: add_ac)
    ultimately have "m' t = m1 t" by (rule Cons.IH)
    with one show ?thesis by simp
  qed
qed simp

lemma of_nat_u32_eq: "i < 4294967296 \<Longrightarrow> j < 4294967296 \<Longrightarrow> (of_nat i :: u32) = of_nat j \<longleftrightarrow> i = j"
  by (auto simp: word_unat_eq_iff unat_of_nat)

lemma publish_variants_written:
  assumes "hash_insert (template_insert H)"
  shows "publish_variants H k ts m = (False, m') \<Longrightarrow> length ts \<le> 128 \<Longrightarrow> i < length ts \<Longrightarrow> m' (k + of_nat i) = Some (ts ! i)"
proof (induction ts arbitrary: k m i)
  case (Cons x ts)
  obtain e m1 where ins: "template_insert H k x m = (e, m1)" by fastforce
  with Cons.prems(1) have e: "\<not> e" and rest: "publish_variants H (k + 1) ts m1 = (False, m')" by (auto split: if_splits)
  show ?case
  proof (cases i)
    case 0
    have "k \<noteq> k + 1 + of_nat j" if "j < length ts" for j
    proof
      assume "k = k + 1 + of_nat j"
      then have "(of_nat (Suc j) :: u32) = of_nat 0" by (simp add: add_ac)
      with that Cons.prems(2) show False by (subst (asm) of_nat_u32_eq) simp_all
    qed
    with publish_variants_frame [OF assms rest] have "m' k = m1 k" by simp
    also have "m1 k = Some x" using hash_insertD(3) [OF assms ins e] by simp
    finally show ?thesis using 0 by simp
  next
    case (Suc j)
    with Cons.IH [OF rest, of j] Cons.prems show ?thesis by (simp add: add_ac)
  qed
qed simp

lemma plan_count_le: "plan_count op plan \<le> 32"
  by (simp add: plan_count_def Let_def)

text \<open>The keys \<open>publish\<close> writes for a plan, and those it writes at all.\<close>

definition plan_key :: "u32 \<Rightarrow> nat \<Rightarrow> nat \<Rightarrow> u32" where
  "plan_key gen plan i = gen * template_span + of_nat (32 * plan + i)"

lemma plan_key_template: "plan_key gen plan i = FF_TEMPLATE_KEY gen (of_nat plan) (of_nat i)"
  by (simp add: plan_key_def template_key_span add_ac)

lemma plan_key_nat:
  "gen \<le> last_generation \<Longrightarrow> plan < 4 \<Longrightarrow> i < 32 \<Longrightarrow> unat (plan_key gen plan i) = 128 * unat gen + 32 * plan + i"
  unfolding plan_key_def by (subst span_key_nat) simp_all

lemma plan_key_inject:
  assumes "gen \<le> last_generation" "plan < 4" "i < 32" "plan' < 4" "i' < 32" "plan_key gen plan i = plan_key gen plan' i'"
  shows "plan = plan' \<and> i = i'"
proof -
  have "32 * plan + i = 32 * plan' + i'"
    using arg_cong [OF assms(6), of unat] assms(1-5) by (simp add: plan_key_nat)
  then have "(32 * plan + i) div 32 = (32 * plan' + i') div 32 \<and> (32 * plan + i) mod 32 = (32 * plan' + i') mod 32" by simp
  then show ?thesis using assms(3,5) by simp
qed

lemma publish_plans_Cons:
  assumes "publish_plans H (gen * template_span) op (plan # plans) (ts # tss) m = (err, m')"
  obtains m1 e where "publish_variants H (plan_key gen plan 0) (take (plan_count op plan) ts) m = (e, m1)"
    and "if e then err \<and> m' = m1 else publish_plans H (gen * template_span) op plans tss m1 = (err, m')"
proof -
  obtain e m1 where v: "publish_variants H (plan_key gen plan 0) (take (plan_count op plan) ts) m = (e, m1)" by fastforce
  have "gen * template_span + of_nat plan * FF_TEMPLATE_VARIANTS = plan_key gen plan 0"
    by (simp add: plan_key_def)
  with v assms show ?thesis by (intro that [OF v]) (simp_all split: if_splits)
qed

lemma plan_key_add: "plan_key gen plan 0 + of_nat i = plan_key gen plan i"
  by (simp add: plan_key_def)

lemma publish_plans_frame:
  assumes ins: "hash_insert (template_insert H)"
  shows "publish_plans H (gen * template_span) op plans tss m = (err, m') \<Longrightarrow>
    (\<And>plan i. plan \<in> set plans \<Longrightarrow> i < plan_count op plan \<Longrightarrow> t \<noteq> plan_key gen plan i) \<Longrightarrow> m' t = m t"
proof (induction plans arbitrary: tss m)
  case (Cons plan plans)
  show ?case
  proof (cases tss)
    case Nil
    with Cons.prems(1) show ?thesis by simp
  next
    case (Cons ts tss')
    obtain m1 e where v: "publish_variants H (plan_key gen plan 0) (take (plan_count op plan) ts) m = (e, m1)"
      and ok: "if e then err \<and> m' = m1 else publish_plans H (gen * template_span) op plans tss' m1 = (err, m')"
      by (rule publish_plans_Cons [OF Cons.prems(1) [unfolded Cons]])
    have one: "m1 t = m t"
      by (rule publish_variants_frame [OF ins v]) (use Cons.prems(2) in \<open>simp add: plan_key_add\<close>)
    show ?thesis
    proof (cases e)
      case False
      with ok have r: "publish_plans H (gen * template_span) op plans tss' m1 = (err, m')" by simp
      have "m' t = m1 t" by (rule Cons.IH [OF r]) (use Cons.prems(2) in simp)
      with one show ?thesis by simp
    qed (use ok one in simp)
  qed
qed simp

lemma publish_plans_written:
  assumes ins: "hash_insert (template_insert H)" and gen: "gen \<le> last_generation"
  shows "publish_plans H (gen * template_span) op plans tss m = (False, m') \<Longrightarrow> distinct plans \<Longrightarrow> set plans \<subseteq> {..<4} \<Longrightarrow>
    list_all2 (\<lambda>plan ts. plan_count op plan \<le> length ts) plans tss \<Longrightarrow> j < length plans \<Longrightarrow> i < plan_count op (plans ! j) \<Longrightarrow>
    m' (plan_key gen (plans ! j) i) = Some (tss ! j ! i)"
proof (induction plans arbitrary: tss m j)
  case (Cons plan plans)
  from Cons.prems(4) obtain ts tss' where tss: "tss = ts # tss'" "plan_count op plan \<le> length ts"
    "list_all2 (\<lambda>plan ts. plan_count op plan \<le> length ts) plans tss'"
    by (auto simp: list_all2_Cons1)
  from Cons.prems(1) tss(1) obtain m1 where v: "publish_variants H (plan_key gen plan 0) (take (plan_count op plan) ts) m = (False, m1)"
    and ok: "publish_plans H (gen * template_span) op plans tss' m1 = (False, m')"
    by (metis publish_plans_Cons)
  show ?case
  proof (cases j)
    case 0
    have i: "i < plan_count op plan" using Cons.prems(6) 0 by simp
    have "m' (plan_key gen plan i) = m1 (plan_key gen plan i)"
    proof (rule publish_plans_frame [OF ins ok])
      fix plan' i'
      assume p: "plan' \<in> set plans" and i': "i' < plan_count op plan'"
      show "plan_key gen plan i \<noteq> plan_key gen plan' i'"
      proof
        assume eq: "plan_key gen plan i = plan_key gen plan' i'"
        have "plan = plan' \<and> i = i'"
          by (rule plan_key_inject [OF gen _ _ _ _ eq])
            (use Cons.prems(3) p i i' plan_count_le [of op plan] plan_count_le [of op plan'] in auto)
        with p Cons.prems(2) show False by simp
      qed
    qed
    also have "m1 (plan_key gen plan i) = Some (ts ! i)"
      using publish_variants_written [OF ins v, of i] tss(2) i plan_count_le [of op plan] by (simp add: plan_key_add)
    finally show ?thesis using 0 tss(1) by simp
  next
    case (Suc j')
    with Cons.IH [OF ok _ _ tss(3), of j'] Cons.prems tss(1) show ?thesis by simp
  qed
qed simp

section \<open>Publishing\<close>

text \<open>No entry of a generation is there yet.\<close>

definition fresh_gen :: "u32 \<Rightarrow> 'e world \<Rightarrow> bool" where
  "fresh_gen gen w \<longleftrightarrow> m_configs w gen = None \<and> (\<forall>t. key_gen t = unat gen \<longrightarrow> m_templates w t = None)"

lemma plan_key_gen: "gen \<le> last_generation \<Longrightarrow> plan < 4 \<Longrightarrow> i < 32 \<Longrightarrow> key_gen (plan_key gen plan i) = unat gen"
  by (simp add: key_gen_def plan_key_nat)

text \<open>What the templates of the other generations are while one is written.\<close>

lemma publish_plans_other:
  assumes ins: "hash_insert (template_insert H)" and gen: "gen \<le> last_generation"
    and run: "publish_plans H (gen * template_span) op [0..<4] tss m = (err, m')" and t: "key_gen t \<noteq> unat gen"
  shows "m' t = m t"
proof (rule publish_plans_frame [OF ins run])
  fix plan i
  assume "plan \<in> set [0..<4]" "i < plan_count op plan"
  then show "t \<noteq> plan_key gen plan i"
    using t plan_key_gen [OF gen, of plan i] plan_count_le [of op plan] by auto
qed

lemma without_gen_same: "(\<And>t. key_gen t \<noteq> unat gen \<Longrightarrow> m' t = m t) \<Longrightarrow> (\<And>t. key_gen t = unat gen \<Longrightarrow> m t = None) \<Longrightarrow> without_gen gen m' = m"
  by (auto simp: without_gen_def fun_eq_iff)

lemma publish_maps_failed:
  assumes H: "host_maps H" and gen: "gen \<le> last_generation" and fresh: "fresh_gen gen w"
    and run: "publish_maps H gen op tss w = (True, w')"
  shows "w' = w"
proof -
  note ins = H [unfolded host_maps_def]
  obtain e m where p: "publish_plans H (gen * template_span) op [0..<4] tss (m_templates w) = (e, m)" by fastforce
  have m: "without_gen gen m = m_templates w"
    by (rule without_gen_same) (use publish_plans_other [OF _ gen p] ins fresh in \<open>auto simp: fresh_gen_def\<close>)
  have c: "(m_configs w)(gen := None) = m_configs w" using fresh by (auto simp: fresh_gen_def)
  obtain e2 m2 where q: "config_insert H gen (published_config gen op) (m_configs w) = (e2, m2)" by fastforce
  have m2: "m2(gen := None) = m_configs w"
    using hash_insertD [of "config_insert H", OF _ q] ins c by (cases e2) auto
  obtain e3 m3 where a: "active_update H 0 gen (m_active_config w) = (e3, m3)" by fastforce
  have m3: "e3 \<Longrightarrow> m3 = m_active_config w" using ins a unfolding map_update_def by metis
  show ?thesis
    using run unfolding publish_maps_def Let_def clear_span_gen [OF gen]
    by (simp add: p q a m m2 m3 c split: if_splits del: upt_rec_numeral)
qed

text \<open>What a successful publication does to the maps.\<close>

definition written :: "u32 \<Rightarrow> ff_options \<Rightarrow> ff_template list list \<Rightarrow> (u32 \<rightharpoonup> ff_template) \<Rightarrow> (u32 \<rightharpoonup> ff_template) \<Rightarrow> bool" where
  "written gen op tss m m' \<longleftrightarrow>
     (\<forall>plan < 4. \<forall>i < plan_count op plan. m' (plan_key gen plan i) = Some (tss ! plan ! i)) \<and>
     (\<forall>t. (\<forall>plan < 4. \<forall>i < plan_count op plan. t \<noteq> plan_key gen plan i) \<longrightarrow> m' t = m t)"

lemma publish_maps_done:
  assumes H: "host_maps H" and gen: "gen \<le> last_generation"
    and tss: "list_all2 (variants_ok op 32) [0..<4] tss"
    and run: "publish_maps H gen op tss w = (False, w')"
  obtains m' where "w' = w\<lparr>m_templates := m', m_configs := (m_configs w)(gen \<mapsto> published_config gen op),
      m_active_config := (m_active_config w)(0 \<mapsto> gen)\<rparr>" and "written gen op tss (m_templates w) m'"
    and "m_configs w gen = None"
proof -
  note ins = H [unfolded host_maps_def]
  obtain e m where p: "publish_plans H (gen * template_span) op [0..<4] tss (m_templates w) = (e, m)" by fastforce
  obtain e2 m2 where q: "config_insert H gen (published_config gen op) (m_configs w) = (e2, m2)" by fastforce
  obtain e3 m3 where a: "active_update H 0 gen (m_active_config w) = (e3, m3)" by fastforce
  have e: "\<not> e" "\<not> e2" "\<not> e3" and w': "w' = w\<lparr>m_templates := m, m_configs := m2, m_active_config := m3\<rparr>"
    using run unfolding publish_maps_def Let_def by (auto simp: p q a split: if_splits simp del: upt_rec_numeral)
  have c: "m_configs w gen = None" "m2 = (m_configs w)(gen \<mapsto> published_config gen op)"
    using hash_insertD(2,3) [of "config_insert H", OF _ q e(2)] ins by simp_all
  have m3: "m3 = (m_active_config w)(0 \<mapsto> gen)" using ins a e(3) unfolding map_update_def by metis
  have len: "length tss = 4" using list_all2_lengthD [OF tss] by simp
  have lens: "list_all2 (\<lambda>plan ts. plan_count op plan \<le> length ts) [0..<4] tss"
    using tss plan_count_le by (auto simp: list_all2_conv_all_nth variants_ok_def simp del: upt_rec_numeral)
  have p': "publish_plans H (gen * template_span) op [0..<4] tss (m_templates w) = (False, m)" using p e(1) by simp
  have "m (plan_key gen plan i) = Some (tss ! plan ! i)" if "plan < 4" "i < plan_count op plan" for plan i
    using publish_plans_written [OF _ gen p' _ _ lens, of plan i] ins that
    by (simp add: atLeast0LessThan del: upt_rec_numeral)
  moreover have "m t = m_templates w t" if "\<forall>plan < 4. \<forall>i < plan_count op plan. t \<noteq> plan_key gen plan i" for t
    by (rule publish_plans_frame [OF _ p]) (use ins that in auto)
  ultimately have "written gen op tss (m_templates w) m" by (simp add: written_def)
  with that w' c m3 show ?thesis by blast
qed

section \<open>The invariant of the published maps\<close>

text \<open>Every key of a plan up to its number of variants has its template, the others have none.\<close>

definition published :: "u32 \<Rightarrow> ff_config \<Rightarrow> 'e world \<Rightarrow> bool" where
  "published k c w \<longleftrightarrow> c_generation c = k \<and>
     (\<forall>plan < 4. \<forall>i < unat (c_variants c ! plan). \<exists>t. m_templates w (plan_key k plan i) = Some t \<and> template_ok t) \<and>
     (\<forall>plan < 4. unat (c_variants c ! plan) \<le> 32) \<and>
     (\<forall>plan < 4. \<forall>i < 32. unat (c_variants c ! plan) \<le> i \<longrightarrow> m_templates w (plan_key k plan i) = None)"

definition store_ok :: "u32 \<Rightarrow> 'e world \<Rightarrow> bool" where
  "store_ok gen w \<longleftrightarrow> gen \<le> last_generation \<and> config_store (m_configs w) \<and>
     (\<forall>k \<in> dom (m_configs w). unat k \<le> unat gen \<and> unat gen \<le> unat k + 2) \<and>
     (\<forall>k c. m_configs w k = Some c \<longrightarrow> published k c w) \<and>
     (\<forall>t \<in> dom (m_templates w). \<exists>k \<in> dom (m_configs w). key_gen t = unat k) \<and>
     (gen \<noteq> 0 \<longrightarrow> m_active_config w 0 = Some gen \<and> m_configs w gen \<noteq> None)"

lemma store_okD:
  assumes "store_ok gen w"
  shows "gen \<le> last_generation" "config_store (m_configs w)"
    "m_configs w k \<noteq> None \<Longrightarrow> unat k \<le> unat gen" "m_configs w k \<noteq> None \<Longrightarrow> unat gen \<le> unat k + 2"
    "m_configs w k = Some c \<Longrightarrow> published k c w"
    "m_templates w t \<noteq> None \<Longrightarrow> \<exists>k. m_configs w k \<noteq> None \<and> key_gen t = unat k"
    "gen \<noteq> 0 \<Longrightarrow> m_active_config w 0 = Some gen" "gen \<noteq> 0 \<Longrightarrow> m_configs w gen \<noteq> None"
    "m_configs w k \<noteq> None \<Longrightarrow> k \<le> last_generation"
proof -
  note ok = assms [unfolded store_ok_def config_store_def dom_def]
  show "gen \<le> last_generation" "config_store (m_configs w)" using assms by (simp_all add: store_ok_def)
  show "m_configs w k \<noteq> None \<Longrightarrow> unat k \<le> unat gen" "m_configs w k \<noteq> None \<Longrightarrow> unat gen \<le> unat k + 2"
    "m_configs w k = Some c \<Longrightarrow> published k c w" "m_configs w k \<noteq> None \<Longrightarrow> k \<le> last_generation"
    "gen \<noteq> 0 \<Longrightarrow> m_active_config w 0 = Some gen" "gen \<noteq> 0 \<Longrightarrow> m_configs w gen \<noteq> None"
    using ok by blast+
  show "\<exists>k. m_configs w k \<noteq> None \<and> key_gen t = unat k" if "m_templates w t \<noteq> None" using ok that by blast
qed

lemma stale_nat: "k \<le> last_generation \<Longrightarrow> stale gen k \<longleftrightarrow> unat k + 1 < unat gen"
  by (simp add: stale_def last_generation_def word_less_nat_alt word_le_nat_alt unat_add_small)

lemma reaped_fields:
  "m_configs (reaped gen w) k = (if stale gen k then None else m_configs w k)"
  "m_active_config (reaped gen w) = m_active_config w"
  by (simp_all add: reaped_def)

lemma reaped_templates:
  assumes "store_ok gen w" and "m_configs (reaped gen w) k \<noteq> None" and "key_gen t = unat k"
  shows "m_templates (reaped gen w) t = m_templates w t"
proof -
  have k: "\<not> stale gen k" "m_configs w k \<noteq> None" using assms(2) by (auto simp: reaped_fields split: if_splits)
  have "\<not> (m_configs w k' \<noteq> None \<and> stale gen k' \<and> key_gen t = unat k')" for k'
    using k(1) assms(3) by (metis word_unat_eq_iff)
  then have "\<not> outdated gen w t" unfolding outdated_def by blast
  then show ?thesis by (simp add: reaped_def)
qed

lemma published_key_gen: "k \<le> last_generation \<Longrightarrow> plan < 4 \<Longrightarrow> i < n \<Longrightarrow> n \<le> 32 \<Longrightarrow> key_gen (plan_key k plan i) = unat k"
  by (rule plan_key_gen) simp_all

lemma published_cong:
  assumes "published k c w" and "k \<le> last_generation" and "\<And>t. key_gen t = unat k \<Longrightarrow> m_templates w' t = m_templates w t"
  shows "published k c w'"
  unfolding published_def
proof (intro conjI allI impI)
  show "c_generation c = k" using assms(1) by (simp add: published_def)
  show v: "unat (c_variants c ! plan) \<le> 32" if "plan < 4" for plan using assms(1) that by (simp add: published_def)
  show "m_templates w' (plan_key k plan i) = None" if "plan < 4" "i < 32" "unat (c_variants c ! plan) \<le> i" for plan i
    using assms(1,3) that plan_key_gen [OF assms(2) that(1,2)] by (simp add: published_def)
  fix plan i
  assume p: "plan < 4" "i < unat (c_variants c ! plan)"
  with published_key_gen [OF assms(2) p v [OF p(1)]] assms(1,3)
  show "\<exists>t. m_templates w' (plan_key k plan i) = Some t \<and> template_ok t" by (simp add: published_def)
qed

lemma store_reaped:
  assumes ok: "store_ok gen w"
  shows "store_ok gen (reaped gen w)" and "m_configs (reaped gen w) k \<noteq> None \<Longrightarrow> unat gen \<le> unat k + 1"
proof -
  have sub: "m_configs w k \<noteq> None" "\<not> stale gen k" if "m_configs (reaped gen w) k \<noteq> None" for k
    using that by (auto simp: reaped_fields split: if_splits)
  show recent: "unat gen \<le> unat k + 1" if "m_configs (reaped gen w) k \<noteq> None" for k
    using sub [OF that] store_okD(9) [OF ok] by (simp add: stale_nat not_less)
  show "store_ok gen (reaped gen w)"
    unfolding store_ok_def
  proof (intro conjI allI impI ballI)
    show "gen \<le> last_generation" by (rule store_okD(1) [OF ok])
    show "config_store (m_configs (reaped gen w))"
      using store_okD(2) [OF ok] sub(1) by (fastforce simp: config_store_def)
  next
    fix k assume k: "k \<in> dom (m_configs (reaped gen w))"
    then have "m_configs w k \<noteq> None" using sub(1) by auto
    then show "unat k \<le> unat gen" "unat gen \<le> unat k + 2"
      using store_okD(3,4) [OF ok] by simp_all
  next
    fix k c assume k: "m_configs (reaped gen w) k = Some c"
    then have c: "m_configs w k = Some c" by (auto simp: reaped_fields split: if_splits)
    show "published k c (reaped gen w)"
      by (rule published_cong [OF store_okD(5) [OF ok c]])
        (use store_okD(9) [OF ok] c k reaped_templates [OF ok] in auto)
  next
    fix t assume t: "t \<in> dom (m_templates (reaped gen w))"
    then have nt: "\<not> outdated gen w t" "m_templates w t \<noteq> None"
      by (auto simp: reaped_def split: if_splits)
    then obtain k where "m_configs w k \<noteq> None" "key_gen t = unat k" using store_okD(6) [OF ok] by blast
    moreover from this nt(1) have "\<not> stale gen k" unfolding outdated_def by blast
    ultimately show "\<exists>k \<in> dom (m_configs (reaped gen w)). key_gen t = unat k"
      by (intro bexI [of _ k]) (auto simp: reaped_fields)
  next
    assume g: "gen \<noteq> 0"
    show "m_active_config (reaped gen w) 0 = Some gen" using store_okD(7) [OF ok g] by (simp add: reaped_fields)
    have "\<not> stale gen gen" using store_okD(1) [OF ok] by (simp add: stale_nat)
    then show "m_configs (reaped gen w) gen \<noteq> None" using store_okD(8) [OF ok g] by (simp add: reaped_fields)
  qed
qed

lemma store_fresh:
  assumes "store_ok gen w" and "unat gen < unat gen'"
  shows "fresh_gen gen' w"
proof -
  have "m_configs w gen' = None" using store_okD(3) [OF assms(1), of gen'] assms(2) by fastforce
  moreover have "m_templates w t = None" if "key_gen t = unat gen'" for t
    using store_okD(3,6) [OF assms(1)] that assms(2) by fastforce
  ultimately show ?thesis by (simp add: fresh_gen_def)
qed

lemma published_count: "plan < 4 \<Longrightarrow> unat (c_variants (published_config gen op) ! plan) = plan_count op plan"
proof -
  assume p: "plan < 4"
  have "c_variants (published_config gen op) = map (\<lambda>p. of_nat (plan_count op p)) [0..<4]"
    by (simp add: published_config_def)
  then have "c_variants (published_config gen op) ! plan = of_nat (plan_count op plan)"
    using p by (simp del: upt_rec_numeral)
  then show ?thesis using plan_count_le [of op plan] by (simp add: unat_of_nat)
qed

lemma variants_templates:
  assumes "list_all2 (variants_ok op 32) [0..<4] tss" and "plan < 4" and "i < plan_count op plan"
  shows "template_ok (tss ! plan ! i)" and "variant_of (o_plan op ! plan) (plan_host op plan) (plan_base op plan) (tss ! plan ! i)"
proof -
  have v: "variants_ok op 32 plan (tss ! plan)"
    using assms(1,2) by (auto simp: list_all2_conv_all_nth simp del: upt_rec_numeral)
  have i: "i < length (tss ! plan)" using v assms(3) plan_count_le [of op plan] by (simp add: variants_ok_def)
  then have t: "variant_of (o_plan op ! plan) (plan_host op plan) (plan_base op plan) (tss ! plan ! i) \<and>
      t_len (tss ! plan ! i) = t_len (plan_base op plan) \<and> template_shape (tss ! plan ! i)"
    using v by (simp add: variants_ok_def list_all_length)
  moreover have "t_len (plan_base op plan) \<noteq> 0" using assms(3) by (auto simp: plan_count_def split: if_splits)
  ultimately show "template_ok (tss ! plan ! i)" by (simp add: template_ok_def word_gt_0)
  show "variant_of (o_plan op ! plan) (plan_host op plan) (plan_base op plan) (tss ! plan ! i)" using t by simp
qed

lemma written_other:
  assumes "written gen op tss m m'" and "gen \<le> last_generation" and "key_gen t \<noteq> unat gen"
  shows "m' t = m t"
proof -
  have "t \<noteq> plan_key gen plan i" if "plan < 4" "i < plan_count op plan" for plan i
    using assms(3) plan_key_gen [OF assms(2) that(1), of i] that(2) plan_count_le [of op plan] by auto
  with assms(1) show ?thesis unfolding written_def by blast
qed

text \<open>The new generation joins the invariant.\<close>

lemma store_published:
  assumes ok: "store_ok gen w" and recent: "\<And>k. m_configs w k \<noteq> None \<Longrightarrow> unat gen \<le> unat k + 1"
    and gen: "gen + 1 \<le> last_generation" and tss: "list_all2 (variants_ok op 32) [0..<4] tss"
    and m: "written (gen + 1) op tss (m_templates w) m'"
    and w': "w' = w\<lparr>m_templates := m', m_configs := (m_configs w)(gen + 1 \<mapsto> published_config (gen + 1) op),
      m_active_config := (m_active_config w)(0 \<mapsto> gen + 1)\<rparr>"
  shows "store_ok (gen + 1) w'"
proof -
  have nat: "unat (gen + 1) = unat gen + 1"
    using store_okD(1) [OF ok] by (intro trans [OF unat_add_small]) (simp_all add: last_generation_def word_le_nat_alt)
  note other = written_other [OF m gen]
  have old: "unat k \<le> unat gen" "k \<noteq> gen + 1" if "m_configs w k \<noteq> None" for k
    using store_okD(3) [OF ok that] nat by auto
  have conf: "m_configs w' k = (if k = gen + 1 then Some (published_config (gen + 1) op) else m_configs w k)" for k
    by (simp add: w')
  have new: "published (gen + 1) (published_config (gen + 1) op) w'"
    unfolding published_def
  proof (intro conjI allI impI)
    show "c_generation (published_config (gen + 1) op) = gen + 1" by (simp add: published_config_def)
  next
    fix plan i :: nat
    assume p: "plan < 4" and "i < unat (c_variants (published_config (gen + 1) op) ! plan)"
    then have i: "i < plan_count op plan" by (simp add: published_count)
    with m p have "m' (plan_key (gen + 1) plan i) = Some (tss ! plan ! i)" by (simp add: written_def)
    then show "\<exists>t. m_templates w' (plan_key (gen + 1) plan i) = Some t \<and> template_ok t"
      using variants_templates [OF tss p i] by (simp add: w')
  next
    fix plan :: nat assume "plan < 4"
    then show "unat (c_variants (published_config (gen + 1) op) ! plan) \<le> 32"
      by (simp add: published_count plan_count_le)
  next
    fix plan i :: nat
    assume p: "plan < 4" "i < 32" and "unat (c_variants (published_config (gen + 1) op) ! plan) \<le> i"
    then have i: "plan_count op plan \<le> i" by (simp add: published_count)
    have "plan_key (gen + 1) plan i \<noteq> plan_key (gen + 1) plan' i'" if "plan' < 4" "i' < plan_count op plan'" for plan' i'
      using plan_key_inject [OF gen p that(1), of i'] that i plan_count_le [of op plan'] by fastforce
    with m have "m' (plan_key (gen + 1) plan i) = m_templates w (plan_key (gen + 1) plan i)"
      unfolding written_def by blast
    also have "\<dots> = None"
      using store_fresh [OF ok, of "gen + 1"] plan_key_gen [OF gen p] nat by (simp add: fresh_gen_def)
    finally show "m_templates w' (plan_key (gen + 1) plan i) = None" by (simp add: w')
  qed
  show ?thesis
    unfolding store_ok_def
  proof (intro conjI allI impI ballI)
    show "gen + 1 \<le> last_generation" by (rule gen)
    have "0 < gen + 1" using nat by (metis add_is_0 one_neq_zero unat_0 word_gt_0)
    then show "config_store (m_configs w')"
      using store_okD(2) [OF ok] gen by (auto simp: config_store_def w')
  next
    fix k assume "k \<in> dom (m_configs w')"
    then have "k = gen + 1 \<or> m_configs w k \<noteq> None" by (auto simp: conf split: if_splits)
    then show "unat k \<le> unat (gen + 1)" "unat (gen + 1) \<le> unat k + 2"
      using old(1) [of k] recent [of k] nat by fastforce+
  next
    fix k c assume k: "m_configs w' k = Some c"
    show "published k c w'"
    proof (cases "k = gen + 1")
      case True
      with k new show ?thesis by (simp add: conf)
    next
      case False
      with k have c: "m_configs w k = Some c" by (simp add: conf)
      show ?thesis
        by (rule published_cong [OF store_okD(5) [OF ok c]])
          (use store_okD(9) [OF ok] c old [of k] nat other in \<open>auto simp: w'\<close>)
    qed
  next
    fix t assume t: "t \<in> dom (m_templates w')"
    show "\<exists>k \<in> dom (m_configs w'). key_gen t = unat k"
    proof (cases "key_gen t = unat (gen + 1)")
      case True
      then show ?thesis by (intro bexI [of _ "gen + 1"]) (simp_all add: w')
    next
      case False
      with t have "m_templates w t \<noteq> None" using other by (auto simp: w')
      then obtain k where "m_configs w k \<noteq> None" "key_gen t = unat k" using store_okD(6) [OF ok] by blast
      then show ?thesis by (intro bexI [of _ k]) (auto simp: w')
    qed
  next
    show "m_active_config w' 0 = Some (gen + 1)" "m_configs w' (gen + 1) \<noteq> None" by (simp_all add: w')
  qed
qed

text \<open>All that \<open>publish\<close> can return.\<close>

lemma publish_cases:
  assumes H: "host_maps H" and ok: "store_ok (rt_config_gen r) w" and fit: "plans_fit op"
    and run: "publish H G op (r, w, rs) = Some (err, r', w', rs')"
  obtains (failed) "err" "r' = r" "w' = w \<or> w' = reaped (rt_config_gen r) w"
    | (published) tss m' where "\<not> err" "rt_config_gen r + 1 \<le> last_generation"
        "list_all2 (variants_ok op 32) [0..<4] tss"
        "r' = r\<lparr>rt_config_gen := rt_config_gen r + 1, rt_options := op\<lparr>o_kernel := published_config (rt_config_gen r + 1) op\<rparr>\<rparr>"
        "w' = (reaped (rt_config_gen r) w)\<lparr>m_templates := m',
          m_configs := (m_configs (reaped (rt_config_gen r) w))(rt_config_gen r + 1 \<mapsto> published_config (rt_config_gen r + 1) op),
          m_active_config := (m_active_config w)(0 \<mapsto> rt_config_gen r + 1)\<rparr>"
        "written (rt_config_gen r + 1) op tss (m_templates (reaped (rt_config_gen r) w)) m'"
proof -
  let ?gen = "rt_config_gen r + 1" and ?w = "reaped (rt_config_gen r) w"
  have nat: "unat ?gen = unat (rt_config_gen r) + 1"
    using store_okD(1) [OF ok] by (intro trans [OF unat_add_small]) (simp_all add: last_generation_def word_le_nat_alt)
  have lim: "0xffffffff div template_span = last_generation" by (simp add: template_span_val last_generation_def)
  have reap: "reap_configs H r w = Some ?w"
    unfolding reap_configs_def by (rule reap_loop_reaped) (use H store_okD(2) [OF ok] in \<open>simp_all add: host_maps_def\<close>)
  show ?thesis
  proof (cases "last_generation < ?gen")
    case True
    with run have "err" "r' = r" "w' = w" by (simp_all add: publish_def lim)
    then show ?thesis by (intro failed) simp_all
  next
    case False
    then have gen: "?gen \<le> last_generation" by simp
    obtain res rs1 where v: "ff_variants G op 32 rs = (res, rs1)" by fastforce
    show ?thesis
    proof (cases res)
      case None
      with run v reap False have "err \<and> r' = r \<and> w' = ?w" by (auto simp: publish_def lim)
      then show ?thesis by (intro failed) simp_all
    next
      case (Some tss)
      have tss: "list_all2 (variants_ok op 32) [0..<4] tss"
        using ff_variants_ok [OF fit, of G 32 rs tss rs1] v Some by simp
      obtain e w1 where p: "publish_maps H ?gen op tss ?w = (e, w1)" by fastforce
      have fresh: "fresh_gen ?gen ?w" by (rule store_fresh [OF store_reaped(1) [OF ok]]) (simp add: nat)
      show ?thesis
      proof (cases e)
        case True
        then have "w1 = ?w" using publish_maps_failed [OF H gen fresh, of op tss w1] p by simp
        with run v reap False Some p True have "err \<and> r' = r \<and> w' = ?w" by (auto simp: publish_def lim)
        then show ?thesis by (intro failed) simp_all
      next
        case e: False
        have p': "publish_maps H ?gen op tss ?w = (False, w1)" using p e by simp
        have res: "\<not> err \<and> w' = w1 \<and> r' = r\<lparr>rt_config_gen := ?gen, rt_options := op\<lparr>o_kernel := published_config ?gen op\<rparr>\<rparr>"
          using run v reap False Some p' by (auto simp: publish_def lim Let_def)
        obtain m' where w1: "w1 = ?w\<lparr>m_templates := m', m_configs := (m_configs ?w)(?gen \<mapsto> published_config ?gen op),
            m_active_config := (m_active_config ?w)(0 \<mapsto> ?gen)\<rparr>" and m': "written ?gen op tss (m_templates ?w) m'"
          by (rule publish_maps_done [OF H gen tss p'])
        show ?thesis
          by (rule published [of tss m']) (use res w1 m' gen tss in \<open>simp_all add: reaped_fields(2)\<close>)
      qed
    qed
  qed
qed

lemma publish_keeps_store:
  assumes H: "host_maps H" and ok: "store_ok (rt_config_gen r) w" and fit: "plans_fit op"
    and run: "publish H G op (r, w, rs) = Some (err, r', w', rs')"
  shows "store_ok (rt_config_gen r') w'"
  using H ok fit run
proof (cases rule: publish_cases)
  case failed
  with ok store_reaped(1) [OF ok] show ?thesis by auto
next
  case (published tss m')
  have "store_ok (rt_config_gen r + 1) w'"
    by (rule store_published [OF store_reaped(1) [OF ok] store_reaped(2) [OF ok] published(2,3,6)])
      (use published(5) in \<open>simp_all add: reaped_fields(2)\<close>)
  with published(4) show ?thesis by simp
qed

section \<open>Room for three generations\<close>

text \<open>A hash map with \<open>max_entries = cap\<close>: an insert fails when the key is taken or the map full.\<close>

definition bounded_insert :: "nat \<Rightarrow> 'k \<Rightarrow> 'v \<Rightarrow> ('k \<rightharpoonup> 'v) \<Rightarrow> bool \<times> ('k \<rightharpoonup> 'v)" where
  "bounded_insert cap k v m = (if m k \<noteq> None \<or> cap \<le> card (dom m) then (True, m) else (False, m(k \<mapsto> v)))"

lemma bounded_insert_hash [simp]: "hash_insert (bounded_insert cap)"
  by (simp add: hash_insert_def bounded_insert_def)

lemma card_key_range:
  assumes "dom m \<subseteq> {k :: u32. a \<le> unat k \<and> unat k < a + n}"
  shows "card (dom m) \<le> n"
proof -
  have "inj_on unat (dom m)" by (rule inj_onI) (simp add: word_unat_eq_iff)
  moreover have "unat ` dom m \<subseteq> {a..<a + n}" using assms by auto
  ultimately have "card (dom m) \<le> card {a..<a + n}" by (rule card_inj_on_le) simp
  then show ?thesis by simp
qed

lemma store_capacity:
  assumes ok: "store_ok gen w"
  shows "card (dom (m_configs w)) \<le> 3" and "card (dom (m_templates w)) \<le> 384"
proof -
  have conf: "unat gen - 2 \<le> unat k \<and> unat k < unat gen - 2 + 3" if "m_configs w k \<noteq> None" for k
    using store_okD(3,4) [OF ok that] by arith
  then show "card (dom (m_configs w)) \<le> 3" by (intro card_key_range [where a = "unat gen - 2"]) auto
  have "128 * (unat gen - 2) \<le> unat t \<and> unat t < 128 * (unat gen - 2) + 384" if "m_templates w t \<noteq> None" for t
  proof -
    obtain k where "m_configs w k \<noteq> None" "key_gen t = unat k" using store_okD(6) [OF ok \<open>m_templates w t \<noteq> None\<close>] by blast
    with conf [of k] show ?thesis by (simp add: key_gen_def) linarith
  qed
  then show "card (dom (m_templates w)) \<le> 384" by (intro card_key_range [where a = "128 * (unat gen - 2)"]) auto
qed

lemma publish_variants_succeeds:
  assumes ins: "template_insert H = bounded_insert cap" and S: "card S < cap" "finite S"
  shows "length ts \<le> 128 \<Longrightarrow> dom m \<subseteq> S \<Longrightarrow> (\<And>i. i < length ts \<Longrightarrow> m (k + of_nat i) = None \<and> k + of_nat i \<in> S) \<Longrightarrow>
    \<exists>m'. publish_variants H k ts m = (False, m') \<and> dom m' \<subseteq> S"
proof (induction ts arbitrary: k m)
  case (Cons x ts)
  have k: "m k = None" "k \<in> S" using Cons.prems(3) [of 0] by simp_all
  have "card (dom m) < cap" using card_mono [OF S(2) Cons.prems(2)] S(1) by simp
  then have i: "template_insert H k x m = (False, m(k \<mapsto> x))" using k(1) by (simp add: ins bounded_insert_def)
  have "\<exists>m'. publish_variants H (k + 1) ts (m(k \<mapsto> x)) = (False, m') \<and> dom m' \<subseteq> S"
  proof (rule Cons.IH)
    show "length ts \<le> 128" using Cons.prems(1) by simp
    show "dom (m(k \<mapsto> x)) \<subseteq> S" using Cons.prems(2) k(2) by simp
    fix i assume i: "i < length ts"
    have "k + 1 + of_nat i \<noteq> k"
    proof
      assume "k + 1 + of_nat i = k"
      then have "(of_nat (Suc i) :: u32) = of_nat 0" by (simp add: add_ac)
      with i Cons.prems(1) show False by (subst (asm) of_nat_u32_eq) simp_all
    qed
    then show "(m(k \<mapsto> x)) (k + 1 + of_nat i) = None \<and> k + 1 + of_nat i \<in> S"
      using Cons.prems(3) [of "Suc i"] i by (simp add: add_ac)
  qed
  with i show ?case by simp
qed simp

lemma publish_plans_succeeds:
  assumes ins: "template_insert H = bounded_insert cap" and S: "card S < cap" "finite S" and gen: "gen \<le> last_generation"
  shows "distinct plans \<Longrightarrow> set plans \<subseteq> {..<4} \<Longrightarrow> dom m \<subseteq> S \<Longrightarrow>
    (\<And>plan i. plan \<in> set plans \<Longrightarrow> i < plan_count op plan \<Longrightarrow> m (plan_key gen plan i) = None \<and> plan_key gen plan i \<in> S) \<Longrightarrow>
    \<exists>m'. publish_plans H (gen * template_span) op plans tss m = (False, m') \<and> dom m' \<subseteq> S"
proof (induction plans arbitrary: tss m)
  case (Cons plan plans)
  show ?case
  proof (cases tss)
    case (Cons ts tss')
    have "\<exists>m1. publish_variants H (plan_key gen plan 0) (take (plan_count op plan) ts) m = (False, m1) \<and> dom m1 \<subseteq> S"
      by (rule publish_variants_succeeds [OF ins S])
        (use Cons.prems(3,4) plan_count_le [of op plan] in \<open>auto simp: plan_key_add\<close>)
    then obtain m1 where v: "publish_variants H (plan_key gen plan 0) (take (plan_count op plan) ts) m = (False, m1)" "dom m1 \<subseteq> S" by blast
    have "\<exists>m'. publish_plans H (gen * template_span) op plans tss' m1 = (False, m') \<and> dom m' \<subseteq> S"
    proof (rule Cons.IH)
      fix plan' i
      assume p: "plan' \<in> set plans" and i: "i < plan_count op plan'"
      have "plan_key gen plan' i \<noteq> plan_key gen plan j" if "j < plan_count op plan" for j
      proof
        assume eq: "plan_key gen plan' i = plan_key gen plan j"
        have "plan' = plan \<and> i = j"
          by (rule plan_key_inject [OF gen _ _ _ _ eq])
            (use Cons.prems(2) p i that plan_count_le [of op plan] plan_count_le [of op plan'] in auto)
        with p Cons.prems(1) show False by simp
      qed
      then have "m1 (plan_key gen plan' i) = m (plan_key gen plan' i)"
        by (intro publish_variants_frame [OF _ v(1)]) (simp_all add: ins plan_key_add)
      then show "m1 (plan_key gen plan' i) = None \<and> plan_key gen plan' i \<in> S"
        using Cons.prems(4) [of plan' i] p i by simp
    qed (use Cons.prems v(2) in simp_all)
    moreover have "gen * template_span + of_nat plan * FF_TEMPLATE_VARIANTS = plan_key gen plan 0" by (simp add: plan_key_def)
    ultimately show ?thesis using v(1) Cons by simp
  qed (use Cons.prems(3) in simp)
qed simp

text \<open>The maps the daemon creates: 448 templates, 16 configurations, an array for the active one.\<close>

definition sized_maps :: "'e host \<Rightarrow> bool" where
  "sized_maps H \<longleftrightarrow> iterates H \<and> template_insert H = bounded_insert 448 \<and> config_insert H = bounded_insert 16 \<and>
     active_update H = (\<lambda>k v m. (False, m(k \<mapsto> v)))"

lemma sized_host_maps: "sized_maps H \<Longrightarrow> host_maps H"
  by (simp add: sized_maps_def host_maps_def map_update_def)

lemma publish_maps_succeeds:
  assumes H: "sized_maps H" and ok: "store_ok gen w" and recent: "\<And>k. m_configs w k \<noteq> None \<Longrightarrow> unat gen \<le> unat k + 1"
    and gen: "gen + 1 \<le> last_generation"
  shows "\<exists>w'. publish_maps H (gen + 1) op tss w = (False, w')"
proof -
  have nat: "unat (gen + 1) = unat gen + 1"
    using store_okD(1) [OF ok] by (intro trans [OF unat_add_small]) (simp_all add: last_generation_def word_le_nat_alt)
  note fresh = store_fresh [OF ok, of "gen + 1", unfolded nat fresh_gen_def, simplified]
  let ?a = "128 * (unat gen - 1)"
  let ?S = "{k :: u32. ?a \<le> unat k \<and> unat k < ?a + 384}"
  have "card (unat ` ?S) \<le> card {?a..<?a + 384}" by (rule card_mono) auto
  moreover have "card (unat ` ?S) = card ?S" by (rule card_image) (rule inj_onI, simp add: word_unat_eq_iff)
  ultimately have S: "card ?S < 448" by simp
  have "t \<in> ?S" if t: "m_templates w t \<noteq> None" for t
  proof -
    obtain k where "m_configs w k \<noteq> None" "key_gen t = unat k" using store_okD(6) [OF ok t] by blast
    with recent [of k] store_okD(3) [OF ok, of k] show ?thesis by (simp add: key_gen_def) linarith
  qed
  then have dom: "dom (m_templates w) \<subseteq> ?S" by auto
  have "\<exists>m'. publish_plans H ((gen + 1) * template_span) op [0..<4] tss (m_templates w) = (False, m') \<and> dom m' \<subseteq> ?S"
  proof (rule publish_plans_succeeds [OF _ S _ gen _ _ dom])
    fix plan i
    assume "plan \<in> set [0..<4]" "i < plan_count op plan"
    then have p: "plan < 4" "i < 32" using plan_count_le [of op plan] by auto
    have "key_gen (plan_key (gen + 1) plan i) = unat gen + 1" using plan_key_gen [OF gen p] nat by simp
    moreover have "unat (plan_key (gen + 1) plan i) = 128 * (unat gen + 1) + 32 * plan + i" using plan_key_nat [OF gen p] nat by simp
    moreover have "128 * (unat gen - 1) \<le> 128 * (unat gen + 1) + 32 * plan + i \<and>
        128 * (unat gen + 1) + 32 * plan + i < 128 * (unat gen - 1) + 384"
      using p by (cases "unat gen") simp_all
    ultimately show "m_templates w (plan_key (gen + 1) plan i) = None \<and> plan_key (gen + 1) plan i \<in> ?S"
      using fresh by simp
  qed (use H in \<open>auto simp: sized_maps_def\<close>)
  then obtain m' where p: "publish_plans H ((gen + 1) * template_span) op [0..<4] tss (m_templates w) = (False, m')" by blast
  have "config_insert H (gen + 1) c (m_configs w) = (False, (m_configs w)(gen + 1 \<mapsto> c))" for c
    using H fresh store_capacity(1) [OF ok] by (simp add: sized_maps_def bounded_insert_def)
  moreover have "active_update H 0 (gen + 1) m = (False, m(0 \<mapsto> gen + 1))" for m using H by (simp add: sized_maps_def)
  ultimately show ?thesis by (simp add: publish_maps_def Let_def p del: upt_rec_numeral)
qed

lemma publish_succeeds_lemma:
  assumes H: "sized_maps H" and ok: "store_ok (rt_config_gen r) w" and fit: "plans_fit op" and G: "delivers G"
    and gen: "rt_config_gen r < last_generation"
  shows "\<exists>r' w' rs'. publish H G op (r, w, rs) = Some (False, r', w', rs')"
proof -
  have le: "rt_config_gen r + 1 \<le> last_generation" using gen by (rule inc_le)
  have lim: "0xffffffff div template_span = last_generation" by (simp add: template_span_val last_generation_def)
  have reap: "reap_configs H r w = Some (reaped (rt_config_gen r) w)"
    unfolding reap_configs_def by (rule reap_loop_reaped) (use H store_okD(2) [OF ok] in \<open>simp_all add: sized_maps_def\<close>)
  obtain tss rs1 where v: "ff_variants G op 32 rs = (Some tss, rs1)"
    by (rule ff_variants_total [OF fit G, of 32 rs]) simp_all
  obtain w1 where "publish_maps H (rt_config_gen r + 1) op tss (reaped (rt_config_gen r) w) = (False, w1)"
    using publish_maps_succeeds [OF H store_reaped(1) [OF ok] store_reaped(2) [OF ok] le] by blast
  then show ?thesis using le reap v by (simp add: publish_def lim Let_def not_less)
qed

section \<open>Properties of publishing\<close>

text \<open>
  Property C35. Reaping old generations returns, however the map is iterated from its start again after
  each deletion, and leaves exactly the active and the previous generation: their configurations and
  templates are untouched, everything older is gone.
\<close>
theorem reap_returns:
  assumes "iterates H" and "store_ok (rt_config_gen r) w"
  shows "\<exists>w'. reap_configs H r w = Some w' \<and> store_ok (rt_config_gen r) w' \<and>
    (\<forall>k. m_configs w' k = (if unat k + 1 < unat (rt_config_gen r) then None else m_configs w k)) \<and>
    (\<forall>t. m_templates w' t = (if key_gen t + 1 < unat (rt_config_gen r) then None else m_templates w t)) \<and>
    m_active_config w' = m_active_config w"
proof -
  let ?gen = "rt_config_gen r" and ?w = "reaped (rt_config_gen r) w"
  have run: "reap_configs H r w = Some ?w"
    unfolding reap_configs_def by (rule reap_loop_reaped [OF assms(1) store_okD(2) [OF assms(2)]])
  have conf: "m_configs ?w k = (if unat k + 1 < unat ?gen then None else m_configs w k)" for k
  proof (cases "m_configs w k = None")
    case True
    then show ?thesis by (simp add: reaped_fields)
  next
    case False
    then show ?thesis by (simp add: reaped_fields stale_nat [OF store_okD(9) [OF assms(2) False]])
  qed
  have tpl: "m_templates ?w t = (if key_gen t + 1 < unat ?gen then None else m_templates w t)" for t
  proof (cases "m_templates w t = None")
    case True
    then show ?thesis by (simp add: reaped_def)
  next
    case False
    then obtain k where k: "m_configs w k \<noteq> None" "key_gen t = unat k" using store_okD(6) [OF assms(2)] by blast
    have "outdated ?gen w t \<longleftrightarrow> stale ?gen k"
    proof
      assume "outdated ?gen w t"
      then obtain k' where "m_configs w k' \<noteq> None" "stale ?gen k'" "key_gen t = unat k'" unfolding outdated_def by blast
      with k(2) show "stale ?gen k" by (metis word_unat_eq_iff)
    qed (use k in \<open>auto simp: outdated_def\<close>)
    then show ?thesis using k(2) by (simp add: reaped_def stale_nat [OF store_okD(9) [OF assms(2) k(1)]])
  qed
  show ?thesis using run store_reaped(1) [OF assms(2)] conf tpl by (intro exI [of _ ?w]) (simp add: reaped_fields)
qed

text \<open>
  Property C13. A publication that fails, at whatever point, leaves the running generation as it was: the
  daemon's own state is unchanged, the programs see the same configuration, no entry of the active or the
  previous generation is touched, and nothing of the new one stays behind.
\<close>
theorem publish_atomic:
  assumes "host_maps H" and "store_ok (rt_config_gen r) w" and "plans_fit op"
    and "publish H G op (r, w, rs) = Some (True, r', w', rs')"
  shows "r' = r \<and> (w' = w \<or> reap_configs H r w = Some w') \<and> configuration w' = configuration w \<and>
    store_ok (rt_config_gen r) w' \<and> m_configs w' (rt_config_gen r + 1) = None"
proof -
  let ?gen = "rt_config_gen r"
  from assms have res: "r' = r" "w' = w \<or> w' = reaped ?gen w" by (auto elim: publish_cases)
  have reap: "reap_configs H r w = Some (reaped ?gen w)"
    unfolding reap_configs_def by (rule reap_loop_reaped) (use assms(1) store_okD(2) [OF assms(2)] in \<open>simp_all add: host_maps_def\<close>)
  have ok: "store_ok ?gen w'" using res(2) assms(2) store_reaped(1) [OF assms(2)] by auto
  have conf: "configuration (reaped ?gen w) = configuration w"
  proof (cases "?gen = 0")
    case True
    have "reaped ?gen w = w" by (rule reaped_nothing) (simp add: stale_def True)
    then show ?thesis by simp
  next
    case False
    have "\<not> stale ?gen ?gen" using store_okD(1) [OF assms(2)] by (simp add: stale_nat)
    then show ?thesis using store_okD(7) [OF assms(2) False] by (simp add: configuration_def reaped_fields)
  qed
  have nat: "unat (?gen + 1) = unat ?gen + 1"
    using store_okD(1) [OF assms(2)] by (intro trans [OF unat_add_small]) (simp_all add: last_generation_def word_le_nat_alt)
  have "m_configs w' (?gen + 1) = None"
    using store_okD(3) [OF ok, of "?gen + 1"] nat by fastforce
  with res reap ok conf show ?thesis by auto
qed

text \<open>
  Property C17. With maps of the size the daemon creates them with, a rendered configuration can always be
  published, until the 32-bit template keys run out after more than 33 million generations: \<open>publish\<close>
  reaps before it writes, so two retained generations and the new one are all the maps ever hold (3 of 16
  configurations, 384 of 448 templates), however fast reloads follow each other. This disagrees with
  \<open>docs/validation.md\<close>, which says that reloading too fast exhausts the staged generations and returns an error, and
  that old templates outlive the requests: in this code no rate of reloads leads to an error, and the price is that the
  third of three quick reloads deletes the templates that were in force before the first of them, and the builder
  drops the clones of requests that still name them.
\<close>
theorem publish_succeeds:
  assumes "sized_maps H" and "store_ok (rt_config_gen r) w" and "plans_fit op" and "delivers G"
    and "rt_config_gen r < last_generation"
  shows "\<exists>r' w' rs'. publish H G op (r, w, rs) = Some (False, r', w', rs') \<and> rt_config_gen r' = rt_config_gen r + 1 \<and>
    configuration w' = Some (published_config (rt_config_gen r + 1) op) \<and> store_ok (rt_config_gen r') w'"
proof -
  obtain r' w' rs' where run: "publish H G op (r, w, rs) = Some (False, r', w', rs')"
    using publish_succeeds_lemma [OF assms] by blast
  have ok: "store_ok (rt_config_gen r') w'" by (rule publish_keeps_store [OF sized_host_maps [OF assms(1)] assms(2,3) run])
  from sized_host_maps [OF assms(1)] assms(2,3) run
  have "rt_config_gen r' = rt_config_gen r + 1 \<and> configuration w' = Some (published_config (rt_config_gen r + 1) op)"
    by (rule publish_cases) (simp_all add: configuration_def)
  with run ok show ?thesis by blast
qed

section \<open>Witnesses\<close>

text \<open>A host where everything works, with maps of the sizes the daemon asks for.\<close>

definition sample_host :: "u64 host" where
  "sample_host = \<lparr>monotime = (\<lambda>e. (e, e + 1)), if_nametoindex = (\<lambda>n e. (3, e)), hwaddr_type = (\<lambda>n e. (Some 1, e)),
     if_mtu = (\<lambda>n e. (Some 1500, e)), ioctl_socket = (\<lambda>e. (True, e)), tc_filter_show = (\<lambda>n d e. (Some ([], True), e)),
     tc_hook_create = (\<lambda>i p e. (0, e)), tc_attach = (\<lambda>i p n pr h e. (Some 7, e)), tc_query = (\<lambda>i p pr h e. (Some 7, e)),
     tc_detach = (\<lambda>i p pr h e. (False, e)), attach_tcx = (\<lambda>i e. (True, e)), link_destroy = (\<lambda>i e. e),
     unix_socket = (\<lambda>e. (True, e)), unix_listen = (\<lambda>p e. (True, e)),
     write_state = (\<lambda>ls e. (False, e)), config_keys = (\<lambda>m. sorted_list_of_set (dom m)),
     template_insert = bounded_insert 448, config_insert = bounded_insert 16,
     active_update = (\<lambda>k v m. (False, m(k \<mapsto> v))), lease_update = (\<lambda>k v m. (False, m(k \<mapsto> v))),
     interface_update = (\<lambda>k v m. (False, m(k \<mapsto> v)))\<rparr>"

lemma sample_host_sized: "sized_maps sample_host"
  by (simp add: sized_maps_def iterates_def sample_host_def)

definition start_runtime :: "ff_options \<Rightarrow> runtime" where
  "start_runtime op = \<lparr>rt_options = op, rt_attached = [], rt_ingress = replicate 8 False, rt_index = replicate 8 0,
     rt_generation = replicate 8 0, rt_epoch = 0, rt_config_gen = 0, rt_l2 = 5, rt_l3 = 0,
     rt_dummy = ''ff1l2'', rt_owner = ''fakeflow:1:1'', rt_object = True, rt_loaded = True, rt_tun = False,
     rt_server = False, rt_lock = True, rt_route = True, rt_tun_name = [], rt_state = ''/run/fakeflow/filters'', rt_socket = []\<rparr>"

lemma start_store: "store_ok (rt_config_gen (start_runtime op)) empty_world"
  by (simp add: store_ok_def config_store_def start_runtime_def empty_world_def)

text \<open>Three generations that send nothing.\<close>

definition three_world :: "u64 world" where
  "three_world = empty_world\<lparr>m_active_config := [0 \<mapsto> 3],
     m_configs := (\<lambda>k. if k \<in> {1, 2, 3} then Some (sample_config\<lparr>c_generation := k, c_variants := [0, 0, 0, 0]\<rparr>) else None)\<rparr>"

lemma three_store: "store_ok 3 three_world"
  unfolding store_ok_def
proof (intro conjI allI impI ballI)
  fix k c assume "m_configs three_world k = Some c"
  then have c: "c = sample_config\<lparr>c_generation := k, c_variants := [0, 0, 0, 0]\<rparr>"
    by (simp add: three_world_def split: if_splits)
  have "unat ([0, 0, 0, 0 :: u32] ! plan) = 0" if "plan < 4" for plan
    using that by (simp add: less_Suc_eq numeral_eq_Suc) auto
  then show "published k c three_world"
    by (simp add: published_def c three_world_def empty_world_def)
qed (auto simp: three_world_def empty_world_def config_store_def last_generation_def word_le_nat_alt dom_def split: if_splits)

theorem reap_returns_witness:
  "\<exists>w'. reap_configs sample_host (start_runtime sample_options\<lparr>rt_config_gen := 3\<rparr>) three_world = Some w' \<and>
     m_configs w' 1 = None \<and> m_configs w' 2 \<noteq> None"
proof -
  let ?r = "start_runtime sample_options\<lparr>rt_config_gen := 3\<rparr>"
  have "iterates sample_host" using sample_host_sized by (simp add: sized_maps_def)
  moreover have "store_ok (rt_config_gen ?r) three_world" using three_store by simp
  ultimately obtain w' where w': "reap_configs sample_host ?r three_world = Some w'"
    and c: "\<forall>k. m_configs w' k = (if unat k + 1 < unat (rt_config_gen ?r) then None else m_configs three_world k)"
    using reap_returns [of sample_host ?r three_world] by blast
  have "m_configs w' 1 = None" "m_configs w' 2 \<noteq> None" using spec [OF c, of 1] spec [OF c, of 2] by (simp_all add: three_world_def)
  with w' show ?thesis by blast
qed

text \<open>The options of the renderer's sample, rendered.\<close>

lemma sample_plans_fit:
  obtains op where "plans_fit op"
proof -
  obtain op' rs' where r: "ff_templates counting_source sample_files sample_options 0 = (Inr op', rs')"
    using sample_rendered by blast
  from rendered_plans_fit [OF ff_templates_rendered(1) [OF sample_renderable r]] show ?thesis by (rule that)
qed

text \<open>A host whose map of configurations takes nothing.\<close>

definition full_host :: "u64 host" where
  "full_host = sample_host\<lparr>config_insert := (\<lambda>k v m. (True, m))\<rparr>"

lemma full_host_maps: "host_maps full_host"
  using sized_host_maps [OF sample_host_sized] by (simp add: host_maps_def full_host_def hash_insert_def iterates_def)

lemma full_host_fails: "fst (publish_maps full_host gen op tss w)"
  by (simp add: publish_maps_def Let_def full_host_def split: prod.split)

theorem publish_atomic_witness:
  "\<exists>op r' w' rs'. plans_fit op \<and> publish full_host counting_source op (start_runtime op, empty_world, 0) = Some (True, r', w', rs') \<and>
     r' = start_runtime op"
proof -
  obtain op where fit: "plans_fit op" by (rule sample_plans_fit)
  obtain tss rs1 where v: "ff_variants counting_source op 32 0 = (Some tss, rs1)"
    by (rule ff_variants_total [OF fit counting_source_delivers, of 32 0]) simp_all
  let ?w = "reaped 0 empty_world"
  have reap: "reap_configs full_host (start_runtime op) empty_world = Some ?w"
    using reap_loop_reaped [of full_host empty_world 0] full_host_maps
    by (simp add: reap_configs_def start_runtime_def host_maps_def config_store_def empty_world_def)
  obtain w1 where p: "publish_maps full_host 1 op tss ?w = (True, w1)"
    using full_host_fails [of 1 op tss ?w] by (cases "publish_maps full_host 1 op tss ?w") simp
  have run: "publish full_host counting_source op (start_runtime op, empty_world, 0) = Some (True, start_runtime op, w1, rs1)"
    using reap v p by (simp add: publish_def Let_def start_runtime_def template_span_val)
  with publish_atomic [OF full_host_maps start_store fit run] fit show ?thesis by blast
qed

theorem publish_succeeds_witness:
  "\<exists>op r' w' rs'. publish sample_host counting_source op (start_runtime op, empty_world, 0) = Some (False, r', w', rs') \<and>
     rt_config_gen r' = 1 \<and> m_active_config w' 0 \<noteq> None"
proof -
  obtain op where fit: "plans_fit op" by (rule sample_plans_fit)
  have g: "rt_config_gen (start_runtime op) < last_generation"
    by (simp add: start_runtime_def last_generation_def word_less_nat_alt)
  from publish_succeeds [OF sample_host_sized start_store fit counting_source_delivers g, of 0]
  obtain r' w' rs' where "publish sample_host counting_source op (start_runtime op, empty_world, 0) = Some (False, r', w', rs')"
    "rt_config_gen r' = rt_config_gen (start_runtime op) + 1" "configuration w' \<noteq> None" by auto
  moreover from this have "rt_config_gen r' = 1" "m_active_config w' 0 \<noteq> None"
    by (auto simp: start_runtime_def configuration_def split: option.splits)
  ultimately show ?thesis by blast
qed

end
