(* ===== verification/Remote.thy ===== *)
theory Remote
  imports Parse
begin

text \<open>
  \<open>remote_allowed\<close> of \<open>ebpf/bpf/parse.h\<close>: which remote addresses may be sent to. The
  code tests bytes and 32-bit words; the specification is two tables of address prefixes
  per family (always refused, refused unless \<open>allow_private\<close>), and the two agree.
\<close>

section \<open>The test of the code\<close>

definition remote_allowed :: "packet \<Rightarrow> ff_config \<Rightarrow> bool" where
  "remote_allowed p c =
     (let a = (\<lambda>i. k_remote (p_key p) ! i) in
      if k_family (p_key p) = 4 then
        (if 224 \<le> a 0 \<or> a 0 = 0 \<or> a 0 = 127 then False
         else if c_allow_private c = 0 \<and>
           (a 0 = 10 \<or> (a 0 = 172 \<and> a 1 AND 240 = 16) \<or> (a 0 = 192 \<and> a 1 = 168) \<or>
            (a 0 = 169 \<and> a 1 = 254) \<or> (a 0 = 100 \<and> a 1 AND 192 = 64))
         then False else True)
      else
        (if a 0 = 255 then False
         else
           let w0 = read32 a 0; w1 = read32 a 4; w2 = read32 a 8; w3 = read32 a 12 in
           if c_allow_private c = 0 \<and>
             (a 0 AND 0xfe = 0xfc \<or> (a 0 = 0xfe \<and> a 1 AND 0xc0 = 0x80) \<or>
              (w0 = 0 \<and> w1 = 0 \<and> ((w2 = 0 \<and> w3 \<le> 1) \<or> w2 = 0xffff)) \<or>
              (w0 = 0x0064ff9b \<and> ((w1 = 0 \<and> w2 = 0) \<or> drop_bit 16 w1 = 1)) \<or>
              drop_bit 16 w0 = 0x2002)
           then False else True))"

section \<open>Addresses as numbers and prefix tables\<close>

fun be_nat :: "u8 list \<Rightarrow> nat" where
  "be_nat [] = 0"
| "be_nat (b # bs) = unat b * 256 ^ length bs + be_nat bs"

lemma be_nat_less: "be_nat bs < 256 ^ length bs"
proof (induction bs)
  case (Cons b bs)
  have "unat b * 256 ^ length bs + be_nat bs < (unat b + 1) * 256 ^ length bs"
    using Cons by simp
  also have "\<dots> \<le> 256 * 256 ^ length bs"
    using unat_u8 [of b] by (intro mult_right_mono) simp_all
  finally show ?case by simp
qed simp

text \<open>The addresses a prefix \<open>net/len\<close> covers, as a test on the bytes.\<close>

definition in_prefix :: "nat \<Rightarrow> nat \<Rightarrow> u8 list \<Rightarrow> bool" where
  "in_prefix net len bs \<longleftrightarrow> (let host = 2 ^ (8 * length bs - len) in be_nat bs div host = net div host)"

lemma be_nat_append: "be_nat (xs @ ys) = be_nat xs * 256 ^ length ys + be_nat ys"
  by (induction xs) (simp_all add: power_add algebra_simps)

lemma in_prefix_take:
  assumes "k \<le> length bs" and "len \<le> 8 * k"
  shows "in_prefix net len bs \<longleftrightarrow>
    be_nat (take k bs) div 2 ^ (8 * k - len) = net div 2 ^ (8 * length bs - len)"
proof -
  let ?r = "8 * (length bs - k)"
  have split: "be_nat bs = be_nat (take k bs) * 2 ^ ?r + be_nat (drop k bs)"
    using be_nat_append [of "take k bs" "drop k bs"] by (simp add: power_mult)
  have "be_nat (drop k bs) < 2 ^ ?r"
    using be_nat_less [of "drop k bs"] by (simp add: power_mult)
  then have high: "be_nat bs div 2 ^ ?r = be_nat (take k bs)"
    by (simp add: split)
  have "8 * length bs - len = ?r + (8 * k - len)"
    using assms by simp
  then have "be_nat bs div 2 ^ (8 * length bs - len) = be_nat (take k bs) div 2 ^ (8 * k - len)"
    by (simp only: power_add div_mult2_eq high)
  then show ?thesis by (simp add: in_prefix_def Let_def)
qed

lemma digit_eq:
  fixes q :: nat
  assumes "y < q" and "m < q"
  shows "x * q + y = n * q + m \<longleftrightarrow> x = n \<and> y = m"
proof
  assume eq: "x * q + y = n * q + m"
  from arg_cong [OF eq, of "\<lambda>k. k div q"] arg_cong [OF eq, of "\<lambda>k. k mod q"] assms
  show "x = n \<and> y = m" by simp
qed simp

lemma in_prefix_append:
  assumes "m < 256 ^ length ys" and "r \<le> 8 * length ys"
  shows "in_prefix (n * 256 ^ length ys + m) (8 * length xs + r) (xs @ ys) \<longleftrightarrow>
    be_nat xs = n \<and> in_prefix m r ys"
proof -
  define h where "h = (2::nat) ^ (8 * length ys - r)"
  define q where "q = (2::nat) ^ r"
  have qh: "256 ^ length ys = q * h"
    unfolding q_def h_def power_add [symmetric] using assms(2) by (simp add: power_mult [symmetric] flip: power_mult) (simp add: power_mult)
  have h0: "0 < h" by (simp add: h_def)
  have dv: "(x * (q * h) + y) div h = x * q + y div h" for x y
    using h0 by (simp add: mult.assoc [symmetric])
  have lt: "y div h < q" if "y < q * h" for y
    using that by (simp add: less_mult_imp_div_less)
  have "in_prefix (n * 256 ^ length ys + m) (8 * length xs + r) (xs @ ys) \<longleftrightarrow>
      be_nat xs * q + be_nat ys div h = n * q + m div h"
    by (simp add: in_prefix_def be_nat_append qh h_def [symmetric] dv Let_def)
  also have "\<dots> \<longleftrightarrow> be_nat xs = n \<and> be_nat ys div h = m div h"
    using be_nat_less [of ys] assms(1) by (intro digit_eq lt) (simp_all add: qh)
  finally show ?thesis
    by (simp add: in_prefix_def Let_def h_def)
qed

text \<open>Tables of prefixes, each a network number and a length.\<close>

definition listed :: "(nat \<times> nat) list \<Rightarrow> u8 list \<Rightarrow> bool" where
  "listed prefixes bs \<longleftrightarrow> list_ex (\<lambda>(net, len). in_prefix net len bs) prefixes"

definition v4 :: "nat \<Rightarrow> nat \<Rightarrow> nat" where
  "v4 a b = a * 2 ^ 24 + b * 2 ^ 16"

definition blocked4 :: "(nat \<times> nat) list" where
  "blocked4 = [(v4 0 0, 8), (v4 127 0, 8), (v4 224 0, 3)]"

definition private4 :: "(nat \<times> nat) list" where
  "private4 = [(v4 10 0, 8), (v4 172 16, 12), (v4 192 168, 16), (v4 169 254, 16), (v4 100 64, 10)]"

definition v6 :: "nat list \<Rightarrow> nat" where
  "v6 groups = foldl (\<lambda>n g. n * 65536 + g) 0 groups * 65536 ^ (8 - length groups)"

definition blocked6 :: "(nat \<times> nat) list" where
  "blocked6 = [(v6 [0xff00], 8)]"

definition private6 :: "(nat \<times> nat) list" where
  "private6 = [(v6 [0xfc00], 7), (v6 [0xfe80], 10), (v6 [], 127), (v6 [0,0,0,0,0,0xffff], 96),
     (v6 [0x64, 0xff9b], 96), (v6 [0x64, 0xff9b, 1], 48), (v6 [0x2002], 16)]"

lemma drop16_eq: "unat (drop_bit 16 w) = unat w div 65536" for w :: u32
  by (simp add: drop_bit_eq_div unat_div)

lemma word4: "unat (read32 (nth bs) i) = be_nat [bs ! i, bs ! (i+1), bs ! (i+2), bs ! (i+3)]"
  by (simp add: unat_read32 unat_read16 add.commute algebra_simps numeral_3_eq_3 numeral_2_eq_2)

lemma in_prefix_0: "m < 256 ^ length ys \<Longrightarrow> in_prefix m 0 ys"
  using be_nat_less [of ys] by (simp add: in_prefix_def power_mult)

text \<open>A prefix that ends inside the byte after \<open>xs\<close> compares \<open>xs\<close> and that byte's high bits.\<close>

lemma in_prefix_byte:
  assumes "r \<le> 8" and "m < 256"
  shows "in_prefix (n * 256 ^ Suc (length ys) + m * 256 ^ length ys) (8 * length xs + r) (xs @ b # ys) \<longleftrightarrow>
    be_nat xs = n \<and> unat b div 2 ^ (8 - r) = m div 2 ^ (8 - r)"
proof -
  let ?m = "m * 256 ^ length ys"
  have "?m < 256 ^ length (b # ys)" using assms(2) by simp
  then have "in_prefix (n * 256 ^ length (b # ys) + ?m) (8 * length xs + r) (xs @ b # ys) \<longleftrightarrow>
    be_nat xs = n \<and> in_prefix ?m r (b # ys)"
    by (rule in_prefix_append) (use assms(1) in simp)
  moreover have "in_prefix ?m r (b # ys) \<longleftrightarrow> unat b div 2 ^ (8 - r) = m div 2 ^ (8 - r)"
  proof -
    have "8 * length (b # ys) - r = 8 * length ys + (8 - r)" using assms(1) by simp
    then have "?m div 2 ^ (8 * length (b # ys) - r) = m div 2 ^ (8 - r)"
      by (simp only: power_add power_mult div_mult2_eq) simp
    moreover have "in_prefix ?m r (b # ys) \<longleftrightarrow>
        be_nat (take 1 (b # ys)) div 2 ^ (8 * 1 - r) = ?m div 2 ^ (8 * length (b # ys) - r)"
      by (rule in_prefix_take) (use assms(1) in simp_all)
    ultimately show ?thesis by simp
  qed
  ultimately show ?thesis by simp
qed

lemma v4_byte: "in_prefix (v4 n 0) 8 [a, b, c, d] \<longleftrightarrow> unat a = n"
  using in_prefix_byte [of 8 0 0 "[b, c, d]" "[]" a] in_prefix_append [of 0 "[b, c, d]" 0 n "[a]"]
  by (simp add: v4_def in_prefix_0)

lemma v4_bytes: "m < 256 \<Longrightarrow> in_prefix (v4 n m) 16 [a, b, c, d] \<longleftrightarrow> unat a = n \<and> unat b = m"
  using in_prefix_byte [of 8 m n "[c, d]" "[a]" b] by (simp add: v4_def)

lemma v4_bits: "r \<le> 8 \<Longrightarrow> m < 256 \<Longrightarrow> in_prefix (v4 n m) (8 + r) [a, b, c, d] \<longleftrightarrow>
    unat a = n \<and> unat b div 2 ^ (8 - r) = m div 2 ^ (8 - r)"
  using in_prefix_byte [of r m n "[c, d]" "[a]" b] by (simp add: v4_def)

lemma high_bits_eq:
  fixes x :: nat
  shows "x div 16 = Suc 0 \<longleftrightarrow> x - x mod 16 = 16" and "x div 64 = Suc 0 \<longleftrightarrow> x - x mod 64 = 64"
    and "x div 64 = 2 \<longleftrightarrow> x - x mod 64 = 128" and "x div 2 = 126 \<longleftrightarrow> x - x mod 2 = 252"
  by (simp_all add: minus_mod_eq_div_mult)

lemma half_eq_0: "x div 2 = 0 \<longleftrightarrow> x \<le> Suc 0" for x :: nat
  by arith

lemma high3_eq: "x div 32 = 7 \<longleftrightarrow> 224 \<le> x" if "x < 256" for x :: nat
  using that div_mult_mod_eq [of x 32] by auto

lemma allowed4:
  assumes fam: "k_family (p_key p) = 4" and a: "take 4 (k_remote (p_key p)) = [a, b, c, d]"
  shows "remote_allowed p cfg \<longleftrightarrow>
    \<not> listed blocked4 [a, b, c, d] \<and> (c_allow_private cfg \<noteq> 0 \<or> \<not> listed private4 [a, b, c, d])"
proof -
  have "k_remote (p_key p) ! i = [a, b, c, d] ! i" if "i < 4" for i
    using that by (simp flip: a)
  from this [of 0] this [of 1] have nth: "k_remote (p_key p) ! 0 = a" "k_remote (p_key p) ! Suc 0 = b"
    by simp_all
  have p1: "in_prefix (v4 224 0) 3 [a, b, c, d] \<longleftrightarrow> 224 \<le> unat a"
    using in_prefix_byte [of 3 224 0 "[b, c, d]" "[]" a]
    by (simp add: v4_def high3_eq unat_u8)
  have p2: "in_prefix (v4 172 16) 12 [a, b, c, d] \<longleftrightarrow> unat a = 172 \<and> unat (b AND 240) = 16"
    using v4_bits [of 4 16 172 a b c d] by (simp add: u8_masks high_bits_eq)
  have p3: "in_prefix (v4 100 64) 10 [a, b, c, d] \<longleftrightarrow> unat a = 100 \<and> unat (b AND 192) = 64"
    using v4_bits [of 2 64 100 a b c d] by (simp add: u8_masks high_bits_eq)
  show ?thesis
    using fam
    by (simp add: remote_allowed_def nth listed_def blocked4_def private4_def v4_byte v4_bytes p1 p2 p3
        word_unat_eq_iff word_le_nat_alt) auto
qed

lemma three_digits:
  fixes x y z :: nat
  assumes "b < q" "c < q" "y < q" "z < q"
  shows "(a * q + b) * q + c = (x * q + y) * q + z \<longleftrightarrow> a = x \<and> b = y \<and> c = z"
  using assms by (simp add: digit_eq)

lemma allowed6:
  assumes fam: "k_family (p_key p) \<noteq> 4" and bs: "length (k_remote (p_key p)) = 16"
  shows "remote_allowed p cfg \<longleftrightarrow> \<not> listed blocked6 (k_remote (p_key p)) \<and>
    (c_allow_private cfg \<noteq> 0 \<or> \<not> listed private6 (k_remote (p_key p)))"
proof -
  obtain a0 a1 a2 a3 a4 a5 a6 a7 a8 a9 a10 a11 a12 a13 a14 a15
    where a: "k_remote (p_key p) = [a0,a1,a2,a3,a4,a5,a6,a7,a8,a9,a10,a11,a12,a13,a14,a15]"
      (is "_ = ?bs")
    using bs by (auto simp: length_Suc_conv numeral_eq_Suc)
  define w where "w i = read32 (nth ?bs) i" for i
  have be: "be_nat [a0,a1,a2,a3] = unat (w 0)" "be_nat [a4,a5,a6,a7] = unat (w 4)"
    "be_nat [a8,a9,a10,a11] = unat (w 8)" "be_nat [a12,a13,a14,a15] = unat (w 12)"
    unfolding w_def word4 by simp_all
  have hi: "be_nat [a0,a1] = unat (w 0) div 65536" "be_nat [a4,a5] = unat (w 4) div 65536"
    using be_nat_less [of "[a2,a3]"] be_nat_less [of "[a6,a7]"] be_nat_append [of "[a0,a1]" "[a2,a3]"]
      be_nat_append [of "[a4,a5]" "[a6,a7]"]
    unfolding be(1,2) [symmetric] by simp_all
  have be12: "be_nat [a0,a1,a2,a3,a4,a5,a6,a7,a8,a9,a10,a11] = (x * 2 ^ 32 + y) * 2 ^ 32 + z \<longleftrightarrow>
      unat (w 0) = x \<and> unat (w 4) = y \<and> unat (w 8) = z" if "y < 2 ^ 32" "z < 2 ^ 32" for x y z
  proof -
    have "be_nat ([a0,a1,a2,a3] @ [a4,a5,a6,a7] @ [a8,a9,a10,a11]) =
        (unat (w 0) * 2 ^ 32 + unat (w 4)) * 2 ^ 32 + unat (w 8)"
      unfolding be_nat_append be by simp
    then show ?thesis
      using three_digits [of "unat (w 4)" "2 ^ 32" "unat (w 8)" y z "unat (w 0)" x] that
        unat_u32 [of "w 4"] unat_u32 [of "w 8"] by simp
  qed
  have p1: "in_prefix (v6 [0xff00]) 8 ?bs \<longleftrightarrow> a0 = 255"
    using in_prefix_byte [of 8 255 0 "tl ?bs" "[]" a0] by (simp add: v6_def word_unat_eq_iff)
  have p2: "in_prefix (v6 [0xfc00]) 7 ?bs \<longleftrightarrow> a0 AND 0xfe = 0xfc"
    using in_prefix_byte [of 7 252 0 "tl ?bs" "[]" a0]
    by (simp add: v6_def word_unat_eq_iff u8_masks high_bits_eq)
  have p3: "in_prefix (v6 [0xfe80]) 10 ?bs \<longleftrightarrow> a0 = 0xfe \<and> a1 AND 0xc0 = 0x80"
    using in_prefix_byte [of 2 128 254 "drop 2 ?bs" "[a0]" a1]
    by (simp add: v6_def word_unat_eq_iff u8_masks high_bits_eq)
  have p4: "in_prefix (v6 []) 127 ?bs \<longleftrightarrow> w 0 = 0 \<and> w 4 = 0 \<and> w 8 = 0 \<and> w 12 \<le> 1"
    using in_prefix_append [of 0 "drop 12 ?bs" 31 0 "take 12 ?bs"] be12 [of 0 0 0] be(4)
    by (simp add: v6_def word_unat_eq_iff word_le_nat_alt in_prefix_take [where k = 4 and len = 31 and net = 0]
        half_eq_0 del: be_nat.simps)
  have p5: "in_prefix (v6 [0,0,0,0,0,0xffff]) 96 ?bs \<longleftrightarrow> w 0 = 0 \<and> w 4 = 0 \<and> w 8 = 0xffff"
    using in_prefix_append [of 0 "drop 12 ?bs" 0 "0xffff" "take 12 ?bs"] be12 [of 0 "0xffff" 0]
    by (simp add: v6_def word_unat_eq_iff in_prefix_0)
  have p6: "in_prefix (v6 [0x64, 0xff9b]) 96 ?bs \<longleftrightarrow> w 0 = 0x0064ff9b \<and> w 4 = 0 \<and> w 8 = 0"
    using in_prefix_append [of 0 "drop 12 ?bs" 0 "0x0064ff9b * 2 ^ 64" "take 12 ?bs"] be12 [of 0 0 "0x0064ff9b"]
    by (simp add: v6_def word_unat_eq_iff in_prefix_0)
  have p7: "in_prefix (v6 [0x64, 0xff9b, 1]) 48 ?bs \<longleftrightarrow> w 0 = 0x0064ff9b \<and> drop_bit 16 (w 4) = 1"
  proof -
    have "be_nat ([a0,a1,a2,a3] @ [a4,a5]) = 0x0064ff9b * 65536 + 1 \<longleftrightarrow>
        unat (w 0) = 0x0064ff9b \<and> unat (w 4) div 65536 = 1"
      using digit_eq [of "unat (w 4) div 65536" 65536 1 "unat (w 0)" "0x0064ff9b"] unat_u32 [of "w 4"]
      unfolding be_nat_append be hi by (simp add: less_mult_imp_div_less)
    then show ?thesis
      using in_prefix_append [of 0 "drop 6 ?bs" 0 "0x0064ff9b * 65536 + 1" "take 6 ?bs"]
      by (simp add: v6_def word_unat_eq_iff drop16_eq in_prefix_0)
  qed
  have p8: "in_prefix (v6 [0x2002]) 16 ?bs \<longleftrightarrow> drop_bit 16 (w 0) = 0x2002"
    using in_prefix_append [of 0 "drop 2 ?bs" 0 "0x2002" "take 2 ?bs"] hi(1)
    by (simp add: v6_def word_unat_eq_iff drop16_eq in_prefix_0)
  show ?thesis
    using fam
    by (simp add: remote_allowed_def a listed_def blocked6_def private6_def p1 p2 p3 p4 p5 p6
        p7 [unfolded One_nat_def] p8 Let_def w_def [symmetric]) blast
qed

section \<open>Both families\<close>

definition remote_addr :: "packet \<Rightarrow> u8 list" where
  "remote_addr p = take (if k_family (p_key p) = 4 then 4 else 16) (k_remote (p_key p))"

definition blocked_prefixes :: "packet \<Rightarrow> (nat \<times> nat) list" where
  "blocked_prefixes p = (if k_family (p_key p) = 4 then blocked4 else blocked6)"

definition private_prefixes :: "packet \<Rightarrow> (nat \<times> nat) list" where
  "private_prefixes p = (if k_family (p_key p) = 4 then private4 else private6)"

section \<open>Properties\<close>

text \<open>
  Property C24. The byte tests of \<open>remote_allowed\<close> are equivalent to the two prefix tables: an
  address is allowed exactly when it is in no blocked prefix (IPv4 0/8, 127/8, 224/3; IPv6
  ff00::/8) and, unless \<open>allow_private\<close> is set, in no private one (the RFC 1918, link-local and
  CGNAT ranges; ULA, link-local, ::/127, v4-mapped, the two NAT64 prefixes and 6to4).
\<close>
theorem remote_allowed_table:
  assumes "length (k_remote (p_key p)) = 16"
  shows "remote_allowed p c \<longleftrightarrow>
    \<not> listed (blocked_prefixes p) (remote_addr p) \<and>
    (c_allow_private c \<noteq> 0 \<or> \<not> listed (private_prefixes p) (remote_addr p))"
proof (cases "k_family (p_key p) = 4")
  case True
  obtain a b c' d where "take 4 (k_remote (p_key p)) = [a, b, c', d]"
    using assms by (auto simp: length_Suc_conv numeral_eq_Suc)
  from allowed4 [OF True this] this True show ?thesis
    by (simp add: remote_addr_def blocked_prefixes_def private_prefixes_def)
next
  case False
  from allowed6 [OF this assms] False assms show ?thesis
    by (simp add: remote_addr_def blocked_prefixes_def private_prefixes_def)
qed

theorem remote_allowed_table_witness:
  "remote_allowed syn_parsed sample_config \<and>
   listed (private_prefixes syn_parsed) [192, 168, 0, 1]"
proof -
  have "length (k_remote (p_key syn_parsed)) = 16"
    by (simp add: syn_parsed_def)
  from remote_allowed_table [OF this, of sample_config] show ?thesis
    by (simp add: syn_parsed_def zero_packet_def zero_key_def remote_addr_def blocked_prefixes_def private_prefixes_def
        listed_def blocked4_def private4_def v4_byte v4_bytes v4_def in_prefix_def sample_config_def)
qed

end
