(* ===== verification/Observer.thy ===== *)
theory Observer
  imports Fake Remote
begin

text \<open>
  \<open>observe\<close> of \<open>ebpf/bpf/observer.bpf.c\<close> and its two programs \<open>ff_ingress\<close> and \<open>ff_egress\<close>:
  what happens to each packet that crosses the WAN interface. A packet that carries a built
  request is the observer's own and is passed once; every other packet is traffic, which is
  parsed, matched against its flow and may trigger an emission.
\<close>

section \<open>The observer\<close>

text \<open>A redirected clone on its way out: spend its request and restore its control block.\<close>

definition pass_internal :: "ff_request \<Rightarrow> skb \<times> 'e world \<Rightarrow> verdict \<times> skb \<times> 'e world" where
  "pass_internal r = (\<lambda>(s, w).
     case m_interfaces w (sk_ifindex s) of
       None \<Rightarrow> (TC_ACT_SHOT, s, w)
     | Some iface \<Rightarrow>
         if i_generation iface \<noteq> rq_ifgen r then (TC_ACT_SHOT, s, w)
         else (case cas_state (request_id s) 2 3 w of (won, w) \<Rightarrow>
           if \<not> won then (TC_ACT_SHOT, s, w)
           else (TC_ACT_UNSPEC, s\<lparr>sk_cb0 := rq_saved_cb0 r, sk_cb1 := rq_saved_cb1 r\<rparr>,
                 stat FF_INTERNAL (delete_request (request_id s) w))))"

text \<open>The trigger of the packet's protocol: the word for \<open>emit\<close>, when it fires.\<close>

definition trigger ::
  "'e kern \<Rightarrow> packet \<Rightarrow> ff_config \<Rightarrow> bool \<Rightarrow> u64 \<Rightarrow> skb \<times> 'e world \<Rightarrow> u32 option \<times> skb \<times> 'e world" where
  "trigger K p c ing now = (\<lambda>(s, w).
     if k_protocol (p_key p) = 6 \<and> c_tcp_enabled c \<noteq> 0 then
       (case tcp_trigger K p c ing now (s, w) of (out, s, w) \<Rightarrow>
          (map_option (\<lambda>(ttl, rule). FF_EMIT_META ttl rule) out, s, w))
     else if k_protocol (p_key p) = 17 \<and> c_udp_enabled c \<noteq> 0 then
       (case udp_trigger K p c ing now w of (out, w) \<Rightarrow>
          (map_option (\<lambda>ttl. FF_EMIT_META ttl FF_TEMPLATE_PLAN_UDP) out, s, w))
     else (None, s, w))"

definition observe_packet ::
  "'e kern \<Rightarrow> ff_interface \<Rightarrow> ff_config \<Rightarrow> bool \<Rightarrow> u64 \<Rightarrow> skb \<times> 'e world \<Rightarrow> skb \<times> 'e world" where
  "observe_packet K iface c ing now = (\<lambda>(s, w).
     case parse K s iface ing w of
       (None, w) \<Rightarrow> (s, w)
     | (Some p, w) \<Rightarrow>
         if \<not> remote_allowed p c then (s, stat FF_SKIP_PRIVATE w)
         else (case trigger K p c ing now (s, w) of
                 (None, s, w) \<Rightarrow> (s, w)
               | (Some meta, s, w) \<Rightarrow> emit K iface c ing meta (s, w)))"

definition observe_traffic :: "'e kern \<Rightarrow> bool \<Rightarrow> skb \<times> 'e world \<Rightarrow> skb \<times> 'e world" where
  "observe_traffic K ing = (\<lambda>(s, w).
     case ktime K w of (now, w) \<Rightarrow>
     case alive now w of (live, w) \<Rightarrow>
       if \<not> live then (s, stat FF_LEASE_EXPIRED w)
       else (case (configuration w, m_interfaces w (sk_ifindex s)) of
               (Some c, Some iface) \<Rightarrow> observe_packet K iface c ing now (s, w)
             | _ \<Rightarrow> (s, w)))"

definition observe :: "'e kern \<Rightarrow> bool \<Rightarrow> skb \<times> 'e world \<Rightarrow> verdict \<times> skb \<times> 'e world" where
  "observe K ing = (\<lambda>(s, w).
     case m_requests w (request_id s) of
       Some r \<Rightarrow>
         if rq_state r = 2 \<and> rq_ifindex r = sk_ifindex s \<and> \<not> ing then pass_internal r (s, w)
         else (TC_ACT_UNSPEC, observe_traffic K ing (s, w))
     | None \<Rightarrow> (TC_ACT_UNSPEC, observe_traffic K ing (s, w)))"

definition ff_ingress :: "'e kern \<Rightarrow> skb \<times> 'e world \<Rightarrow> verdict \<times> skb \<times> 'e world" where
  "ff_ingress K = observe K True"

definition ff_egress :: "'e kern \<Rightarrow> skb \<times> 'e world \<Rightarrow> verdict \<times> skb \<times> 'e world" where
  "ff_egress K = observe K False"

section \<open>What the triggers leave alone\<close>

text \<open>No trigger touches the requests, their numbering, the interfaces or what the daemon has published.\<close>

definition same_credentials :: "'e world \<Rightarrow> 'e world \<Rightarrow> bool" where
  "same_credentials w w' \<longleftrightarrow>
     m_requests w' = m_requests w \<and> m_sequence w' = m_sequence w \<and> m_interfaces w' = m_interfaces w \<and>
     m_configs w' = m_configs w \<and> m_templates w' = m_templates w \<and> m_active_config w' = m_active_config w"

lemma same_credentials_simps [simp]:
  "same_credentials w w" "same_credentials w (stat i w') \<longleftrightarrow> same_credentials w w'"
  "same_credentials (stat i w) w' \<longleftrightarrow> same_credentials w w'"
  "same_credentials w (put_tcp k f w') \<longleftrightarrow> same_credentials w w'"
  "same_credentials w (w'\<lparr>m_tcp_flows := m\<rparr>) \<longleftrightarrow> same_credentials w w'"
  "same_credentials w (w'\<lparr>m_udp_flows := m\<rparr>) \<longleftrightarrow> same_credentials w w'"
  "same_credentials w (w'\<lparr>m_rotation := rot\<rparr>) \<longleftrightarrow> same_credentials w w'"
  by (simp_all add: same_credentials_def put_tcp_def)

lemma same_credentials_trans: "same_credentials a b \<Longrightarrow> same_credentials b c \<Longrightarrow> same_credentials a c"
  by (simp add: same_credentials_def)

lemma write_options_credentials: "same_credentials w (snd (snd (write_options K p n sc (s, w))))"
  by (simp add: write_options_def Let_def split: prod.split)

lemma options_credentials: "options K p strip (s, w) = (rej, s', w') \<Longrightarrow> same_credentials w w'"
  using write_options_credentials [of w K p "p_hlen p - 20" _ s]
  by (auto simp: options_def Let_def split: if_splits option.splits) (metis snd_conv)+

lemma next_rule_credentials: "next_rule c w = (rule, w') \<Longrightarrow> same_credentials w w'"
  by (auto simp: next_rule_def Let_def split: if_splits option.splits)

lemma create_flow_credentials:
  assumes "create_flow K p c ing now rejected w = (f, w')"
  shows "same_credentials w w'"
proof -
  obtain rule w1 where nr: "next_rule c w = (rule, w1)" by fastforce
  obtain err m where "flow_insert K (p_key p) (initial_flow p ing now rejected rule) (m_tcp_flows w1) = (err, m)" by fastforce
  then show ?thesis using assms nr next_rule_credentials [OF nr]
    by (auto simp: create_flow_def Let_def split: if_splits option.splits)
qed

lemma tcp_syn_credentials:
  assumes "tcp_syn K p c ing now (s, w) = (s', w')"
  shows "same_credentials w w'"
proof -
  obtain rej s1 w1 where op: "options K p (c_strip_tfo c \<noteq> 0) (s, stat FF_TCP_SYN w) = (rej, s1, w1)" by (metis prod_cases3)
  from options_credentials [OF op] have 1: "same_credentials w w1" by simp
  show ?thesis
  proof (cases "m_tcp_flows w (p_key p)")
    case None
    obtain f w2 where cf: "create_flow K p c ing now rej w1 = (f, w2)" by fastforce
    have "same_credentials w w2" by (rule same_credentials_trans [OF 1 create_flow_credentials [OF cf]])
    then show ?thesis using assms 1 op None cf by (auto simp: tcp_syn_def split: if_splits option.splits)
  next
    case (Some f)
    then show ?thesis using assms 1 op by (auto simp: tcp_syn_def split: if_splits)
  qed
qed

lemma tcp_segment_credentials:
  assumes "tcp_segment_seen K p c ing now f (s, w) = (out, s', w')"
  shows "same_credentials w w'"
proof -
  obtain rej s1 w1 where op: "(if is_synack p then if p_bytes p \<noteq> 0 then (True, s, stat FF_SKIP_SYNACK_DATA w)
                else options K p False (s, w) else (False, s, w)) = (rej, s1, w1)" by (metis prod_cases3)
  then have 1: "same_credentials w w1" using options_credentials [of K p False s w] by (auto split: if_splits)
  obtain o' f' where "handshake_update p c ing now rej f = (o', f')" by fastforce
  then show ?thesis using assms op 1 by (auto simp: tcp_segment_seen_def split: if_splits)
qed

lemma tcp_trigger_credentials:
  assumes "tcp_trigger K p c ing now (s, w) = (out, s', w')"
  shows "same_credentials w w'"
  using assms tcp_syn_credentials [of K p c ing now s w] tcp_segment_credentials [of K p c ing now _ s w]
  by (auto simp: tcp_trigger_def split: option.splits if_splits)

lemma udp_trigger_credentials:
  assumes "udp_trigger K p c ing now w = (out, w')"
  shows "same_credentials w w'"
proof -
  have 1: "same_credentials w (udp_find K (p_key p) w)"
    by (simp add: udp_find_def Let_def split: option.split prod.split)
  show ?thesis using assms 1
    by (auto simp: udp_trigger_def Let_def split: option.splits prod.splits)
qed

lemma trigger_credentials:
  assumes "trigger K p c ing now (s, w) = (out, s', w')"
  shows "same_credentials w w'"
proof -
  obtain o1 s1 w1 where t: "tcp_trigger K p c ing now (s, w) = (o1, s1, w1)" by (metis prod_cases3)
  obtain o2 w2 where u: "udp_trigger K p c ing now w = (o2, w2)" by fastforce
  show ?thesis using assms t u tcp_trigger_credentials [OF t] udp_trigger_credentials [OF u]
    by (auto simp: trigger_def split: if_splits)
qed

section \<open>What the observer does to a packet\<close>

text \<open>The one change to a packet: the Fast Open options of a SYN become padding.\<close>

definition fast_open_stripped :: "packet \<Rightarrow> skb \<Rightarrow> skb \<Rightarrow> bool" where
  "fast_open_stripped p s s' \<longleftrightarrow>
     (\<exists>r c d. strip_options True (option_bytes p s) = Inr r \<and> length r = length (option_bytes p s) \<and>
        sk_data s' = blit (unat (p_l4 p) + 16) [c, d] (blit (unat (p_l4 p) + 20) r (sk_data s)))"

lemma options_data:
  assumes "faithful_load K" "writable_access K W" "parse_packet K s iface ing = Inr p" "k_protocol (p_key p) = 6"
    and "options K p strip (s, w) = (rej, s', w')"
  shows "same_but_data s s' \<and> (sk_data s' = sk_data s \<or> strip \<and> fast_open_stripped p s s')"
proof (cases "sk_data s' = sk_data s")
  case True
  then show ?thesis using options_effect [OF assms] by simp
next
  case False
  with options_effect [OF assms] obtain r where r: "strip_options strip (option_bytes p s) = Inr r"
    "length r = length (option_bytes p s)" "r \<noteq> option_bytes p s"
    "\<exists>c d. sk_data s' = blit (unat (p_l4 p) + 16) [c, d] (blit (unat (p_l4 p) + 20) r (sk_data s))"
    by (auto split: if_splits)
  then have "strip" using strip_False by (cases strip) auto
  then show ?thesis using r options_effect [OF assms] by (auto simp: fast_open_stripped_def)
qed

lemma tcp_trigger_data:
  assumes K: "faithful_load K" "writable_access K W" "parse_packet K s iface ing = Inr p" "k_protocol (p_key p) = 6"
    and run: "tcp_trigger K p c ing now (s, w) = (out, s', w')"
  shows "same_but_data s s' \<and>
    (sk_data s' = sk_data s \<or> is_syn p \<and> c_strip_tfo c \<noteq> 0 \<and> fast_open_stripped p s s')"
proof -
  note od = options_data [OF K]
  have s: "same_but_data s s" by (simp add: same_but_data_def)
  have syn: "same_but_data s s1 \<and> (sk_data s1 = sk_data s \<or> c_strip_tfo c \<noteq> 0 \<and> fast_open_stripped p s s1)"
    if "tcp_syn K p c ing now (s, w) = (s1, w1)" for s1 w1
  proof -
    obtain rej s2 w2 where op: "options K p (c_strip_tfo c \<noteq> 0) (s, stat FF_TCP_SYN w) = (rej, s2, w2)" by (metis prod_cases3)
    have "s1 = s \<or> s1 = s2" using that op by (auto simp: tcp_syn_def split: if_splits option.splits prod.splits)
    then show ?thesis using od [OF op] s by auto
  qed
  have seg: "same_but_data s s1 \<and> sk_data s1 = sk_data s"
    if "tcp_segment_seen K p c ing now f (s, w) = (o1, s1, w1)" for f o1 s1 w1
  proof -
    obtain rej s2 w2 where op: "options K p False (s, w) = (rej, s2, w2)" by (metis prod_cases3)
    have "s1 = s \<or> s1 = s2" using that op by (auto simp: tcp_segment_seen_def split: if_splits prod.splits)
    then show ?thesis using od [OF op] s by auto
  qed
  show ?thesis
    using run syn seg s by (auto simp: tcp_trigger_def split: option.splits if_splits)
qed

lemma trigger_data:
  assumes K: "faithful_load K" "writable_access K W" "parse_packet K s iface ing = Inr p"
    and run: "trigger K p c ing now (s, w) = (out, s', w')"
  shows "same_but_data s s' \<and> (sk_data s' = sk_data s \<or>
    k_protocol (p_key p) = 6 \<and> c_tcp_enabled c \<noteq> 0 \<and> is_syn p \<and> c_strip_tfo c \<noteq> 0 \<and> fast_open_stripped p s s')"
proof -
  have s: "same_but_data s s" by (simp add: same_but_data_def)
  obtain o1 s1 w1 where t: "tcp_trigger K p c ing now (s, w) = (o1, s1, w1)" by (metis prod_cases3)
  obtain o2 w2 where u: "udp_trigger K p c ing now w = (o2, w2)" by fastforce
  show ?thesis using run t u s tcp_trigger_data [OF K _ t]
    by (auto simp: trigger_def split: if_splits)
qed

lemma emit_packetD: "emit K iface c reverse meta (s, w) = (s', w') \<Longrightarrow> s' = s"
  using emit_packet [of K iface c reverse meta s w] by simp

lemma observe_traffic_cases:
  assumes "observe_traffic K ing (s, w) = (s', w')"
  obtains (dead) now w1 where "ktime K w = (now, w1)" "\<not> fst (alive now w1)" "s' = s"
      "w' = stat FF_LEASE_EXPIRED (snd (alive now w1))"
  | (ignored) "s' = s" "same_credentials w w'"
  | (observed) iface c p now w1 out w2 where "configuration w = Some c" "m_interfaces w (sk_ifindex s) = Some iface"
      "parse_packet K s iface ing = Inr p" "remote_allowed p c" "same_credentials w w1"
      "trigger K p c ing now (s, w1) = (out, s', w2)"
      "w' = (case out of None \<Rightarrow> w2 | Some meta \<Rightarrow> snd (emit K iface c ing meta (s', w2)))"
proof -
  obtain now w1 where kt: "ktime K w = (now, w1)" by fastforce
  obtain live w2 where al: "alive now w1 = (live, w2)" by fastforce
  have f1: "same_credentials w w2"
    using ktime_frameD [OF kt] alive_frameD [OF al] by (simp add: same_credentials_def)
  have cf: "configuration w2 = configuration w"
  proof -
    have "w2 = snd (alive now (snd (ktime K w)))" using kt al by simp
    then show ?thesis by (simp add: configuration_def cong: option.case_cong)
  qed
  have ifs: "m_interfaces w2 = m_interfaces w" using f1 by (simp add: same_credentials_def)
  consider (d) "\<not> live" "(s', w') = (s, stat FF_LEASE_EXPIRED w2)"
    | (i) "(s', w') = (s, w2)"
    | (p) c iface where "configuration w = Some c" "m_interfaces w (sk_ifindex s) = Some iface"
        "(s', w') = observe_packet K iface c ing now (s, w2)"
    using assms by (cases live; cases "configuration w"; cases "m_interfaces w (sk_ifindex s)")
      (simp_all add: observe_traffic_def kt al cf ifs)
  then show ?thesis
  proof cases
    case d
    then show ?thesis using kt al by (intro dead [of now w1]) simp_all
  next
    case i
    then show ?thesis using f1 by (intro ignored) simp_all
  next
    case p
    obtain q w3 where q: "parse K s iface ing w2 = (q, w3)" by fastforce
    show ?thesis
    proof (cases "\<exists>r. q = Some r \<and> remote_allowed r c")
      case False
      then have "s' = s \<and> (w' = w3 \<or> w' = stat FF_SKIP_PRIVATE w3)"
        using p(3) q by (auto simp: observe_packet_def split: option.splits)
      moreover have "same_credentials w w3" using parse_frame [OF q] f1 by auto
      ultimately show ?thesis by (intro ignored) auto
    next
      case True
      then obtain r where r: "q = Some r" "remote_allowed r c" by blast
      with parse_frame [OF q] have pp: "w3 = w2" "parse_packet K s iface ing = Inr r" by auto
      obtain out s4 w4 where t: "trigger K r c ing now (s, w2) = (out, s4, w4)" by (metis prod_cases3)
      show ?thesis
      proof (cases out)
        case None
        then have "(s', w') = (s4, w4)" using p(3) q r pp t by (simp add: observe_packet_def)
        then show ?thesis using p(1,2) pp(2) r(2) f1 t None by (intro observed [of c iface r w2 now out w4]) simp_all
      next
        case (Some meta)
        then have e: "(s', w') = emit K iface c ing meta (s4, w4)" using p(3) q r pp t by (simp add: observe_packet_def)
        then have "s' = s4" using emit_packetD [of K iface c ing meta s4 w4 s' w'] by simp
        then show ?thesis using e p(1,2) pp(2) r(2) f1 t Some
          by (intro observed [of c iface r w2 now out w4]) (simp_all, metis snd_conv)
      qed
    qed
  qed
qed

lemma observe_traffic_path:
  assumes "observe K ing (s, w) = (v, s', w')"
  obtains (own) r where "m_requests w (request_id s) = Some r" "rq_state r = 2" "rq_ifindex r = sk_ifindex s" "\<not> ing"
      "pass_internal r (s, w) = (v, s', w')"
  | (traffic) "v = TC_ACT_UNSPEC" "observe_traffic K ing (s, w) = (s', w')"
  using assms by (auto simp: observe_def split: option.splits if_splits)

lemma observe_traffic_eq:
  assumes "\<And>r. m_requests w (request_id s) = Some r \<Longrightarrow> rq_state r = 2 \<Longrightarrow> rq_ifindex r = sk_ifindex s \<Longrightarrow> ing"
  shows "observe K ing (s, w) = (TC_ACT_UNSPEC, observe_traffic K ing (s, w))"
  using assms by (auto simp: observe_def split: option.split)

lemma pass_internal_cases:
  assumes "pass_internal r (s, w) = (v, s', w')" and "m_requests w (request_id s) = Some r" and "rq_state r = 2"
  obtains (stale) "v = TC_ACT_SHOT" "s' = s" "w' = w"
      "\<forall>iface. m_interfaces w (sk_ifindex s) = Some iface \<longrightarrow> i_generation iface \<noteq> rq_ifgen r"
  | (passed) iface where "m_interfaces w (sk_ifindex s) = Some iface" "i_generation iface = rq_ifgen r"
      "v = TC_ACT_UNSPEC" "s' = s\<lparr>sk_cb0 := rq_saved_cb0 r, sk_cb1 := rq_saved_cb1 r\<rparr>"
      "w' = stat FF_INTERNAL (delete_request (request_id s) w)"
proof (cases "\<exists>iface. m_interfaces w (sk_ifindex s) = Some iface \<and> i_generation iface = rq_ifgen r")
  case False
  with assms show ?thesis by (intro stale) (auto simp: pass_internal_def split: option.splits if_splits)
next
  case True
  then obtain iface where i: "m_interfaces w (sk_ifindex s) = Some iface" "i_generation iface = rq_ifgen r" by blast
  have "delete_request (request_id s) (w\<lparr>m_requests := (m_requests w)(request_id s \<mapsto> r\<lparr>rq_state := 3\<rparr>)\<rparr>) =
      delete_request (request_id s) w"
    by (simp add: delete_request_def)
  with assms i show ?thesis by (intro passed [of iface]) (simp_all add: pass_internal_def cas_state_def)
qed

section \<open>Properties\<close>

text \<open>
  Property C9. The observer fails open: whatever the maps and the helpers do, it never redirects a
  packet and never drops traffic; the one packet it drops is a built clone at egress whose
  interface has disappeared or been attached anew since the request was made.
\<close>
theorem observe_fails_open:
  assumes "observe K ing (s, w) = (v, s', w')"
  shows "v = TC_ACT_UNSPEC \<or>
    (v = TC_ACT_SHOT \<and> s' = s \<and> w' = w \<and> \<not> ing \<and> (\<exists>r. m_requests w (request_id s) = Some r \<and> rq_state r = 2 \<and>
       rq_ifindex r = sk_ifindex s \<and> map_option i_generation (m_interfaces w (sk_ifindex s)) \<noteq> Some (rq_ifgen r)))"
  using assms
proof (cases rule: observe_traffic_path)
  case (own r)
  from own(5,1,2) show ?thesis
  proof (cases rule: pass_internal_cases)
    case stale
    with own show ?thesis by (cases "m_interfaces w (sk_ifindex s)") auto
  qed simp
qed simp

text \<open>A built clone on its way out.\<close>

definition built_clone :: skb where
  "built_clone = syn_packet\<lparr>sk_cb0 := 7\<rparr>"

definition egress_world :: "u64 world" where
  "egress_world = builder_world\<lparr>m_requests := [7 \<mapsto> sample_request\<lparr>rq_state := 2\<rparr>]\<rparr>"

lemma built_clone_id [simp]: "request_id built_clone = 7" "sk_ifindex built_clone = 3"
  by (simp_all add: request_id_def built_clone_def syn_packet_def)

theorem observe_fails_open_witness:
  "fst (observe list_kern False (built_clone, egress_world\<lparr>m_interfaces := Map.empty\<rparr>)) = TC_ACT_SHOT \<and>
   (\<exists>r. m_requests egress_world 7 = Some r \<and> rq_state r = 2)"
proof (cases "observe list_kern False (built_clone, egress_world\<lparr>m_interfaces := Map.empty\<rparr>)")
  case (fields v s' w')
  have "v = TC_ACT_SHOT"
    using fields by (simp add: observe_def egress_world_def sample_request_fields pass_internal_def)
  with observe_fails_open [OF fields] fields show ?thesis by auto
qed

text \<open>
  Property C8. Traffic leaves the observer as it came: a packet that is not the observer's own keeps
  every field and every byte, unless it is a TCP SYN and stripping is configured, in which case
  only its option bytes change, Fast Open options to padding, with the checksum bytes; this also
  holds on packets that trigger an injection.
\<close>
theorem observe_keeps_traffic:
  assumes "faithful_load K" and "writable_access K W"
    and "\<forall>r. m_requests w (request_id s) = Some r \<longrightarrow> rq_state r \<noteq> 2 \<or> rq_ifindex r \<noteq> sk_ifindex s"
    and "observe K ing (s, w) = (v, s', w')"
  shows "v = TC_ACT_UNSPEC \<and> same_but_data s s' \<and>
    (sk_data s' = sk_data s \<or>
     (\<exists>iface c p. configuration w = Some c \<and> c_tcp_enabled c \<noteq> 0 \<and> c_strip_tfo c \<noteq> 0 \<and>
        m_interfaces w (sk_ifindex s) = Some iface \<and> parse_packet K s iface ing = Inr p \<and>
        k_protocol (p_key p) = 6 \<and> is_syn p \<and> remote_allowed p c \<and> fast_open_stripped p s s'))"
proof -
  have run: "v = TC_ACT_UNSPEC" "observe_traffic K ing (s, w) = (s', w')"
    using observe_traffic_eq [of w s ing K] assms(3,4) by auto
  have s: "same_but_data s s" by (simp add: same_but_data_def)
  from run(2) show ?thesis
  proof (cases rule: observe_traffic_cases)
    case (observed iface c p now w1 out w2)
    from trigger_data [OF assms(1,2) observed(3,6)] observed(1-4) run(1) show ?thesis by auto
  qed (simp_all add: run s)
qed

theorem observe_keeps_traffic_witness:
  "fst (observe list_kern False (syn_packet, builder_world)) = TC_ACT_UNSPEC \<and>
   same_but_data syn_packet (fst (snd (observe list_kern False (syn_packet, builder_world))))"
proof (cases "observe list_kern False (syn_packet, builder_world)")
  case (fields v s' w')
  have "\<forall>r. m_requests builder_world (request_id syn_packet) = Some r \<longrightarrow>
      rq_state r \<noteq> 2 \<or> rq_ifindex r \<noteq> sk_ifindex syn_packet"
    by (simp add: builder_world_def request_id_def syn_packet_def)
  from observe_keeps_traffic [OF list_kern_load list_kern_access this fields] fields show ?thesis by simp
qed

lemma stat_only: "\<exists>m. stat i w = w\<lparr>m_stats := m\<rparr>"
  by (cases "m_stats w (stat_id i)") (auto simp: stat_def intro: exI [of _ "m_stats w"])

lemma stat_again: "\<exists>m. stat i (stat j w) = w\<lparr>m_stats := m\<rparr>"
proof -
  obtain x where x: "stat j w = w\<lparr>m_stats := x\<rparr>" using stat_only by blast
  obtain y where y: "stat i (w\<lparr>m_stats := x\<rparr>) = (w\<lparr>m_stats := x\<rparr>)\<lparr>m_stats := y\<rparr>" using stat_only by blast
  then show ?thesis unfolding x by (intro exI [of _ y]) simp
qed

lemma observe_dead:
  assumes "m_leases w 0 = Some l" and "le_until l \<le> now" and "ktime K w = (now, w1)"
  shows "observe_traffic K ing (s, w) = (s, stat FF_LEASE_EXPIRED
    (if le_reported l = 0 then stat FF_LEASE_EXPIRED (w1\<lparr>m_leases := (m_leases w)(0 \<mapsto> l\<lparr>le_reported := 1\<rparr>)\<rparr>) else w1))"
proof -
  have "m_leases w1 = m_leases w" using ktime_frameD [OF assms(3)] by blast
  moreover have "\<not> now < le_until l" using assms(2) by (simp only: not_less)
  ultimately show ?thesis using assms(1,3) by (simp add: observe_traffic_def alive_def)
qed

text \<open>
  Property C32. A dead lease switches the data path off: once the daemon's lease has run out, a packet
  is passed unchanged and no map but the counters and the lease's own report flag changes, so
  nothing is parsed, tracked or injected. The first packet of an outage is counted twice (once
  by \<open>alive\<close>, once by \<open>observe\<close>) and every later one once.
\<close>
theorem observe_dead_lease:
  assumes "\<forall>r. m_requests w (request_id s) = Some r \<longrightarrow> rq_state r \<noteq> 2 \<or> rq_ifindex r \<noteq> sk_ifindex s"
    and "m_leases w 0 = Some l" and "le_until l \<le> fst (ktime K w)" and "counting w"
    and "observe K ing (s, w) = (v, s', w')"
  shows "v = TC_ACT_UNSPEC \<and> s' = s \<and>
    w' = w\<lparr>m_stats := m_stats w', m_leases := m_leases w', w_env := w_env w'\<rparr> \<and>
    m_leases w' = (m_leases w)(0 \<mapsto> l\<lparr>le_reported := (if le_reported l = 0 then 1 else le_reported l)\<rparr>) \<and>
    count FF_LEASE_EXPIRED w' = count FF_LEASE_EXPIRED w + (if le_reported l = 0 then 2 else 1) \<and>
    (\<forall>i. i \<noteq> FF_LEASE_EXPIRED \<longrightarrow> count i w' = count i w)"
proof -
  obtain now w1 where kt: "ktime K w = (now, w1)" by fastforce
  then obtain e where w1: "w1 = w\<lparr>w_env := e\<rparr>" by (auto simp: ktime_def Let_def split: prod.splits)
  define u where "u = w1\<lparr>m_leases := (m_leases w)(0 \<mapsto> l\<lparr>le_reported := (if le_reported l = 0 then 1 else le_reported l)\<rparr>)\<rparr>"
  have u1: "le_reported l \<noteq> 0 \<Longrightarrow> u = w1" using assms(2) by (simp add: u_def w1 fun_upd_idem)
  have "observe K ing (s, w) = (TC_ACT_UNSPEC, observe_traffic K ing (s, w))"
    using assms(1) by (intro observe_traffic_eq) auto
  then have out: "v = TC_ACT_UNSPEC" "s' = s"
    "w' = (if le_reported l = 0 then stat FF_LEASE_EXPIRED (stat FF_LEASE_EXPIRED u) else stat FF_LEASE_EXPIRED u)"
    using assms(5) observe_dead [OF assms(2) _ kt, of ing s] assms(3) kt u1 by (auto simp: u_def split: if_splits)
  have cu: "counting u" "\<And>i. count i u = count i w"
    using assms(4) by (simp_all add: u_def w1 counting_def count_def)
  obtain st where st: "w' = u\<lparr>m_stats := st\<rparr>"
    using out(3) stat_again [of FF_LEASE_EXPIRED FF_LEASE_EXPIRED u] stat_only [of FF_LEASE_EXPIRED u]
    by (cases "le_reported l = 0") auto
  have "m_leases w' = m_leases u" using out(3) by simp
  then have "m_leases w' = (m_leases w)(0 \<mapsto> l\<lparr>le_reported := (if le_reported l = 0 then 1 else le_reported l)\<rparr>)"
    by (simp add: u_def)
  moreover have "w' = w\<lparr>m_stats := m_stats w', m_leases := m_leases w', w_env := w_env w'\<rparr>"
    unfolding st by (simp add: u_def w1)
  moreover have "count FF_LEASE_EXPIRED w' = count FF_LEASE_EXPIRED w + (if le_reported l = 0 then 2 else 1) \<and>
      (\<forall>i. i \<noteq> FF_LEASE_EXPIRED \<longrightarrow> count i w' = count i w)"
    using cu by (simp add: out(3) count_stat)
  ultimately show ?thesis using out(1,2) by blast
qed

definition dead_world :: "u64 world" where
  "dead_world = builder_world\<lparr>m_leases := [0 \<mapsto> \<lparr>le_until = 500, le_reported = 0, le_pad = 0\<rparr>]\<rparr>"

lemma stat_id_less: "stat_id i < 32"
  by (cases i) (simp_all add: word_less_nat_alt)

theorem observe_dead_lease_witness:
  "count FF_LEASE_EXPIRED (snd (snd (observe list_kern True (syn_packet, dead_world)))) = 2 \<and>
   fst (observe list_kern True (syn_packet, dead_world)) = TC_ACT_UNSPEC"
proof (cases "observe list_kern True (syn_packet, dead_world)")
  case (fields v s' w')
  have "\<forall>r. m_requests dead_world (request_id syn_packet) = Some r \<longrightarrow>
      rq_state r \<noteq> 2 \<or> rq_ifindex r \<noteq> sk_ifindex syn_packet"
    by (simp add: dead_world_def builder_world_def request_id_def syn_packet_def)
  moreover have "m_leases dead_world 0 = Some \<lparr>le_until = 500, le_reported = 0, le_pad = 0\<rparr>"
    by (simp add: dead_world_def)
  moreover have "le_until \<lparr>le_until = 500, le_reported = 0, le_pad = 0\<rparr> \<le> fst (ktime list_kern dead_world)"
    by (simp add: ktime_def list_kern_simps dead_world_def builder_world_def sample_world_def empty_world_def word_le_nat_alt)
  moreover have "counting dead_world" and z: "count FF_LEASE_EXPIRED dead_world = 0"
    by (simp_all add: counting_def count_def dead_world_def builder_world_def sample_world_def stat_id_less del: stat_id.simps)
  ultimately show ?thesis using observe_dead_lease [OF _ _ _ _ fields] fields by fastforce
qed

end
