(* ===== verification/Requests.thy ===== *)
theory Requests
  imports Observer
begin

text \<open>
  The life of a request across the programs of \<open>ebpf/bpf\<close>: \<open>emit\<close> enters it, the builder claims
  it for the clone, the observer's egress hook spends it. Each claim and each pass is an output
  of a bounded emitter, whatever other packets cross the programs in between; and the clone
  helper of the model is instantiated by the programs it runs.
\<close>

section \<open>Emission and the requests of others\<close>

text \<open>The copies of one emission use the numbers that follow the counter.\<close>

definition fresh_ids :: "u64 \<Rightarrow> nat \<Rightarrow> u64 set" where
  "fresh_ids n k = (\<lambda>d. n + of_nat d) ` {1..k}"

lemma emit_copy_others:
  assumes K: "hash_insert (request_insert K)" "tame_clone K" and seq: "m_sequence w 0 = Some n" and j: "j \<noteq> n + 1"
    and run: "emit_copy K iface c reverse now ttl plan variant (s, w) = (s', w')"
    and q: "m_requests w' j = Some q"
  shows "\<exists>r. m_requests w j = Some r \<and> advances r q"
  using run
proof (cases rule: emit_copy_cases)
  case (full i w1 m)
  with hash_insertD(1) [OF K(1) full(2)] q show ?thesis by auto
next
  case (sent i w1 m s2 e w2)
  from next_id_sequence [OF sent(1)] seq have i: "j \<noteq> i" using j by simp
  then have "m_requests w2 j = Some q" using q sent(5) by (auto split: option.splits if_splits)
  with tame_cloneD(1) [OF K(2) sent(3), unfolded requests_advance_def] obtain r where "m j = Some r" "advances r q" by auto
  with hash_insertD(3) [OF K(1) sent(2)] i show ?thesis by auto
qed

lemma emit_loop_others:
  assumes K: "hash_insert (request_insert K)" "tame_clone K"
  shows "m_sequence w 0 = Some n \<Longrightarrow> j \<notin> fresh_ids n k \<Longrightarrow>
    emit_loop K iface c reverse now ttl plan variant i k (s, w) = (s', w') \<Longrightarrow> m_requests w' j = Some q \<Longrightarrow>
    \<exists>r. m_requests w j = Some r \<and> advances r q"
proof (induction k arbitrary: i w n)
  case 0
  then show ?case by auto
next
  case (Suc k)
  from Suc.prems(3) show ?case
  proof (cases rule: emit_loop_step)
    case stop
    with Suc.prems(4) show ?thesis by auto
  next
    case (copy w1 w2)
    have seq: "m_sequence w1 0 = Some n" using copy(2) Suc.prems(1) by simp
    have seq2: "m_sequence w2 0 = Some (n + 1)" by (rule emit_copy_sequence [OF K(2) seq copy(4)])
    have "d \<in> {1..k} \<Longrightarrow> j \<noteq> n + 1 + of_nat d" for d
      using Suc.prems(2) by (auto simp: fresh_ids_def image_iff dest!: bspec [of _ _ "Suc d"])
    then have "j \<notin> fresh_ids (n + 1) k" unfolding fresh_ids_def by blast
    from Suc.IH [OF seq2 this copy(5) Suc.prems(4)] obtain r where r: "m_requests w2 j = Some r" "advances r q" by blast
    have "j \<noteq> n + 1" using Suc.prems(2) by (auto simp: fresh_ids_def image_iff dest!: bspec [of _ _ 1])
    from emit_copy_others [OF K seq this copy(4) r(1)] r(2) copy(3) show ?thesis by (auto dest: advances_trans)
  qed
qed

lemma emit_others:
  assumes K: "hash_insert (request_insert K)" "tame_clone K" and seq: "m_sequence w 0 = Some n" and j: "j \<notin> fresh_ids n 8"
    and run: "emit K iface c reverse meta (s, w) = (s', w')" and q: "m_requests w' j = Some q"
  shows "\<exists>r. m_requests w j = Some r \<and> advances r q"
  using run
proof (cases rule: emit_cases)
  case quiet
  with q show ?thesis by auto
next
  case (loop ttl plan variant w1)
  from emit_loop_others [OF K _ j loop(5) q] loop(3,4) seq show ?thesis by simp
qed

section \<open>A request as a credential\<close>

text \<open>
  A packet at one of the three programs. \<open>claims\<close> reports that the builder redirects the clone of
  request \<open>i\<close>, \<open>spends\<close> that the egress hook passes it.
\<close>

datatype crossing = AtBuilder skb | AtIngress skb | AtEgress skb

fun cross :: "'e kern \<Rightarrow> crossing \<Rightarrow> 'e world \<Rightarrow> verdict \<times> skb \<times> 'e world" where
  "cross K (AtBuilder s) w = ff_builder K (s, w)"
| "cross K (AtIngress s) w = ff_ingress K (s, w)"
| "cross K (AtEgress s) w = ff_egress K (s, w)"

definition claims :: "'e kern \<Rightarrow> u64 \<Rightarrow> crossing \<Rightarrow> 'e world \<Rightarrow> skb option \<times> 'e world" where
  "claims K i x w = (case cross K x w of (v, s', w') \<Rightarrow>
     (case (v, x) of (TC_ACT_REDIRECT _, AtBuilder s) \<Rightarrow> if request_id s = i then Some s' else None | _ \<Rightarrow> None, w'))"

definition spends :: "'e kern \<Rightarrow> u64 \<Rightarrow> crossing \<Rightarrow> 'e world \<Rightarrow> skb option \<times> 'e world" where
  "spends K i x w = (case cross K x w of (v, s', w') \<Rightarrow>
     (case x of AtEgress s \<Rightarrow>
        if request_id s = i \<and> v = TC_ACT_UNSPEC \<and>
           (case m_requests w i of Some r \<Rightarrow> rq_state r = 2 \<and> rq_ifindex r = sk_ifindex s | None \<Rightarrow> False)
        then Some s' else None | _ \<Rightarrow> None, w'))"

text \<open>What is left of the credential: one claim until it is claimed, one pass until it is passed.\<close>

definition claim_left :: "u64 \<Rightarrow> 'e world \<Rightarrow> nat" where
  "claim_left i w = (case m_requests w i of Some r \<Rightarrow> if rq_state r = 0 then 1 else 0 | None \<Rightarrow> 0)"

definition pass_left :: "u64 \<Rightarrow> 'e world \<Rightarrow> nat" where
  "pass_left i w = (case m_requests w i of Some r \<Rightarrow> if rq_state r \<le> 2 then 1 else 0 | None \<Rightarrow> 0)"

text \<open>The counter is about to reach the number again, which it does once in \<open>2 ^ 64\<close> copies.\<close>

definition reissues :: "u64 \<Rightarrow> crossing \<Rightarrow> 'e world \<Rightarrow> bool" where
  "reissues i x w \<longleftrightarrow> (case m_sequence w 0 of None \<Rightarrow> True | Some n \<Rightarrow> i \<in> fresh_ids n 8)"

lemma pass_internal_requests:
  assumes "pass_internal r (s, w) = (v, s', w')" and "m_requests w (request_id s) = Some r" and "rq_state r = 2"
  shows "if v = TC_ACT_UNSPEC then m_requests w' = (m_requests w)(request_id s := None) else w' = w \<and> v = TC_ACT_SHOT"
  using assms by (rule pass_internal_cases) (simp_all add: delete_request_def)

lemma observe_traffic_others:
  assumes K: "hash_insert (request_insert K)" "tame_clone K" and seq: "m_sequence w 0 = Some n" and j: "j \<notin> fresh_ids n 8"
    and run: "observe_traffic K ing (s, w) = (s', w')" and q: "m_requests w' j = Some q"
  shows "\<exists>r. m_requests w j = Some r \<and> advances r q"
  using run
proof (cases rule: observe_traffic_cases)
  case (dead now w1)
  have "m_requests w1 = m_requests w" using ktime_frameD [OF dead(1)] by simp
  with dead q show ?thesis by simp
next
  case ignored
  with q show ?thesis by (simp add: same_credentials_def)
next
  case (observed iface c p now w1 out w2)
  have cred: "same_credentials w w2"
    by (rule same_credentials_trans [OF observed(5) trigger_credentials [OF observed(6)]])
  show ?thesis
  proof (cases out)
    case None
    with observed(7) q cred show ?thesis by (simp add: same_credentials_def)
  next
    case (Some meta)
    obtain s3 w3 where e: "emit K iface c ing meta (s', w2) = (s3, w3)" by fastforce
    with Some observed(7) have "w' = w3" by simp
    with emit_others [OF K _ j e, of q] q seq cred show ?thesis by (simp add: same_credentials_def)
  qed
qed

lemma observe_others:
  assumes K: "hash_insert (request_insert K)" "tame_clone K" and seq: "m_sequence w 0 = Some n" and j: "j \<notin> fresh_ids n 8"
    and run: "observe K ing (s, w) = (v, s', w')" and q: "m_requests w' j = Some q"
  shows "\<exists>r. m_requests w j = Some r \<and> advances r q"
  using run
proof (cases rule: observe_traffic_path)
  case (own r)
  from pass_internal_requests [OF own(5,1,2)] q show ?thesis by (auto split: if_splits)
next
  case traffic
  show ?thesis by (rule observe_traffic_others [OF K seq j traffic(2) q])
qed

lemma advances_state: "rq_state r \<le> x \<Longrightarrow> advances r (r\<lparr>rq_state := x\<rparr>)"
  by (simp add: advances_def)

lemma builder_others:
  assumes run: "ff_builder K (s, w) = (v, s', w')" and q: "m_requests w' j = Some q"
  shows "\<exists>r. m_requests w j = Some r \<and> advances r q \<and> (j = request_id s \<longrightarrow> v \<noteq> TC_ACT_SHOT \<longrightarrow> rq_state r = 0 \<and> rq_state q = 2)"
  using run
proof (cases rule: ff_builder_cases)
  case refused
  with q show ?thesis by auto
next
  case (claimed r iface w1)
  have "m_requests w1 (request_id s) = Some (r\<lparr>rq_state := 1\<rparr>)" using claimed(8) by simp
  from claimed(11) this show ?thesis
  proof (cases rule: build_claimed_cases)
    case dropped
    with claimed q show ?thesis by (auto split: if_splits intro: advances_state)
  next
    case (built w2)
    with claimed q show ?thesis by (auto split: if_splits intro: advances_state)
  qed
qed

lemma cross_others:
  assumes K: "hash_insert (request_insert K)" "tame_clone K" and no: "\<not> reissues i x w"
    and run: "cross K x w = (v, s', w')" and q: "m_requests w' i = Some q"
  shows "\<exists>r. m_requests w i = Some r \<and> advances r q"
proof -
  from no obtain n where seq: "m_sequence w 0 = Some n" "i \<notin> fresh_ids n 8" by (auto simp: reissues_def split: option.splits)
  show ?thesis
  proof (cases x)
    case (AtBuilder s)
    with run builder_others [of K s w v s' w' i q] q show ?thesis by auto
  next
    case (AtIngress s)
    with run observe_others [OF K seq, of True s v s' w' q] q show ?thesis by (simp add: ff_ingress_def)
  next
    case (AtEgress s)
    with run observe_others [OF K seq, of False s v s' w' q] q show ?thesis by (simp add: ff_egress_def)
  qed
qed

lemma left_keeps:
  assumes adv: "\<And>q. m_requests w' i = Some q \<Longrightarrow> \<exists>r. m_requests w i = Some r \<and> advances r q"
  shows "claim_left i w' \<le> claim_left i w" and "pass_left i w' \<le> pass_left i w"
proof -
  have "claim_left i w' \<le> claim_left i w \<and> pass_left i w' \<le> pass_left i w"
  proof (cases "m_requests w' i")
    case (Some q)
    with adv obtain r where r: "m_requests w i = Some r" "rq_state r \<le> rq_state q" by (auto simp: advances_def)
    then have "rq_state q = 0 \<Longrightarrow> rq_state r = 0" "rq_state q \<le> 2 \<Longrightarrow> rq_state r \<le> 2" by simp_all
    with Some r(1) show ?thesis by (simp add: claim_left_def pass_left_def)
  qed (simp add: claim_left_def pass_left_def)
  then show "claim_left i w' \<le> claim_left i w" "pass_left i w' \<le> pass_left i w" by simp_all
qed

lemma claims_quota:
  assumes K: "hash_insert (request_insert K)" "tame_clone K"
  shows "quota (claims K i) (claim_left i) (reissues i)"
proof
  fix x and w :: "'a world" and t w'
  assume no: "\<not> reissues i x w" and st: "claims K i x w = (Some t, w')"
  then obtain v s s' where x: "x = AtBuilder s" and id: "request_id s = i" and run: "ff_builder K (s, w) = (v, s', w')"
    and v: "v \<noteq> TC_ACT_SHOT" and red: "\<exists>j. v = TC_ACT_REDIRECT j"
    by (auto simp: claims_def split: prod.splits verdict.splits crossing.splits if_splits)
  from run show "claim_left i w' < claim_left i w"
  proof (cases rule: ff_builder_cases)
    case (claimed r iface w1)
    have "m_requests w1 (request_id s) = Some (r\<lparr>rq_state := 1\<rparr>)" using claimed(8) by simp
    from claimed(11) this show ?thesis
    proof (cases rule: build_claimed_cases)
      case (built w2)
      then show ?thesis using claimed id by (simp add: claim_left_def)
    qed (use v in simp)
  qed (use v in simp)
next
  fix x and w :: "'a world" and w'
  assume no: "\<not> reissues i x w" and st: "claims K i x w = (None, w')"
  obtain v s' where "cross K x w = (v, s', w')" using st by (auto simp: claims_def split: prod.splits)
  from left_keeps(1) [of w' i w, OF cross_others [OF K no this]] show "claim_left i w' \<le> claim_left i w" by blast
qed

lemma spends_quota:
  assumes K: "hash_insert (request_insert K)" "tame_clone K"
  shows "quota (spends K i) (pass_left i) (reissues i)"
proof
  fix x and w :: "'a world" and t w'
  assume no: "\<not> reissues i x w" and st: "spends K i x w = (Some t, w')"
  then obtain s s' r where x: "x = AtEgress s" and id: "request_id s = i" and run: "observe K False (s, w) = (TC_ACT_UNSPEC, s', w')"
    and r: "m_requests w i = Some r" "rq_state r = 2" "rq_ifindex r = sk_ifindex s"
    by (auto simp: spends_def ff_egress_def split: prod.splits crossing.splits if_splits option.splits)
  have "pass_internal r (s, w) = (TC_ACT_UNSPEC, s', w')" using run r id by (simp add: observe_def)
  from pass_internal_requests [OF this] r id show "pass_left i w' < pass_left i w" by (simp add: pass_left_def)
next
  fix x and w :: "'a world" and w'
  assume no: "\<not> reissues i x w" and st: "spends K i x w = (None, w')"
  obtain v s' where "cross K x w = (v, s', w')" using st by (auto simp: spends_def split: prod.splits)
  from left_keeps(2) [of w' i w, OF cross_others [OF K no this]] show "pass_left i w' \<le> pass_left i w" by blast
qed

interpretation claim: quota "claims list_kern i" "claim_left i" "reissues i"
  by (rule claims_quota) (simp_all add: list_kern_simps)

interpretation pass: quota "spends list_kern i" "pass_left i" "reissues i"
  by (rule spends_quota) (simp_all add: list_kern_simps)

section \<open>Delivery of a clone\<close>

text \<open>
  What \<open>bpf_clone_redirect\<close> does with the clone it hands to a builder device: the builder program
  at that device's egress, and after a redirect the egress program of the WAN interface.
\<close>

definition deliver :: "'e kern \<Rightarrow> skb \<Rightarrow> u32 \<Rightarrow> 'e world \<Rightarrow> verdict \<times> skb \<times> 'e world" where
  "deliver K s j w =
     (case ff_builder K (s\<lparr>sk_ifindex := j\<rparr>, w) of (v, s', w') \<Rightarrow>
       (case v of TC_ACT_REDIRECT i \<Rightarrow> ff_egress K (s'\<lparr>sk_ifindex := i\<rparr>, w') | _ \<Rightarrow> (v, s', w')))"

definition connected :: "'e kern \<Rightarrow> 'e kern" where
  "connected K = K\<lparr>clone_redirect := (\<lambda>s j w. (False, snd (snd (deliver K s j w))))\<rparr>"

lemma request_id_ifindex [simp]: "request_id (s\<lparr>sk_ifindex := j\<rparr>) = request_id s"
  by (simp add: request_id_def)

lemma request_id_put [simp]:
  "request_id (s\<lparr>sk_cb0 := ucast i, sk_cb1 := ucast (drop_bit 32 i)\<rparr>) = i"
  by (simp add: request_id_def) (rule bit_word_eqI, auto simp: bit_simps dest: bit_imp_le_length)

lemma pass_internal_passes:
  assumes "m_requests w (request_id s) = Some r" and "rq_state r = 2"
    and "m_interfaces w (sk_ifindex s) = Some iface" and "i_generation iface = rq_ifgen r"
  shows "pass_internal r (s, w) = (TC_ACT_UNSPEC, s\<lparr>sk_cb0 := rq_saved_cb0 r, sk_cb1 := rq_saved_cb1 r\<rparr>,
    stat FF_INTERNAL (delete_request (request_id s) w))"
  using assms by (simp add: pass_internal_def cas_state_def delete_request_def)

lemma deliver_cases:
  assumes K: "keeps_control K" and run: "deliver K s j w = (v, s', w')"
  obtains (dropped) "v = TC_ACT_SHOT" "m_sequence w' = m_sequence w"
      "m_requests w' = m_requests w \<or> (\<exists>r. m_requests w (request_id s) = Some r \<and> rq_state r = 0 \<and>
         m_requests w' = (m_requests w)(request_id s \<mapsto> r\<lparr>rq_state := 1\<rparr>))"
  | (delivered) r s1 w1 where "ff_builder K (s\<lparr>sk_ifindex := j\<rparr>, w) = (TC_ACT_REDIRECT (rq_ifindex r), s1, w1)"
      "m_requests w (request_id s) = Some r" "rq_state r = 0" "v = TC_ACT_UNSPEC"
      "s' = s1\<lparr>sk_ifindex := rq_ifindex r, sk_cb0 := rq_saved_cb0 r, sk_cb1 := rq_saved_cb1 r\<rparr>"
      "w' = stat FF_INTERNAL (delete_request (request_id s) w1)"
      "m_requests w' = (m_requests w)(request_id s := None)" "m_sequence w' = m_sequence w"
proof -
  obtain v1 s1 w1 where b: "ff_builder K (s\<lparr>sk_ifindex := j\<rparr>, w) = (v1, s1, w1)" by (metis prod_cases3)
  from b show ?thesis
  proof (cases rule: ff_builder_cases)
    case refused
    then have "(v, s', w') = (v1, s1, w1)" using run b by (simp add: deliver_def)
    then show ?thesis using refused by (intro dropped) simp_all
  next
    case (claimed r iface w2)
    have r2: "m_requests w2 (request_id (s\<lparr>sk_ifindex := j\<rparr>)) = Some (r\<lparr>rq_state := 1\<rparr>)" using claimed(8) by simp
    from claimed(11) r2 show ?thesis
    proof (cases rule: build_claimed_cases)
      case dropped': dropped
      then have "(v, s', w') = (v1, s1, w1)" using run b by (simp add: deliver_def)
      then show ?thesis using dropped' claimed(1,2,8,10) by (intro dropped) auto
    next
      case (built w3)
      have ctl: "same_control (s\<lparr>sk_ifindex := j\<rparr>) s1" by (rule build_control [OF K built(2)])
      then have id: "request_id s1 = request_id s" using same_control_id [OF ctl] by simp
      let ?r = "r\<lparr>rq_state := 2\<rparr>"
      have m1: "m_requests w1 = (m_requests w)(request_id s \<mapsto> ?r)" using built(3) claimed(8) by simp
      have e: "observe K False (s1\<lparr>sk_ifindex := rq_ifindex r\<rparr>, w1) = (v, s', w')"
        using run b built(1) by (simp add: deliver_def ff_egress_def)
      then have pi: "pass_internal ?r (s1\<lparr>sk_ifindex := rq_ifindex r\<rparr>, w1) = (v, s', w')"
        using m1 id by (simp add: observe_def)
      have "m_requests w1 (request_id (s1\<lparr>sk_ifindex := rq_ifindex r\<rparr>)) = Some ?r" using m1 id by simp
      moreover have "m_interfaces w1 (sk_ifindex (s1\<lparr>sk_ifindex := rq_ifindex r\<rparr>)) = Some iface"
        using built(4) claimed(5,9) by simp
      ultimately have "(v, s', w') = (TC_ACT_UNSPEC, s1\<lparr>sk_ifindex := rq_ifindex r, sk_cb0 := rq_saved_cb0 r, sk_cb1 := rq_saved_cb1 r\<rparr>,
          stat FF_INTERNAL (delete_request (request_id s) w1))"
        using pass_internal_passes [of w1 "s1\<lparr>sk_ifindex := rq_ifindex r\<rparr>" ?r iface] pi id claimed(6) by simp
      then show ?thesis using b built(1,5) claimed(1,2,10) m1
        by (intro delivered [of r s1 w1]) (simp_all add: delete_request_def)
    qed
  qed
qed

lemma connected_simps [simp]:
  "clone_redirect (connected K) = (\<lambda>s j w. (False, snd (snd (deliver K s j w))))"
  "request_insert (connected K) = request_insert K" "ktime (connected K) = ktime K"
  by (simp_all add: connected_def ktime_def fun_eq_iff)

lemma connected_tame:
  assumes "keeps_control K"
  shows "tame_clone (connected K)"
  unfolding tame_clone_def
proof (intro allI impI)
  fix s j e and w w' :: "'a world"
  assume run: "clone_redirect (connected K) s j w = (e, w')"
  obtain v s' where d: "deliver K s j w = (v, s', w')" using run by (metis connected_simps(1) prod.collapse snd_conv)
  from assms d show "requests_advance (m_requests w) (m_requests w') \<and> m_sequence w' = m_sequence w"
  proof (cases rule: deliver_cases)
    case dropped
    then show ?thesis by (auto simp: requests_advance_def advances_def split: if_splits)
  next
    case delivered
    then show ?thesis by (auto simp: requests_advance_def)
  qed
qed

lemma emit_copy_connected:
  assumes K: "keeps_control K" "hash_insert (request_insert K)"
    and run: "emit_copy (connected K) iface c reverse now ttl plan variant (s, w) = (s', w')"
  shows "m_requests w' = m_requests w"
  using run
proof (cases rule: emit_copy_cases)
  case (full i w1 m)
  with hash_insertD(1) [OF K(2)] show ?thesis by simp
next
  case (sent i w1 m s2 e w2)
  let ?req = "make_request iface c reverse now ttl plan variant s"
  have ins: "m_requests w i = None" "m = (m_requests w)(i \<mapsto> ?req)"
    using hash_insertD(2,3) [OF K(2) sent(2) [unfolded connected_simps]] by simp_all
  let ?w = "w1\<lparr>m_requests := m\<rparr>"
  obtain v s3 where d: "deliver K s2 (i_builder iface) ?w = (v, s3, w2)"
    using sent(3) by (metis connected_simps(1) prod.collapse snd_conv)
  have id: "request_id s2 = i" by (simp add: sent(6))
  from K(1) d have "(m_requests w2)(i := None) = m_requests w \<and> (\<forall>q. m_requests w2 i = Some q \<longrightarrow> rq_state q \<noteq> 2)"
  proof (cases rule: deliver_cases)
    case dropped
    then show ?thesis using ins id by (auto simp: make_request_def fun_upd_idem)
  next
    case delivered
    then show ?thesis using ins id by (simp add: fun_upd_idem)
  qed
  then show ?thesis using sent(5) by (simp split: option.splits)
qed

lemma emit_loop_connected:
  assumes K: "keeps_control K" "hash_insert (request_insert K)"
  shows "emit_loop (connected K) iface c reverse now ttl plan variant i n (s, w) = (s', w') \<Longrightarrow>
    m_requests w' = m_requests w"
proof (induction n arbitrary: i w)
  case (Suc n)
  from Suc.prems show ?case
  proof (cases rule: emit_loop_step)
    case (copy w1 w2)
    from Suc.IH [OF copy(5)] emit_copy_connected [OF K copy(4)] copy(3) show ?thesis by simp
  qed simp
qed simp

lemma builder_redirect:
  assumes "ff_builder K (s, w) = (TC_ACT_REDIRECT j, s', w')"
  obtains r iface where "m_requests w (request_id s) = Some r" "rq_state r = 0" "fst (ktime K w) \<le> rq_expires r"
    "\<exists>l. m_leases w 0 = Some l \<and> fst (ktime K w) < le_until l"
    "m_interfaces w (rq_ifindex r) = Some iface" "i_generation iface = rq_ifgen r" "i_builder iface = sk_ifindex s"
    "j = rq_ifindex r" "m_requests w' = (m_requests w)(request_id s \<mapsto> r\<lparr>rq_state := 2\<rparr>)"
    "m_interfaces w' = m_interfaces w" "m_sequence w' = m_sequence w" "keeps_control K \<Longrightarrow> same_control s s'"
  using assms
proof (cases rule: ff_builder_cases)
  case (claimed r iface w1)
  have "m_requests w1 (request_id s) = Some (r\<lparr>rq_state := 1\<rparr>)" using claimed(8) by simp
  from claimed(11) this show ?thesis
  proof (cases rule: build_claimed_cases)
    case (built w2)
    then show ?thesis using claimed build_control [OF _ built(2)] by (intro that [of r iface]) simp_all
  qed simp
qed simp

lemma redirect_passes:
  assumes "keeps_control K" and "ff_builder K (s\<lparr>sk_ifindex := j\<rparr>, w) = (TC_ACT_REDIRECT i, s1, w1)"
  shows "\<exists>r s2 w2. m_requests w (request_id s) = Some r \<and> i = rq_ifindex r \<and>
    ff_egress K (s1\<lparr>sk_ifindex := i\<rparr>, w1) = (TC_ACT_UNSPEC, s2, w2) \<and>
    s2 = s1\<lparr>sk_ifindex := i, sk_cb0 := rq_saved_cb0 r, sk_cb1 := rq_saved_cb1 r\<rparr> \<and>
    m_requests w2 = (m_requests w)(request_id s := None) \<and> m_sequence w2 = m_sequence w"
  using assms(2)
proof (rule builder_redirect)
  fix r iface
  assume r: "m_requests w (request_id (s\<lparr>sk_ifindex := j\<rparr>)) = Some r"
    and i: "m_interfaces w (rq_ifindex r) = Some iface" "i_generation iface = rq_ifgen r" "i = rq_ifindex r"
    and m: "m_requests w1 = (m_requests w)(request_id (s\<lparr>sk_ifindex := j\<rparr>) \<mapsto> r\<lparr>rq_state := 2\<rparr>)"
    and fr: "m_interfaces w1 = m_interfaces w" "m_sequence w1 = m_sequence w"
    and ctl: "keeps_control K \<Longrightarrow> same_control (s\<lparr>sk_ifindex := j\<rparr>) s1"
  have id: "request_id s1 = request_id s" using same_control_id [OF ctl [OF assms(1)]] by simp
  let ?s = "s1\<lparr>sk_ifindex := i\<rparr>" and ?r = "r\<lparr>rq_state := 2\<rparr>"
  have q: "m_requests w1 (request_id ?s) = Some ?r" using m id by simp
  have "pass_internal ?r (?s, w1) = (TC_ACT_UNSPEC, ?s\<lparr>sk_cb0 := rq_saved_cb0 r, sk_cb1 := rq_saved_cb1 r\<rparr>,
      stat FF_INTERNAL (delete_request (request_id s) w1))"
    using pass_internal_passes [of w1 ?s ?r iface] q i fr id by simp
  then have "ff_egress K (?s, w1) = (TC_ACT_UNSPEC, ?s\<lparr>sk_cb0 := rq_saved_cb0 r, sk_cb1 := rq_saved_cb1 r\<rparr>,
      stat FF_INTERNAL (delete_request (request_id s) w1))"
    using q i(3) by (simp add: ff_egress_def observe_def)
  then show ?thesis using r i(3) m fr id by (simp add: delete_request_def)
qed

section \<open>Properties\<close>

text \<open>
  Property C7. The builder answers only to a live credential: it redirects a clone exactly for a
  request that has not been claimed, has not expired, whose interface is still the attachment
  the request was made for and is served by the device the clone is on, while the lease holds;
  it redirects to that interface and marks the request as built.
\<close>
theorem builder_redirects:
  assumes "ff_builder K (s, w) = (TC_ACT_REDIRECT j, s', w')"
  shows "\<exists>r iface. m_requests w (request_id s) = Some r \<and> rq_state r = 0 \<and> fst (ktime K w) \<le> rq_expires r \<and>
    (\<exists>l. m_leases w 0 = Some l \<and> fst (ktime K w) < le_until l) \<and>
    m_interfaces w (rq_ifindex r) = Some iface \<and> i_generation iface = rq_ifgen r \<and> i_builder iface = sk_ifindex s \<and>
    j = rq_ifindex r \<and> m_requests w' = (m_requests w)(request_id s \<mapsto> r\<lparr>rq_state := 2\<rparr>)"
  using assms by (rule builder_redirect) blast

text \<open>
  Property C4. A credential is claimed at most once: however many packets cross the builder and the
  observer, in any order and with any control blocks, the builder redirects the clone of one
  request at most once, and not at all once it has been claimed, until its number is issued again.
\<close>
theorem claimed_once:
  assumes "hash_insert (request_insert K)" and "tame_clone K"
    and "never (reissues i) (claims K i) xs w"
  shows "length (outputs (claims K i) xs w) \<le>
    (case m_requests w i of Some r \<Rightarrow> if rq_state r = 0 then 1 else 0 | None \<Rightarrow> 0)"
  using quota.bounded [OF claims_quota [OF assms(1,2)] assms(3)] by (simp add: claim_left_def)

text \<open>
  Property C6. A credential opens the egress hook at most once: over the same runs, at most one packet
  with the number of a request is passed as the observer's own; replaying the number afterwards
  makes it ordinary traffic.
\<close>
theorem passed_once:
  assumes "hash_insert (request_insert K)" and "tame_clone K"
    and "never (reissues i) (spends K i) xs w"
  shows "length (outputs (spends K i) xs w) \<le>
    (case m_requests w i of Some r \<Rightarrow> if rq_state r \<le> 2 then 1 else 0 | None \<Rightarrow> 0)"
  using quota.bounded [OF spends_quota [OF assms(1,2)] assms(3)] by (simp add: pass_left_def)

text \<open>
  Property C30. What the builder builds, the egress hook lets out: a clone the builder redirects is
  passed by the egress program of its interface with its bytes unchanged and the observed
  packet's control block restored, its request is spent, and no injection is triggered by it.
\<close>
theorem built_clone_passes:
  assumes "keeps_control K" and "ff_builder K (s\<lparr>sk_ifindex := j\<rparr>, w) = (TC_ACT_REDIRECT i, s1, w1)"
  shows "\<exists>r s2 w2. m_requests w (request_id s) = Some r \<and> i = rq_ifindex r \<and>
    ff_egress K (s1\<lparr>sk_ifindex := i\<rparr>, w1) = (TC_ACT_UNSPEC, s2, w2) \<and>
    s2 = s1\<lparr>sk_ifindex := i, sk_cb0 := rq_saved_cb0 r, sk_cb1 := rq_saved_cb1 r\<rparr> \<and>
    m_requests w2 = (m_requests w)(request_id s := None) \<and> m_sequence w2 = m_sequence w"
  using assms by (rule redirect_passes)

text \<open>
  Property C31. No credential leaks: when clones are delivered as the daemon attaches the programs
  (the builder on the builder device, the egress hook on the WAN interface), an emission leaves
  the request map exactly as it found it, whether each copy was refused, failed to build,
  outlived the lease or was sent.
\<close>
theorem emit_leaves_no_request:
  assumes "keeps_control K" and "hash_insert (request_insert K)"
    and "emit (connected K) iface c reverse meta (s, w) = (s', w')"
  shows "m_requests w' = m_requests w"
  using assms(3)
proof (cases rule: emit_cases)
  case (loop ttl plan variant w1)
  from emit_loop_connected [OF assms(1,2) loop(5)] loop(4) show ?thesis by simp
qed

text \<open>
  The programs meet the contract that the properties of \<open>emit\<close> assume of the clone
  helper: running the builder and the egress hook on a clone only lets requests disappear or
  advance and never touches their numbering.
\<close>
theorem connected_is_tame:
  assumes "keeps_control K"
  shows "tame_clone (connected K)"
  using assms by (rule connected_tame)

theorem connected_is_tame_witness: "tame_clone (connected list_kern)"
  by (rule connected_is_tame) simp

section \<open>A worked example\<close>

text \<open>The clone of the sample SYN is claimed, built, redirected and passed.\<close>

lemma sample_worlds:
  "m_templates builder_world = [FF_TEMPLATE_KEY 5 1 17 \<mapsto> sample_template]" "m_requests builder_world = [7 \<mapsto> sample_request]"
  "m_interfaces builder_world = [3 \<mapsto> sample_interface]" "m_sequence builder_world = [0 \<mapsto> 7]"
  "m_leases builder_world = [0 \<mapsto> \<lparr>le_until = 10000000000, le_reported = 0, le_pad = 0\<rparr>]"
  "ktime list_kern w = (w_env w, w)" "w_env builder_world = 1000"
  by (simp_all add: builder_world_def sample_world_def empty_world_def ktime_def list_kern_simps)

lemma sample_builder:
  obtains s' w' where "ff_builder list_kern (sample_clone, builder_world) = (TC_ACT_REDIRECT 3, s', w')"
proof -
  have vr: "valid_request 7 1000 builder_world = (Some sample_request, builder_world)"
    by (simp add: valid_request_def sample_worlds sample_request_fields alive_def word_less_nat_alt)
  define w1 where "w1 = builder_world\<lparr>m_requests := [7 \<mapsto> sample_request\<lparr>rq_state := 1\<rparr>]\<rparr>"
  have cas: "cas_state 7 0 1 builder_world = (True, w1)"
    by (simp add: cas_state_def sample_worlds sample_request_fields w1_def)
  obtain s' where b: "build list_kern sample_request sample_interface (sample_clone, w1) = (False, s', w1)"
    using sample_build [of w1] by (auto simp: w1_def)
  have al: "alive (w_env w1) w1 = (True, w1)"
    by (simp add: alive_def w1_def sample_worlds word_less_nat_alt)
  have i: "i_generation sample_interface = 1" "i_builder sample_interface = 9" by (simp_all add: sample_interface_def)
  have "ff_builder list_kern (sample_clone, builder_world) = build_claimed list_kern sample_request sample_interface (sample_clone, w1)"
    by (simp add: ff_builder_def sample_worlds(6,7) sample_clone_data vr sample_request_fields sample_worlds(3) i cas)
  moreover have "\<exists>w'. build_claimed list_kern sample_request sample_interface (sample_clone, w1) = (TC_ACT_REDIRECT 3, s', w')"
    by (simp add: build_claimed_def b sample_worlds(6) al sample_request_fields)
  ultimately show ?thesis using that by auto
qed

theorem builder_redirects_witness:
  "\<exists>s' w'. ff_builder list_kern (sample_clone, builder_world) = (TC_ACT_REDIRECT 3, s', w') \<and>
     m_requests w' = [7 \<mapsto> sample_request\<lparr>rq_state := 2\<rparr>]"
proof -
  obtain s' w' where run: "ff_builder list_kern (sample_clone, builder_world) = (TC_ACT_REDIRECT 3, s', w')"
    by (rule sample_builder)
  from builder_redirects [OF run] run show ?thesis by (auto simp: sample_worlds sample_clone_data)
qed

theorem built_clone_passes_witness:
  "\<exists>s1 w1 s2 w2. ff_builder list_kern (sample_clone, builder_world) = (TC_ACT_REDIRECT 3, s1, w1) \<and>
     ff_egress list_kern (s1\<lparr>sk_ifindex := 3\<rparr>, w1) = (TC_ACT_UNSPEC, s2, w2) \<and>
     sk_cb0 s2 = 0 \<and> m_requests w2 = Map.empty"
proof -
  obtain s1 w1 where run: "ff_builder list_kern (sample_clone, builder_world) = (TC_ACT_REDIRECT 3, s1, w1)"
    by (rule sample_builder)
  have "sample_clone\<lparr>sk_ifindex := 9\<rparr> = sample_clone" by (simp add: sample_clone_def)
  with run have run': "ff_builder list_kern (sample_clone\<lparr>sk_ifindex := 9\<rparr>, builder_world) = (TC_ACT_REDIRECT 3, s1, w1)" by simp
  from built_clone_passes [OF list_kern_control run'] run show ?thesis
    by (auto simp: sample_worlds sample_clone_data sample_request_fields)
qed

lemma list_kern_hash: "hash_insert (request_insert list_kern)"
  by (simp add: list_kern_simps)

lemma not_reissued: "m_sequence w 0 = Some 7 \<Longrightarrow> \<not> reissues 7 x w"
proof -
  have "(of_nat d :: u64) \<noteq> 0" if "1 \<le> d" "d \<le> 8" for d :: nat
    using that by (auto simp: word_of_nat_eq_0_iff dest!: dvd_imp_le)
  then have "7 \<notin> fresh_ids 7 8" by (auto simp: fresh_ids_def)
  then show "m_sequence w 0 = Some 7 \<Longrightarrow> \<not> reissues 7 x w" by (simp add: reissues_def)
qed

theorem claimed_once_witness:
  "length (outputs (claims list_kern 7) [AtBuilder sample_clone, AtBuilder sample_clone] builder_world) = 1"
proof -
  obtain s' w' where run: "ff_builder list_kern (sample_clone, builder_world) = (TC_ACT_REDIRECT 3, s', w')"
    by (rule sample_builder)
  then have seq: "m_sequence w' = m_sequence builder_world" by (rule builder_redirect)
  have first: "claims list_kern 7 (AtBuilder sample_clone) builder_world = (Some s', w')"
    by (simp add: claims_def run sample_clone_data)
  have "never (reissues 7) (claims list_kern 7) [AtBuilder sample_clone, AtBuilder sample_clone] builder_world"
    using seq by (simp add: first not_reissued sample_worlds)
  from claimed_once [OF list_kern_hash list_kern_tame this]
  have "length (outputs (claims list_kern 7) [AtBuilder sample_clone, AtBuilder sample_clone] builder_world) \<le> 1"
    by (simp add: sample_worlds sample_request_fields)
  moreover have "outputs (claims list_kern 7) [AtBuilder sample_clone, AtBuilder sample_clone] builder_world \<noteq> []"
    by (simp add: first split: prod.split)
  ultimately show ?thesis by (simp add: le_eq_less_or_eq)
qed

theorem passed_once_witness:
  "\<exists>s w. length (outputs (spends list_kern 7) [AtEgress s, AtEgress s] w) = 1"
proof -
  obtain s1 w1 where run: "ff_builder list_kern (sample_clone, builder_world) = (TC_ACT_REDIRECT 3, s1, w1)"
    by (rule sample_builder)
  have c: "sample_clone\<lparr>sk_ifindex := 9\<rparr> = sample_clone" by (simp add: sample_clone_def)
  from run c have run': "ff_builder list_kern (sample_clone\<lparr>sk_ifindex := 9\<rparr>, builder_world) = (TC_ACT_REDIRECT 3, s1, w1)" by simp
  from redirect_passes [OF list_kern_control run'] obtain s2 w2 where
    e: "ff_egress list_kern (s1\<lparr>sk_ifindex := 3\<rparr>, w1) = (TC_ACT_UNSPEC, s2, w2)" and seq2: "m_sequence w2 0 = Some 7"
    by (auto simp: sample_worlds)
  from run have m1: "m_requests w1 7 = Some (sample_request\<lparr>rq_state := 2\<rparr>)" "m_sequence w1 0 = Some 7"
    by (rule builder_redirect; simp add: sample_worlds sample_clone_data)+
  from run have "same_control sample_clone s1" by (rule builder_redirect) simp
  then have id: "request_id s1 = 7" using same_control_id [of sample_clone s1] by (simp add: sample_clone_data)
  let ?x = "AtEgress (s1\<lparr>sk_ifindex := 3\<rparr>)"
  have first: "spends list_kern 7 ?x w1 = (Some s2, w2)"
    by (simp add: spends_def e id m1 sample_request_fields)
  have "never (reissues 7) (spends list_kern 7) [?x, ?x] w1"
    using seq2 m1 by (simp add: first not_reissued)
  from passed_once [OF list_kern_hash list_kern_tame this]
  have "length (outputs (spends list_kern 7) [?x, ?x] w1) \<le> 1" by (simp add: m1)
  moreover have "outputs (spends list_kern 7) [?x, ?x] w1 \<noteq> []" by (simp add: first split: prod.split)
  ultimately have "length (outputs (spends list_kern 7) [?x, ?x] w1) = 1" by (simp add: le_eq_less_or_eq)
  then show ?thesis by blast
qed

theorem emit_leaves_no_request_witness:
  "m_requests (snd (emit (connected list_kern) sample_interface sample_config False 52 (syn_packet, emit_world))) 5 = Some old_request"
proof (cases "emit (connected list_kern) sample_interface sample_config False 52 (syn_packet, emit_world)")
  case (Pair s' w')
  from emit_leaves_no_request [OF list_kern_control list_kern_hash Pair] Pair show ?thesis by (simp add: emit_world_def)
qed

end
