(* ===== verification/Store.thy ===== *)
theory Store
  imports Publish Requests
begin

text \<open>
  The published maps as the kernel programs see them: no program of \<open>ebpf/bpf\<close> changes the
  configurations, the templates, the active generation or the interfaces, and whatever the observer picks out of
  a configuration the builder finds.
\<close>

section \<open>The kernel programs keep what is published\<close>

definition same_published :: "'e world \<Rightarrow> 'e world \<Rightarrow> bool" where
  "same_published w w' \<longleftrightarrow>
     m_configs w' = m_configs w \<and> m_templates w' = m_templates w \<and> m_active_config w' = m_active_config w \<and>
     m_interfaces w' = m_interfaces w"

lemma same_published_simps [simp]:
  "same_published w w" "same_published w (stat i w') \<longleftrightarrow> same_published w w'" "same_published (stat i w) w' \<longleftrightarrow> same_published w w'"
  "same_published w (w'\<lparr>m_requests := m\<rparr>) \<longleftrightarrow> same_published w w'"
  "same_published w (w'\<lparr>m_sequence := sq\<rparr>) \<longleftrightarrow> same_published w w'"
  "same_published w (w'\<lparr>m_stats := st\<rparr>) \<longleftrightarrow> same_published w w'"
  "same_published w (w'\<lparr>m_leases := l\<rparr>) \<longleftrightarrow> same_published w w'"
  "same_published w (w'\<lparr>m_budgets := b\<rparr>) \<longleftrightarrow> same_published w w'"
  "same_published w (w'\<lparr>w_env := e\<rparr>) \<longleftrightarrow> same_published w w'"
  "same_published w (snd (ktime K w')) \<longleftrightarrow> same_published w w'"
  "same_published w (snd (prandom K w')) \<longleftrightarrow> same_published w w'"
  "same_published w (snd (alive t w')) \<longleftrightarrow> same_published w w'"
  "same_published w (delete_request n w') \<longleftrightarrow> same_published w w'"
  "same_published w (set_state n x w') \<longleftrightarrow> same_published w w'"
  "same_published w (snd (cas_state n x y w')) \<longleftrightarrow> same_published w w'"
  "same_published w (account rc result w') \<longleftrightarrow> same_published w w'"
  by (simp_all add: same_published_def prandom_def delete_request_def set_state_def cas_state_def account_def
      split: prod.split option.split)

lemma same_published_trans [trans]: "same_published a b \<Longrightarrow> same_published b c \<Longrightarrow> same_published a c"
  by (simp add: same_published_def)

interpretation kept_published: frame same_published
  by unfold_locales (simp_all add: same_published_def)

lemma credentials_store: "same_credentials w w' \<Longrightarrow> same_published w w'"
  by (simp add: same_credentials_def same_published_def)

text \<open>The clone helper runs the builder and the egress hook, so it keeps the published maps as well.\<close>

definition store_clone :: "'e kern \<Rightarrow> bool" where
  "store_clone K \<longleftrightarrow> (\<forall>s j w. same_published w (snd (clone_redirect K s j w)))"

lemma reserve_store: "same_published w (snd (reserve iface c now w))"
  by (simp add: reserve_def Let_def split: option.split prod.split)

lemma next_id_store: "same_published w (snd (next_id w))"
  by (simp add: next_id_def Let_def)

lemma emit_copy_store:
  assumes "store_clone K"
  shows "same_published w (snd (emit_copy K iface c reverse now ttl plan variant (s, w)))"
proof -
  obtain i w1 where id: "next_id (stat FF_ATTEMPT w) = (i, w1)" by fastforce
  have w1: "same_published w w1" using next_id_store [of "stat FF_ATTEMPT w"] id by simp
  let ?r = "make_request iface c reverse now ttl plan variant s"
  obtain err m where ins: "request_insert K i ?r (m_requests w1) = (err, m)" by fastforce
  obtain e w2 where cl: "clone_redirect K (s\<lparr>sk_cb0 := ucast i, sk_cb1 := ucast (drop_bit 32 i)\<rparr>) (i_builder iface)
      (w1\<lparr>m_requests := m\<rparr>) = (e, w2)" by fastforce
  have "same_published (w1\<lparr>m_requests := m\<rparr>) w2" using assms cl unfolding store_clone_def by (metis snd_conv)
  then have "same_published w w2" using w1 by (simp add: same_published_def)
  then show ?thesis using w1 id ins cl by (simp add: emit_copy_def Let_def split: option.split)
qed

lemma emit_loop_store:
  assumes "store_clone K"
  shows "same_published w (snd (emit_loop K iface c reverse now ttl plan variant i n (s, w)))"
proof (induction n arbitrary: i w)
  case (Suc n)
  obtain t w1 where kt: "ktime K w = (t, w1)" by fastforce
  obtain live w2 where al: "alive t w1 = (live, w2)" by fastforce
  have "same_published w w1" using same_published_simps(10) [of w K w] kt by simp
  then have w2: "same_published w w2" using same_published_simps(12) [of w t w1] al by simp
  let ?e = "emit_copy K iface c reverse now ttl plan variant (s, w2)"
  have e: "?e = (s, snd ?e)" by (rule prod_eqI) simp_all
  have "same_published w2 (snd ?e)" by (rule emit_copy_store [OF assms])
  also have "same_published (snd ?e) (snd (emit_loop K iface c reverse now ttl plan variant (i + 1) n (s, snd ?e)))" by (rule Suc)
  finally have "same_published w (snd (emit_loop K iface c reverse now ttl plan variant (i + 1) n ?e))"
    using w2 e by (metis same_published_trans)
  then show ?case using kt al w2 by simp
qed simp

lemma emit_store:
  assumes K: "store_clone K"
  shows "same_published w (snd (emit K iface c reverse meta (s, w)))"
proof -
  obtain now w1 where kt: "ktime K w = (now, w1)" by fastforce
  have w1: "same_published w w1" using same_published_simps(10) [of w K w] kt by simp
  show ?thesis
  proof (cases "fake_ttl c (meta AND 0xff)")
    case None
    with kt w1 show ?thesis by (simp add: emit_def)
  next
    case (Some ttl)
    define w2 where "w2 = (if meta AND 0xff = 0 then stat FF_TTL_UNKNOWN w1 else w1)"
    have w2: "same_published w w2" using w1 by (simp add: w2_def)
    obtain ok w3 where rs: "reserve iface c now w2 = (ok, w3)" by fastforce
    have "same_published w2 w3" using reserve_store [of w2 iface c now] rs by simp
    with w2 have w3: "same_published w w3" by (rule same_published_trans)
    obtain rnd w4 where pr: "prandom K w3 = (rnd, w4)" by fastforce
    have w4: "same_published w w4" using same_published_simps(11) [of w K w3] pr w3 by simp
    have "same_published w (snd (emit_loop K iface c reverse now ttl plan variant 0 8 (s, w4)))" for plan variant
      by (rule same_published_trans [OF w4 emit_loop_store [OF K]])
    then show ?thesis using kt Some rs pr w3
      by (auto simp: emit_def Let_def w2_def [symmetric] split: option.split)
  qed
qed

lemma pass_internal_store: "same_published w (snd (snd (pass_internal r (s, w))))"
proof -
  obtain won w1 where cas: "cas_state (request_id s) 2 3 w = (won, w1)" by fastforce
  then have "same_published w w1" using same_published_simps(15) [of w "request_id s" 2 3 w] by simp
  with cas show ?thesis by (simp add: pass_internal_def split: option.split)
qed

lemma observe_store:
  assumes K: "store_clone K"
  shows "same_published w (snd (snd (observe K ing (s, w))))"
proof (cases "observe K ing (s, w)")
  case (fields v s' w')
  have "same_published w w'" using fields
  proof (cases rule: observe_traffic_path)
    case (own r)
    with pass_internal_store [of w r s] show ?thesis by simp
  next
    case traffic
    from traffic(2) show ?thesis
    proof (cases rule: observe_traffic_cases)
      case (dead now w1)
      with same_published_simps(10) [of w K w] show ?thesis by simp
    next
      case ignored
      then show ?thesis by (simp add: credentials_store)
    next
      case (observed iface c p now w1 out w2)
      have w2: "same_published w w2"
        by (rule credentials_store [OF same_credentials_trans [OF observed(5) trigger_credentials [OF observed(6)]]])
      show ?thesis
      proof (cases out)
        case None
        with observed(7) w2 show ?thesis by simp
      next
        case (Some meta)
        with observed(7) have "w' = snd (emit K iface c ing meta (s', w2))" by simp
        with same_published_trans [OF w2 emit_store [OF K]] show ?thesis by simp
      qed
    qed
  qed
  with fields show ?thesis by simp
qed

lemma build_store: "same_published w (snd (snd (build K r iface (s, w))))"
proof (cases "build K r iface (s, w)")
  case (fields err s' w')
  from build_frame [OF fields] fields show ?thesis by auto
qed

lemma build_claimed_store: "same_published w (snd (snd (build_claimed K r iface (s, w))))"
proof -
  obtain err s1 w1 where b: "build K r iface (s, w) = (err, s1, w1)" by (metis prod_cases3)
  then have w1: "same_published w w1" using build_store [of w K r iface s] by simp
  obtain t w2 where kt: "ktime K w1 = (t, w2)" by fastforce
  have w2: "same_published w w2" using same_published_simps(10) [of w K w1] kt w1 by simp
  obtain live w3 where al: "alive t w2 = (live, w3)" by fastforce
  have w3: "same_published w w3" using same_published_simps(12) [of w t w2] al w2 by simp
  show ?thesis using w1 w3 by (simp add: build_claimed_def b kt al)
qed

lemma valid_request_store: "same_published w (snd (valid_request i now w))"
proof -
  obtain live w1 where al: "alive now w = (live, w1)" by fastforce
  have "same_published w w1" using same_published_simps(12) [of w now w] al by simp
  then show ?thesis by (simp add: valid_request_def al split: option.split)
qed

lemma ff_builder_store: "same_published w (snd (snd (ff_builder K (s, w))))"
proof -
  obtain now w1 where kt: "ktime K w = (now, w1)" by fastforce
  have w1: "same_published w w1" using same_published_simps(10) [of w K w] kt by simp
  obtain rr w2 where vr: "valid_request (request_id s) now w1 = (rr, w2)" by fastforce
  then have w2: "same_published w w2" using valid_request_store [of w1 "request_id s" now] w1 by (simp add: same_published_def)
  obtain won w3 where cas: "cas_state (request_id s) 0 1 w2 = (won, w3)" by fastforce
  have w3: "same_published w w3" using same_published_simps(15) [of w "request_id s" 0 1 w2] cas w2 by simp
  have "same_published w (snd (snd (build_claimed K r iface (s, w3))))" for r iface
    by (rule same_published_trans [OF w3 build_claimed_store])
  then show ?thesis using w2 w3 by (simp add: ff_builder_def kt vr cas split: option.split)
qed

lemma cross_store:
  assumes "store_clone K"
  shows "same_published w (snd (snd (cross K x w)))"
  by (cases x) (simp_all add: ff_builder_store ff_ingress_def ff_egress_def observe_store [OF assms])

text \<open>Any sequence of packets keeps them.\<close>

lemma crossings_store: "store_clone K \<Longrightarrow> same_published w (fold (\<lambda>x w. snd (snd (cross K x w))) xs w)"
  by (rule kept_published.fold_same) (rule cross_store)

text \<open>The contract holds when the clone helper runs the builder and the egress hook, whose own clones keep it.\<close>

lemma connected_store:
  assumes "store_clone K"
  shows "store_clone (connected K)"
  unfolding store_clone_def
proof (intro allI)
  fix s j and w :: "'a world"
  obtain v s1 w1 where b: "ff_builder K (s\<lparr>sk_ifindex := j\<rparr>, w) = (v, s1, w1)" by (metis prod_cases3)
  have w1: "same_published w w1" using ff_builder_store [of w K "s\<lparr>sk_ifindex := j\<rparr>"] b by simp
  have "same_published w1 (snd (snd (ff_egress K (s1\<lparr>sk_ifindex := i\<rparr>, w1))))" for i
    unfolding ff_egress_def by (rule observe_store [OF assms])
  with w1 have "same_published w (snd (snd (ff_egress K (s1\<lparr>sk_ifindex := i\<rparr>, w1))))" for i
    by (metis same_published_trans)
  with w1 show "same_published w (snd (clone_redirect (connected K) s j w))"
    by (simp add: deliver_def b split: verdict.split)
qed

lemma list_kern_store [simp, intro]: "store_clone list_kern"
  by (simp add: store_clone_def list_kern_simps)

text \<open>The daemon's own upkeep keeps the store, but not the interfaces.\<close>

definition same_store :: "'e world \<Rightarrow> 'e world \<Rightarrow> bool" where
  "same_store w w' \<longleftrightarrow>
     m_configs w' = m_configs w \<and> m_templates w' = m_templates w \<and> m_active_config w' = m_active_config w"

lemma same_store_simps [simp]:
  "same_store w w" "same_store w (w'\<lparr>m_interfaces := f\<rparr>) \<longleftrightarrow> same_store w w'"
  "same_store w (w'\<lparr>m_leases := l\<rparr>) \<longleftrightarrow> same_store w w'" "same_store w (w'\<lparr>w_env := e\<rparr>) \<longleftrightarrow> same_store w w'"
  by (simp_all add: same_store_def)

lemma same_store_trans [trans]: "same_store a b \<Longrightarrow> same_store b c \<Longrightarrow> same_store a c"
  by (simp add: same_store_def)

lemma published_store: "same_published w w' \<Longrightarrow> same_store w w'"
  by (simp add: same_published_def same_store_def)

lemma store_ok_same: "same_store w w' \<Longrightarrow> store_ok gen w' \<longleftrightarrow> store_ok gen w"
  by (simp add: same_store_def store_ok_def published_def)

section \<open>What the observer picks is there\<close>

text \<open>A configuration the rotation can be used on: every rule in it and the datagram have variants.\<close>

definition usable :: "ff_config \<Rightarrow> bool" where
  "usable c \<longleftrightarrow> 0 < c_rule_count c \<and> c_rule_count c \<le> 3 \<and> c_variants c ! 3 \<noteq> 0 \<and>
     (\<forall>i < unat (c_rule_count c). c_rule_map c ! i < 3 \<and> c_variants c ! unat (c_rule_map c ! i) \<noteq> 0)"

lemma pick_variant_less:
  assumes "plan < 4" and "0 < vs" and "vs = (let n = c_variants c ! unat plan in if n = 0 then 1 else n)"
  shows "pick_variant c plan rnd < vs"
proof -
  have "plan AND 3 = plan" by (rule request_word(3) [OF assms(1), of 0]) simp
  then have "pick_variant c plan rnd = drop_bit 26 (rnd * 2654435761) AND (vs - 1)"
    using assms(3) by (simp add: pick_variant_def Let_def)
  also have "\<dots> \<le> vs - 1" by (rule word_and_le1)
  also have "vs - 1 < vs"
    unfolding word_less_nat_alt by (rule measure_unat) (use assms(2) in \<open>simp add: word_gt_0\<close>)
  finally show ?thesis .
qed

lemma request_key:
  assumes "plan < 4" and "variant < 32"
  shows "request_template_key (make_request iface c reverse now ttl plan variant s) = FF_TEMPLATE_KEY (c_generation c) plan variant"
  using request_word [OF assms] by (simp add: make_request_def request_template_key_def request_plan_def)

text \<open>The template key of the request \<open>emit\<close> makes for a plan.\<close>

definition picked_key :: "ff_config \<Rightarrow> u32 \<Rightarrow> u32 \<Rightarrow> u32" where
  "picked_key c plan rnd = FF_TEMPLATE_KEY (c_generation c) plan (pick_variant c plan rnd)"

lemma active_published:
  assumes "store_ok gen w" and "configuration w = Some c" and "gen \<noteq> 0"
  shows "published gen c w" and "c_generation c = gen" and "gen \<le> last_generation"
proof -
  have "m_configs w gen = Some c"
    using store_okD(7) [OF assms(1,3)] assms(2) by (simp add: configuration_def)
  then show "published gen c w" by (rule store_okD(5) [OF assms(1)])
  then show "c_generation c = gen" by (simp add: published_def)
  show "gen \<le> last_generation" by (rule store_okD(1) [OF assms(1)])
qed

lemma picked_template:
  assumes pub: "published gen c w" and plan: "plan < 4" and vs: "c_variants c ! unat plan \<noteq> 0"
  obtains t where "m_templates w (picked_key c plan rnd) = Some t" "template_ok t"
    and "pick_variant c plan rnd < 32"
proof -
  have p: "unat plan < 4" using plan by (simp add: word_less_nat_alt)
  have less: "pick_variant c plan rnd < c_variants c ! unat plan"
    by (rule pick_variant_less [OF plan]) (use vs in \<open>simp_all add: Let_def word_gt_0\<close>)
  have "unat (c_variants c ! unat plan) \<le> 32" using pub p by (simp add: published_def)
  then have v: "pick_variant c plan rnd < 32" using less by (simp add: word_less_nat_alt)
  have gen: "c_generation c = gen" using pub by (simp add: published_def)
  have "\<exists>t. m_templates w (plan_key gen (unat plan) (unat (pick_variant c plan rnd))) = Some t \<and> template_ok t"
    using pub p less by (simp add: published_def word_less_nat_alt)
  moreover have "plan_key gen (unat plan) (unat (pick_variant c plan rnd)) = picked_key c plan rnd"
    by (simp add: plan_key_template picked_key_def gen)
  ultimately show ?thesis using that v by auto
qed

lemma unpublished_template:
  assumes pub: "published gen c w" and plan: "plan < 4" and vs: "c_variants c ! unat plan = 0"
  shows "m_templates w (picked_key c plan rnd) = None"
proof -
  have p: "unat plan < 4" using plan by (simp add: word_less_nat_alt)
  have "pick_variant c plan rnd < 1"
    by (rule pick_variant_less [OF plan]) (use vs in \<open>simp_all add: Let_def\<close>)
  then have "pick_variant c plan rnd = 0" by (simp add: word_less_nat_alt word_unat_eq_iff)
  moreover have "c_generation c = gen" using pub by (simp add: published_def)
  moreover have "m_templates w (plan_key gen (unat plan) 0) = None" using pub p vs by (simp add: published_def)
  ultimately show ?thesis by (simp add: plan_key_template picked_key_def)
qed

lemma next_rule_usable:
  assumes c: "usable c" and run: "next_rule c w = (rule, w')"
  shows "rule < 3 \<and> c_variants c ! unat rule \<noteq> 0"
proof -
  have rules: "c_rule_map c ! i < 3 \<and> c_variants c ! unat (c_rule_map c ! i) \<noteq> 0" if "i < unat (c_rule_count c)" for i
    using c that by (simp add: usable_def)
  have count: "c_rule_count c \<noteq> 0" "unat (c_rule_count c) \<le> 3"
    using c by (simp_all add: usable_def word_le_nat_alt word_gt_0)
  define i :: u32 where "i = (case m_rotation w 0 of None \<Rightarrow> 0 | Some n \<Rightarrow> ucast n)"
  define a where "a = i mod 3"
  define k where "k = (if c_rule_count c = 1 then 0 else if c_rule_count c = 2 then unat (i AND 1)
    else if a = 0 then 0 else if a = 1 then 1 else 2)"
  have "unat (i AND 1) < 2"
    using unat_and_mask [of i 1] by (simp add: mask_eq_exp_minus_1)
  moreover have "unat (c_rule_count c) = 1 \<or> unat (c_rule_count c) = 2 \<or> unat (c_rule_count c) = 3"
    using count by (simp add: unat_eq_0 [symmetric] del: unat_eq_0) arith
  ultimately have "k < unat (c_rule_count c)"
    by (auto simp: k_def word_unat_eq_iff)
  moreover have "rule = (if 3 \<le> c_rule_map c ! k then 0 else c_rule_map c ! k)"
    using run count(1) unfolding next_rule_def Let_def i_def [symmetric] a_def [symmetric] k_def by auto
  ultimately show ?thesis using rules by (simp add: not_le [symmetric])
qed

text \<open>What the renderer leaves can be used once it is published.\<close>

lemma plan_count_pos: "t_len (plan_base op plan) \<noteq> 0 \<Longrightarrow> 0 < plan_count op plan"
  by (simp add: plan_count_def Let_def)

lemma published_variants:
  assumes "plan < 4" and "t_len (plan_base op plan) \<noteq> 0"
  shows "c_variants (published_config gen op) ! plan \<noteq> 0"
  using published_count [OF assms(1), of gen op] plan_count_pos [OF assms(2)] by auto

lemma published_rules:
  "c_rule_count (published_config gen op) = c_rule_count (o_kernel op)"
  "c_rule_map (published_config gen op) = c_rule_map (o_kernel op)"
  by (simp_all add: published_config_def)

lemma rendered_usable:
  assumes "rendered files op"
  shows "usable (published_config gen op)"
proof -
  let ?n = "unat (c_rule_count (o_kernel op))" and ?map = "c_rule_map (o_kernel op)"
  have lists: "length ?map = 3" "?n \<le> 3" "map unat (take ?n ?map) = filter (enabled op) [0..<3]"
    using assms by (simp_all only: rendered_def map_lists_def)
  have udp: "t_len (plan_base op 3) \<noteq> 0"
    using assms by (simp add: rendered_def udp_done_def template_ok_def plan_base_def word_gt_0)
  have rule: "?map ! i < 3 \<and> t_len (plan_base op (unat (?map ! i))) \<noteq> 0" if "i < ?n" for i
  proof -
    have "unat (?map ! i) = map unat (take ?n ?map) ! i" using that lists(1,2) by simp
    also have "\<dots> \<in> set (map unat (take ?n ?map))" using that lists(1,2) by (intro nth_mem) simp
    finally have e: "unat (?map ! i) < 3" "enabled op (unat (?map ! i))" unfolding lists(3) by auto
    have "rule_done files op (unat (?map ! i))"
      using assms e(1) unfolding rendered_def list_all_upt by blast
    with e(2) have "0 < t_len (r_tpl (rule_at op (unat (?map ! i))))"
      by (simp add: rule_done_def rule_renders_def template_ok_def)
    then have "t_len (plan_base op (unat (?map ! i))) \<noteq> 0" using e(1) by (simp add: plan_base_def word_gt_0)
    then show ?thesis using e(1) by (simp add: word_less_nat_alt)
  qed
  have "c_variants (published_config gen op) ! 3 \<noteq> 0" by (rule published_variants [OF _ udp]) simp
  moreover have "c_variants (published_config gen op) ! unat (?map ! i) \<noteq> 0" if "i < ?n" for i
    by (rule published_variants) (use rule [OF that] in \<open>simp_all add: word_less_nat_alt\<close>)
  moreover have "0 < c_rule_count (o_kernel op)" using assms unfolding rendered_def by blast
  moreover have "c_rule_count (o_kernel op) \<le> 3" using lists(2) by (simp add: word_le_nat_alt)
  ultimately show ?thesis using rule unfolding usable_def published_rules by blast
qed

definition usable_store :: "'e world \<Rightarrow> bool" where
  "usable_store w \<longleftrightarrow> (\<forall>k c. m_configs w k = Some c \<longrightarrow> usable c)"

lemma usable_reaped: "usable_store w \<Longrightarrow> usable_store (reaped gen w)"
  by (simp add: usable_store_def reaped_fields)

lemma usable_same: "same_store w w' \<Longrightarrow> usable_store w' \<longleftrightarrow> usable_store w"
  by (simp add: usable_store_def same_store_def)

lemma publish_keeps_usable:
  assumes H: "host_maps H" and ok: "store_ok (rt_config_gen r) w" and us: "usable_store w" and ren: "rendered files op"
    and run: "publish H G op (r, w, rs) = Some (err, r', w', rs')"
  shows "usable_store w'"
  using H ok rendered_plans_fit [OF ren] run
proof (cases rule: publish_cases)
  case failed
  with us usable_reaped [OF us] show ?thesis by auto
next
  case (published tss m')
  with usable_reaped [OF us, of "rt_config_gen r"] rendered_usable [OF ren] show ?thesis
    by (auto simp: usable_store_def)
qed

end
