(* ===== verification/Loop.thy ===== *)
theory Loop
  imports Lifecycle
begin

text \<open>
  The daemon's own run in \<open>ebpf/user/lifecycle.c\<close>: the last steps of its start, one turn of the
  event loop of \<open>ff_run\<close>, the commands of the control socket and the way out. A result \<open>True\<close>
  is an error. What the sockets deliver is an input: the link events, the text of a command.
\<close>

section \<open>Start\<close>

text \<open>On each private device the program that drops comes before the one that redirects.\<close>

definition attach_builder :: "'e host \<Rightarrow> u32 \<Rightarrow> runtime \<times> 'e world \<Rightarrow> bool \<times> runtime \<times> 'e world" where
  "attach_builder H idx = (\<lambda>(r, w).
     case attach_one H idx BPF_TC_EGRESS ''ff_drop'' 2 (r, w) of (err, r, w) \<Rightarrow>
     if err then (True, r, w) else attach_one H idx BPF_TC_EGRESS ''ff_builder'' 1 (r, w))"

text \<open>Level-3 interfaces beside PPPoE are refused.\<close>

definition mode_count :: "ff_mode \<Rightarrow> ff_options \<Rightarrow> nat" where
  "mode_count m op = length (filter (\<lambda>d. d_mode d = m) (o_devices op))"

definition mixed_paths :: "ff_options \<Rightarrow> bool" where
  "mixed_paths op \<longleftrightarrow> mode_count FF_L3 op \<noteq> 0 \<and> mode_count FF_PPPOE op \<noteq> 0"

text \<open>The socket of the control commands; a path of 108 bytes does not fit its address.\<close>

definition control_socket :: "'e host \<Rightarrow> string \<Rightarrow> runtime \<times> 'e world \<Rightarrow> bool \<times> runtime \<times> 'e world" where
  "control_socket H dir = (\<lambda>(r, w).
     let path = dir @ ''/control.sock'' in
     if 108 \<le> length path then (True, r, w)
     else case unix_socket H (w_env w) of (ok, e) \<Rightarrow>
     let r = r\<lparr>rt_server := ok, rt_socket := path\<rparr>; w = w\<lparr>w_env := e\<rparr> in
     if \<not> ok then (True, r, w)
     else case unix_listen H path e of (ok, e) \<Rightarrow> (\<not> ok, r, w\<lparr>w_env := e\<rparr>))"

text \<open>The interfaces, the first configuration, the socket, and only then the lease that switches the programs on.\<close>

definition bring_up :: "'e host \<Rightarrow> 'r random \<Rightarrow> string \<Rightarrow> runtime \<times> 'e world \<times> 'r \<Rightarrow> (bool \<times> runtime \<times> 'e world \<times> 'r) option" where
  "bring_up H G dir = (\<lambda>(r, w, rs).
     case refresh H True (r, w) of (err, r, w) \<Rightarrow>
     if err then Some (True, r, w, rs)
     else Option.bind (publish H G (rt_options r) (r, w, rs)) (\<lambda>(err, r, w, rs).
       if err then Some (True, r, w, rs)
       else case control_socket H dir (r, w) of (err, r, w) \<Rightarrow>
       if err then Some (True, r, w, rs)
       else case lease H r True w of (err, w) \<Rightarrow> Some (err, r, w, rs)))"

section \<open>Commands\<close>

definition ff_stat_names :: "string list" where
  "ff_stat_names = [
    ''tcp_syn_seen'', ''tcp_synack_eligible'', ''tfo_stripped'', ''skip_synack_data'',
    ''udp_new_flow'', ''udp_early_seen'', ''udp_window_exhausted'',
    ''fake_attempt'', ''fake_build_ok'', ''fake_submit_ok'', ''clone_failed'', ''builder_failed'',
    ''skip_private_remote'', ''skip_near_peer'', ''ttl_unestimated'', ''skip_fragment'',
    ''skip_gso'', ''skip_layout'', ''map_insert_failed'', ''request_expired'',
    ''rate_limited'', ''lease_expired'', ''internal_loop_blocked'', ''skip_auth'',
    ''skip_mtu'', ''tfo_failed'',
    ''skip_len'', ''skip_l2'', ''skip_ipver'', ''skip_ipv4_opts'', ''skip_proto'', ''skip_trunc'']"

definition stat_entry :: "'e world \<Rightarrow> nat \<Rightarrow> string" where
  "stat_entry w k = (if k = 0 then [] else '','') @ quoted (ff_stat_names ! k) @ '':'' @
     decimal (unat (case m_stats w (of_nat k) of None \<Rightarrow> 0 | Some n \<Rightarrow> n))"

definition stats_json :: "'e world \<Rightarrow> string" where
  "stats_json w = ''{'' @ concat (map (stat_entry w) [0..<32]) @ ''}'' @ [CHR 0x0A]"

definition status_json :: "runtime \<Rightarrow> string" where
  "status_json r = ''{'' @ quoted ''running'' @ '':true,'' @ quoted ''generation'' @ '':'' @ decimal (unat (rt_config_gen r)) @
     '','' @ quoted ''interfaces'' @ '':'' @ decimal (length (o_devices (rt_options r))) @ ''}'' @ [CHR 0x0A]"

text \<open>The variables of the loop: the next lease, the last reload, the path in force and the two signal flags.\<close>

record loop =
  lp_next :: u64
  lp_last :: u64
  lp_path :: string
  lp_reloading :: bool
  lp_quitting :: bool

datatype reply =
    Text string
  | ReloadReply reload_result
  | PathTooLong

text \<open>A line of at most 1199 characters; \<open>reload\<close> may name another file, which is kept once it has been read.\<close>

definition command_line :: "string \<Rightarrow> string" where
  "command_line s = takeWhile (\<lambda>c. c \<noteq> CHR 0x00 \<and> c \<noteq> CHR 0x0D \<and> c \<noteq> CHR 0x0A) (take 1199 s)"

definition serve_reload ::
  "'e host \<Rightarrow> 'r random \<Rightarrow> (string \<Rightarrow> u8 list option) \<Rightarrow> string \<Rightarrow> loop \<times> runtime \<times> 'e world \<times> 'r \<Rightarrow>
    (reply \<times> loop \<times> runtime \<times> 'e world \<times> 'r) option" where
  "serve_reload H G files command = (\<lambda>(lp, r, w, rs).
     let selected = (if 6 < length command then drop 7 command else lp_path lp) in
     Option.bind
       (if 1024 \<le> length selected then Some (PathTooLong, lp, r, w, rs)
        else Option.bind (reload H G files selected (r, w, rs)) (\<lambda>(res, r, w, rs).
          Some (ReloadReply res, (case res of Reloaded _ \<Rightarrow> lp\<lparr>lp_path := selected\<rparr> | _ \<Rightarrow> lp), r, w, rs)))
       (\<lambda>(reply, lp, r, w, rs).
          case monotime H (w_env w) of (now, e) \<Rightarrow> Some (reply, lp\<lparr>lp_last := now\<rparr>, r, w\<lparr>w_env := e\<rparr>, rs)))"

definition serve ::
  "'e host \<Rightarrow> 'r random \<Rightarrow> (string \<Rightarrow> u8 list option) \<Rightarrow> string \<Rightarrow> loop \<times> runtime \<times> 'e world \<times> 'r \<Rightarrow>
    (reply \<times> loop \<times> runtime \<times> 'e world \<times> 'r) option" where
  "serve H G files text = (\<lambda>(lp, r, w, rs).
     let command = command_line text in
     if command = ''stats'' then Some (Text (stats_json w), lp, r, w, rs)
     else if command = ''status'' then Some (Text (status_json r), lp, r, w, rs)
     else if command = ''stop'' then Some (Text (''OK stopping'' @ [CHR 0x0A]), lp\<lparr>lp_quitting := True\<rparr>, r, w, rs)
     else if command = ''reload'' \<or> take 7 command = ''reload ''
     then serve_reload H G files command (lp, r, w, rs)
     else Some (Text (''ERROR unknown command'' @ [CHR 0x0A]), lp, r, w, rs))"

section \<open>One turn of the loop\<close>

datatype link_event = LinkDeleted u32 | EventsLost

fun link_events :: "'e host \<Rightarrow> link_event list \<Rightarrow> runtime \<times> 'e world \<Rightarrow> runtime \<times> 'e world" where
  "link_events H [] s = s"
| "link_events H (LinkDeleted idx # es) s = link_events H es (link_deleted H idx s)"
| "link_events H (EventsLost # es) s = link_events H es (events_lost H s)"

text \<open>Every two seconds: the interfaces, the lease, and old generations unless a reload was recent.\<close>

definition upkeep ::
  "'e host \<Rightarrow> u64 \<Rightarrow> loop \<times> runtime \<times> 'e world \<Rightarrow> (bool \<times> loop \<times> runtime \<times> 'e world) option" where
  "upkeep H now = (\<lambda>(lp, r, w).
     if now < lp_next lp then Some (False, lp, r, w)
     else case refresh H False (r, w) of (err, r, w) \<Rightarrow>
     if err then Some (True, lp, r, w)
     else case lease H r True w of (err, w) \<Rightarrow>
     if err then Some (True, lp, r, w)
     else Option.bind (if 2 * FF_NS < now - lp_last lp then reap_configs H r w else Some w) (\<lambda>w.
       Some (False, lp\<lparr>lp_next := now + 2 * FF_NS\<rparr>, r, w)))"

text \<open>The reload a signal has asked for.\<close>

definition signal_reload ::
  "'e host \<Rightarrow> 'r random \<Rightarrow> (string \<Rightarrow> u8 list option) \<Rightarrow> u64 \<Rightarrow> loop \<times> runtime \<times> 'e world \<times> 'r \<Rightarrow>
    (loop \<times> runtime \<times> 'e world \<times> 'r) option" where
  "signal_reload H G files now = (\<lambda>(lp, r, w, rs).
     if \<not> lp_reloading lp then Some (lp, r, w, rs)
     else Option.bind (reload H G files (lp_path lp) (r, w, rs)) (\<lambda>(res, r, w, rs).
       Some (lp\<lparr>lp_reloading := False, lp_last := now\<rparr>, r, w, rs)))"

text \<open>What \<open>poll\<close> reports; a command is the text of an authenticated client that sent something.\<close>

datatype polled = PollError | Polled "link_event list" "string option"

definition turn ::
  "'e host \<Rightarrow> 'r random \<Rightarrow> (string \<Rightarrow> u8 list option) \<Rightarrow> polled \<Rightarrow> loop \<times> runtime \<times> 'e world \<times> 'r \<Rightarrow>
    (bool \<times> reply option \<times> loop \<times> runtime \<times> 'e world \<times> 'r) option" where
  "turn H G files input = (\<lambda>(lp, r, w, rs).
     case monotime H (w_env w) of (now, e) \<Rightarrow>
     Option.bind (upkeep H now (lp, r, w\<lparr>w_env := e\<rparr>)) (\<lambda>(err, lp, r, w).
     if err then Some (True, None, lp, r, w, rs)
     else Option.bind (signal_reload H G files now (lp, r, w, rs)) (\<lambda>(lp, r, w, rs).
     case input of
       PollError \<Rightarrow> Some (True, None, lp, r, w, rs)
     | Polled events command \<Rightarrow>
         (case link_events H events (r, w) of (r, w) \<Rightarrow>
          case command of
            None \<Rightarrow> Some (False, None, lp, r, w, rs)
          | Some text \<Rightarrow> Option.bind (serve H G files text (lp, r, w, rs)) (\<lambda>(reply, lp, r, w, rs).
              Some (False, Some reply, lp, r, w, rs))))))"

section \<open>The way out\<close>

text \<open>The ingress links go before the filters.\<close>

fun destroy_links :: "'e host \<Rightarrow> (u32 \<times> bool) list \<Rightarrow> 'e \<Rightarrow> 'e" where
  "destroy_links H [] e = e"
| "destroy_links H ((idx, linked) # ls) e = destroy_links H ls (if linked then link_destroy H idx e else e)"

end
