(* ===== verification/Daemon.thy ===== *)
theory Daemon
  imports Store Loop
begin

text \<open>
  The daemon and the kernel programs together: a step relation whose steps are the daemon's
  operations and packets that cross the programs, in any order; every turn of the event loop is
  a sequence of such steps. In every reachable state the published maps are consistent, so the
  programs find what they pick, and the next reload has room.
\<close>

section \<open>What the upkeep of interfaces leaves alone\<close>

text \<open>The arrays of \<open>struct runtime\<close> keep their sizes, and there are never more devices than entries.\<close>

definition arrays_ok :: "runtime \<Rightarrow> bool" where
  "arrays_ok r \<longleftrightarrow> length (rt_index r) = 8 \<and> length (rt_generation r) = 8 \<and> length (rt_ingress r) = 8 \<and>
     length (rt_attached r) \<le> FF_ATTACHED_MAX \<and> length (o_devices (rt_options r)) \<le> 8"

definition maintains :: "runtime \<times> 'e world \<Rightarrow> runtime \<times> 'e world \<Rightarrow> bool" where
  "maintains a b \<longleftrightarrow> same_store (snd a) (snd b) \<and> rt_config_gen (fst b) = rt_config_gen (fst a) \<and>
     rt_options (fst b) = rt_options (fst a) \<and> (arrays_ok (fst a) \<longrightarrow> arrays_ok (fst b))"

lemma maintains_refl [simp]: "maintains a a"
  by (simp add: maintains_def)

lemma maintains_trans [trans]: "maintains a b \<Longrightarrow> maintains b c \<Longrightarrow> maintains a c"
  by (auto simp: maintains_def intro: same_store_trans)

interpretation upkeep_frame: frame maintains
  by unfold_locales (simp, rule maintains_trans)

lemma maintains_env [simp]: "maintains a (r, w\<lparr>w_env := e\<rparr>) \<longleftrightarrow> maintains a (r, w)"
  by (simp add: maintains_def)

lemma save_state_maintains: "save_state H r w = (err, w') \<Longrightarrow> maintains a (r, w') \<longleftrightarrow> maintains a (r, w)"
  by (auto simp: save_state_def split: prod.splits)

lemma set_index_maintains [simp]: "maintains a (r, w) \<Longrightarrow> maintains a (set_index i idx r, w)"
  by (auto simp: maintains_def set_index_def arrays_ok_def)

lemma attach_one_maintains:
  assumes "attach_one H idx p name prio (r, w) = (err, r', w')"
  shows "maintains (r, w) (r', w')"
proof (cases "FF_ATTACHED_MAX \<le> length (rt_attached r)")
  case True
  with assms show ?thesis by (simp add: attach_one_def)
next
  case False
  obtain out e where at: "ff_attach H idx p name prio (w_env w) = (out, e)" by fastforce
  show ?thesis
  proof (cases out)
    case None
    with assms at False show ?thesis by (auto simp: attach_one_def)
  next
    case (Some a)
    let ?r = "r\<lparr>rt_attached := rt_attached r @ [a]\<rparr>"
    obtain err2 w2 where sv: "save_state H ?r (w\<lparr>w_env := e\<rparr>) = (err2, w2)" by fastforce
    have "maintains (r, w) (?r, w)" using False by (simp add: maintains_def arrays_ok_def)
    then have "maintains (r, w) (?r, w2)" using save_state_maintains [OF sv] by simp
    with assms at False Some sv show ?thesis by (auto simp: attach_one_def Let_def)
  qed
qed

lemma drop_filters_length: "drop_filters H idx i as e = (as', e') \<Longrightarrow> length as' \<le> length as"
proof (induction H idx i as e rule: drop_filters.induct)
  case (1 H idx i as e)
  show ?case
  proof (cases "length as \<le> i")
    case True
    with "1.prems" show ?thesis by (simp add: drop_filters.simps)
  next
    case False
    show ?thesis
    proof (cases "a_index (as ! i) = idx")
      case True
      have "length as' \<le> length (butlast (as[i := last as]))"
        by (rule "1.IH"(1) [OF False True]) (use "1.prems" False True in \<open>simp add: drop_filters.simps [of H idx i as]\<close>)
      then show ?thesis by simp
    next
      case other: False
      show ?thesis
        by (rule "1.IH"(2) [OF False other]) (use "1.prems" False other in \<open>simp add: drop_filters.simps [of H idx i as]\<close>)
    qed
  qed
qed

lemma drop_links_length: "drop_links H idx js ls e = (ls', e') \<Longrightarrow> length ls' = length ls"
  by (induction H idx js ls e arbitrary: ls' e' rule: drop_links.induct) (auto split: prod.splits)

lemma forget_index_maintains:
  assumes "forget_index H idx (r, w) = (r', w')"
  shows "maintains (r, w) (r', w')"
proof (cases "idx = 0")
  case True
  with assms show ?thesis by (simp add: forget_index_def)
next
  case False
  let ?n = "length (o_devices (rt_options r))"
  obtain ls e where dl: "drop_links H idx (take ?n (rt_index r)) (rt_ingress r) (w_env w) = (ls, e)" by fastforce
  obtain as e2 where df: "drop_filters H idx 0 (rt_attached r) e = (as, e2)" by fastforce
  let ?r = "r\<lparr>rt_ingress := ls, rt_attached := as\<rparr>"
  have res: "r' = ?r \<and> w' = snd (save_state H ?r (w\<lparr>m_interfaces := (m_interfaces w)(idx := None), w_env := e2\<rparr>))"
    using assms False dl df by (auto simp: forget_index_def Let_def)
  have "maintains (r, w) (?r, w\<lparr>m_interfaces := (m_interfaces w)(idx := None), w_env := e2\<rparr>)"
    using drop_links_length [OF dl] drop_filters_length [OF df] by (simp add: maintains_def arrays_ok_def)
  moreover obtain err w2 where sv: "save_state H ?r (w\<lparr>m_interfaces := (m_interfaces w)(idx := None), w_env := e2\<rparr>) = (err, w2)" by fastforce
  ultimately show ?thesis using res save_state_maintains [OF sv] by simp
qed

lemma attach_device_maintains:
  assumes "attach_device H i name idx (r, w) = (err, r', w')"
  shows "maintains (r, w) (r', w')"
proof -
  obtain taken e where av: "ff_priority_available H name ''egress'' (w_env w) = (taken, e)" by fastforce
  obtain ok e2 where tc: "attach_tcx H idx e = (ok, e2)" by fastforce
  let ?r = "set_index i idx (r\<lparr>rt_ingress := (rt_ingress r)[i := True]\<rparr>)" and ?w = "w\<lparr>w_env := e2\<rparr>"
  have one: "maintains (r, w) (?r, ?w)" by (simp add: maintains_def arrays_ok_def set_index_def)
  obtain err2 r2 w2 where at: "attach_one H idx BPF_TC_EGRESS ''ff_egress'' 1 (?r, ?w) = (err2, r2, w2)" by (metis prod_cases3)
  have two: "maintains (r, w) (r2, w2)" by (rule maintains_trans [OF one attach_one_maintains [OF at]])
  obtain r3 w3 where fg: "forget_index H idx (r2, w2) = (r3, w3)" by fastforce
  have three: "maintains (r, w) (r3, w3)" by (rule maintains_trans [OF two forget_index_maintains [OF fg]])
  have four: "maintains (r, w) (set_index i idx r2\<lparr>rt_epoch := ep, rt_generation := (rt_generation r2)[i := ep]\<rparr>, w2)" for ep
    using two by (simp add: maintains_def arrays_ok_def set_index_def)
  have "attach_device H i name idx (r, w) =
      (if taken then (True, r, w\<lparr>w_env := e\<rparr>) else if \<not> ok then (True, r, ?w) else if err2 then (True, r3, w3)
       else (False, set_index i idx r2\<lparr>rt_epoch := rt_epoch r2 + 1, rt_generation := (rt_generation r2)[i := rt_epoch r2 + 1]\<rparr>, w2))"
    by (simp add: attach_device_def Let_def av tc at fg)
  with assms three four [of "rt_epoch r2 + 1"] show ?thesis by (cases taken; cases ok; cases err2) auto
qed

lemma refresh_device_maintains:
  assumes "refresh_device H initial i d (r, w) = (err, r', w')"
  shows "maintains (r, w) (r', w')"
proof -
  obtain link e where li: "ff_link H (d_name d) (d_mode d) (w_env w) = (link, e)" by fastforce
  let ?w = "w\<lparr>w_env := e\<rparr>"
  define gone where "gone = (case link of None \<Rightarrow> True | Some (idx, mtu) \<Rightarrow> idx \<noteq> rt_index r ! i)"
  obtain r1 w1 where one: "(if gone then (case forget_index H (rt_index r ! i) (r, ?w) of (r, w) \<Rightarrow> (set_index i 0 r, w))
      else (r, ?w)) = (r1, w1)" by fastforce
  have m1: "maintains (r, w) (r1, w1)"
  proof (cases gone)
    case True
    obtain r2 w2 where f: "forget_index H (rt_index r ! i) (r, ?w) = (r2, w2)" by fastforce
    have "maintains (r, w) (r2, w2)" by (rule maintains_trans [OF _ forget_index_maintains [OF f]]) simp
    with one f True show ?thesis by auto
  qed (use one in auto)
  show ?thesis
  proof (cases link)
    case None
    with assms li one show ?thesis using m1 by (auto simp: refresh_device_def Let_def gone_def)
  next
    case (Some l)
    obtain idx mtu where l: "l = (idx, mtu)" by fastforce
    obtain err2 r2 w2 where two: "(if rt_index r1 ! i = 0 then attach_device H i (d_name d) idx (r1, w1) else (False, r1, w1)) = (err2, r2, w2)"
      by (metis prod_cases3)
    have "maintains (r1, w1) (r2, w2)" using two attach_device_maintains [of H i "d_name d" idx r1 w1] by (auto split: if_splits)
    with m1 have m2: "maintains (r, w) (r2, w2)" by (rule maintains_trans)
    obtain err3 m where iu: "interface_update H idx (interface_of r2 i (d_mode d) mtu) (m_interfaces w2) = (err3, m)" by fastforce
    have "(r', w') = (r2, w2) \<or> (r', w') = (r2, w2\<lparr>m_interfaces := m\<rparr>)"
      using assms li one two iu Some l by (cases err2) (auto simp: refresh_device_def Let_def gone_def)
    moreover have "maintains (r, w) (r2, w2\<lparr>m_interfaces := m\<rparr>)" using m2 by (simp add: maintains_def)
    ultimately show ?thesis using m2 by auto
  qed
qed

lemma refresh_from_maintains: "refresh_from H initial i ds (r, w) = (err, r', w') \<Longrightarrow> maintains (r, w) (r', w')"
proof (induction ds arbitrary: i r w)
  case (Cons d ds)
  obtain err1 r1 w1 where d: "refresh_device H initial i d (r, w) = (err1, r1, w1)" by (metis prod_cases3)
  note m1 = refresh_device_maintains [OF d]
  show ?case
  proof (cases err1)
    case False
    with Cons.prems d have "refresh_from H initial (i + 1) ds (r1, w1) = (err, r', w')" by simp
    from maintains_trans [OF m1 Cons.IH [OF this]] show ?thesis .
  qed (use Cons.prems d m1 in auto)
qed simp

lemma refresh_maintains: "refresh H initial (r, w) = (err, r', w') \<Longrightarrow> maintains (r, w) (r', w')"
  by (simp add: refresh_def) (rule refresh_from_maintains)

lemma lease_maintains: "lease H r on w = (err, w') \<Longrightarrow> maintains (r, w) (r, w')"
  by (auto simp: lease_def Let_def maintains_def split: prod.splits)

lemma forget_device_maintains: "maintains s (forget_device H i s)"
proof (cases s)
  case (Pair r w)
  obtain r1 w1 where f: "forget_index H (rt_index r ! i) (r, w) = (r1, w1)" by fastforce
  from forget_index_maintains [OF f] show ?thesis by (simp add: Pair forget_device_def f)
qed

lemma link_deleted_maintains: "maintains s (link_deleted H idx s)"
proof (cases s)
  case (Pair r w)
  show ?thesis unfolding link_deleted_def Pair prod.case
    by (rule upkeep_frame.fold_same) (auto simp: forget_device_maintains split: prod.split)
qed

lemma events_lost_maintains: "maintains s (events_lost H s)"
proof (cases s)
  case (Pair r w)
  show ?thesis unfolding events_lost_def Pair prod.case by (rule upkeep_frame.fold_same) (rule forget_device_maintains)
qed

section \<open>Daemon and programs\<close>

text \<open>
  \<open>outside\<close> is anything that happens to the host's private state between two steps; the files a
  reload finds are those of that moment.
\<close>

inductive daemon_step ::
  "'e host \<Rightarrow> 'r random \<Rightarrow> 'e kern \<Rightarrow> runtime \<times> 'e world \<times> 'r \<Rightarrow> runtime \<times> 'e world \<times> 'r \<Rightarrow> bool"
  for H :: "'e host" and G :: "'r random" and K :: "'e kern" where
  reloads: "reload H G files path (r, w, rs) = Some (res, r', w', rs') \<Longrightarrow> daemon_step H G K (r, w, rs) (r', w', rs')"
| reaps: "reap_configs H r w = Some w' \<Longrightarrow> daemon_step H G K (r, w, rs) (r, w', rs)"
| leases: "lease H r True w = (err, w') \<Longrightarrow> daemon_step H G K (r, w, rs) (r, w', rs)"
| refreshes: "refresh H False (r, w) = (err, r', w') \<Longrightarrow> daemon_step H G K (r, w, rs) (r', w', rs)"
| unlinks: "link_deleted H idx (r, w) = (r', w') \<Longrightarrow> daemon_step H G K (r, w, rs) (r', w', rs)"
| loses: "events_lost H (r, w) = (r', w') \<Longrightarrow> daemon_step H G K (r, w, rs) (r', w', rs)"
| outside: "daemon_step H G K (r, w, rs) (r, w\<lparr>w_env := e\<rparr>, rs)"
| crosses: "cross K x w = (v, s, w') \<Longrightarrow> daemon_step H G K (r, w, rs) (r, w', rs)"

inductive_cases daemon_stepE: "daemon_step H G K s s'"

abbreviation daemon_steps where "daemon_steps H G K \<equiv> (daemon_step H G K)\<^sup>*\<^sup>*"

text \<open>The states a daemon can be in: it starts with a configuration it has read, and empty maps.\<close>

inductive reachable ::
  "'e host \<Rightarrow> 'r random \<Rightarrow> 'e kern \<Rightarrow> runtime \<times> 'e world \<times> 'r \<Rightarrow> bool"
  for H :: "'e host" and G :: "'r random" and K :: "'e kern" where
  started: "ff_config_read G files path rs0 = (Inr (rt_options r0), rs1) \<Longrightarrow> rt_config_gen r0 = 0 \<Longrightarrow> arrays_ok r0 \<Longrightarrow>
     m_configs w0 = Map.empty \<Longrightarrow> m_templates w0 = Map.empty \<Longrightarrow>
     bring_up H G dir (r0, w0, rs1) = Some (False, s) \<Longrightarrow> reachable H G K s"
| stepped: "reachable H G K s \<Longrightarrow> daemon_step H G K s s' \<Longrightarrow> reachable H G K s'"

section \<open>The invariant\<close>

definition daemon_ok :: "runtime \<times> 'e world \<times> 'r \<Rightarrow> bool" where
  "daemon_ok = (\<lambda>(r, w, rs). store_ok (rt_config_gen r) w \<and> usable_store w \<and> rt_config_gen r \<noteq> 0 \<and> arrays_ok r)"

lemma maintains_ok: "maintains (r, w) (r', w') \<Longrightarrow> daemon_ok (r, w, rs) \<Longrightarrow> daemon_ok (r', w', rs')"
  by (auto simp: maintains_def daemon_ok_def store_ok_same usable_same)

lemma same_store_ok: "same_store w w' \<Longrightarrow> daemon_ok (r, w, rs) \<Longrightarrow> daemon_ok (r, w', rs')"
  by (rule maintains_ok) (simp_all add: maintains_def)

lemma publish_result:
  assumes H: "host_maps H" and ok: "store_ok (rt_config_gen r) w" and fit: "plans_fit op"
    and run: "publish H G op (r, w, rs) = Some (err, r', w', rs')"
  shows "if err then r' = r else rt_config_gen r' = rt_config_gen r + 1 \<and> rt_config_gen r' \<noteq> 0 \<and>
    r' = r\<lparr>rt_config_gen := rt_config_gen r + 1, rt_options := op\<lparr>o_kernel := published_config (rt_config_gen r + 1) op\<rparr>\<rparr>"
  using H ok fit run
proof (cases rule: publish_cases)
  case (published tss m')
  have "unat (rt_config_gen r + 1) = unat (rt_config_gen r) + 1"
    using store_okD(1) [OF ok] by (intro trans [OF unat_add_small]) (simp_all add: last_generation_def word_le_nat_alt)
  then have "rt_config_gen r + 1 \<noteq> 0" by (metis add_is_0 one_neq_zero unat_0)
  with published show ?thesis by simp
qed simp

lemma publish_ok:
  assumes H: "host_maps H" and ok: "store_ok (rt_config_gen r) w" "usable_store w" "arrays_ok r"
    and op: "rendered files op" "length (o_devices op) \<le> 8"
    and run: "publish H G op (r, w, rs) = Some (err, r', w', rs')"
  shows "store_ok (rt_config_gen r') w'" "usable_store w'" "arrays_ok r'"
    and "\<not> err \<Longrightarrow> rt_config_gen r' \<noteq> 0" and "err \<Longrightarrow> r' = r"
proof -
  note fit = rendered_plans_fit [OF op(1)]
  show "store_ok (rt_config_gen r') w'" by (rule publish_keeps_store [OF H ok(1) fit run])
  show "usable_store w'" by (rule publish_keeps_usable [OF H ok(1,2) op(1) run])
  note res = publish_result [OF H ok(1) fit run]
  then show "\<not> err \<Longrightarrow> rt_config_gen r' \<noteq> 0" "err \<Longrightarrow> r' = r" by metis+
  show "arrays_ok r'" using res ok(3) op(2) by (cases err) (simp_all add: arrays_ok_def)
qed

lemma accepted_devices: "accepted op \<Longrightarrow> length (o_devices op) \<le> 8"
  by (simp add: accepted_def options_ok_def)

lemma reload_ok:
  assumes H: "host_maps H" and ok: "daemon_ok (r, w, rs)"
    and run: "reload H G files path (r, w, rs) = Some (res, r', w', rs')"
  shows "daemon_ok (r', w', rs')"
proof -
  obtain out rs1 where rd: "ff_config_read G files path rs = (out, rs1)" by fastforce
  show ?thesis
  proof (cases "\<exists>op. out = Inr op \<and> same_layout (rt_options r) op")
    case False
    with run rd have "r' = r \<and> w' = w" by (auto simp: reload_def split: sum.splits)
    with ok show ?thesis by (simp add: daemon_ok_def)
  next
    case True
    then obtain op where op: "out = Inr op" "same_layout (rt_options r) op" by blast
    note acc = ff_config_read_accepted [OF rd [unfolded op(1)]]
    from run rd op obtain err where p: "publish H G op (r, w, rs1) = Some (err, r', w', rs')"
      by (auto simp: reload_def split: Option.bind_splits)
    note pk = publish_ok [OF H _ _ _ acc(2) accepted_devices [OF acc(1)] p]
    have prem: "store_ok (rt_config_gen r) w" "usable_store w" "arrays_ok r" "rt_config_gen r \<noteq> 0"
      using ok by (simp_all add: daemon_ok_def)
    show ?thesis using pk [OF prem(1-3)] prem(4) by (cases err) (simp_all add: daemon_ok_def)
  qed
qed

lemma reap_ok:
  assumes H: "host_maps H" and ok: "daemon_ok (r, w, rs)" and run: "reap_configs H r w = Some w'"
  shows "daemon_ok (r, w', rs)"
proof -
  have prem: "store_ok (rt_config_gen r) w" "usable_store w" using ok by (simp_all add: daemon_ok_def)
  have "reap_configs H r w = Some (reaped (rt_config_gen r) w)"
    unfolding reap_configs_def by (rule reap_loop_reaped) (use H store_okD(2) [OF prem(1)] in \<open>simp_all add: host_maps_def\<close>)
  with run have "w' = reaped (rt_config_gen r) w" by simp
  with ok store_reaped(1) [OF prem(1)] usable_reaped [OF prem(2)] show ?thesis by (simp add: daemon_ok_def)
qed

lemma daemon_step_ok:
  assumes H: "host_maps H" "store_clone K" and ok: "daemon_ok s" and step: "daemon_step H G K s s'"
  shows "daemon_ok s'"
  using step
proof cases
  case (reloads files path r w rs res r' w' rs')
  show ?thesis using reload_ok [OF H(1) ok [unfolded reloads(1)] reloads(3)] reloads(2) by simp
next
  case (reaps r w w' rs)
  show ?thesis using reap_ok [OF H(1) ok [unfolded reaps(1)] reaps(3)] reaps(2) by simp
next
  case (leases r w err w' rs)
  show ?thesis unfolding leases(2) by (rule maintains_ok [OF lease_maintains [OF leases(3)] ok [unfolded leases(1)]])
next
  case (refreshes r w err r' w' rs)
  show ?thesis unfolding refreshes(2) by (rule maintains_ok [OF refresh_maintains [OF refreshes(3)] ok [unfolded refreshes(1)]])
next
  case (unlinks idx r w r' w' rs)
  have "maintains (r, w) (r', w')" using link_deleted_maintains [of "(r, w)" H idx] unlinks(3) by simp
  then show ?thesis unfolding unlinks(2) by (rule maintains_ok [OF _ ok [unfolded unlinks(1)]])
next
  case (loses r w r' w' rs)
  have "maintains (r, w) (r', w')" using events_lost_maintains [of "(r, w)" H] loses(3) by simp
  then show ?thesis unfolding loses(2) by (rule maintains_ok [OF _ ok [unfolded loses(1)]])
next
  case (outside r w rs e)
  show ?thesis unfolding outside(2) by (rule same_store_ok [OF _ ok [unfolded outside(1)]]) simp
next
  case (crosses x w v p w' r rs)
  have "same_store w w'" using published_store [OF cross_store [OF H(2), of w x]] crosses(3) by simp
  then show ?thesis unfolding crosses(2) by (rule same_store_ok [OF _ ok [unfolded crosses(1)]])
qed

lemma empty_store_ok: "m_configs w = Map.empty \<Longrightarrow> m_templates w = Map.empty \<Longrightarrow> store_ok 0 w \<and> usable_store w"
  by (simp add: store_ok_def config_store_def usable_store_def)

lemma control_socket_maintains:
  assumes "control_socket H dir (r, w) = (err, r', w')"
  shows "maintains (r, w) (r', w')"
  using assms by (auto simp: control_socket_def Let_def maintains_def arrays_ok_def split: prod.splits if_splits)

text \<open>A start that succeeds, step by step.\<close>

lemma bring_up_cases:
  assumes "bring_up H G dir (r, w, rs) = Some (False, s)"
  obtains r1 w1 r2 w2 rs2 r3 w3 where "refresh H True (r, w) = (False, r1, w1)"
    "publish H G (rt_options r1) (r1, w1, rs) = Some (False, r2, w2, rs2)"
    "control_socket H dir (r2, w2) = (False, r3, w3)" "s = (r3, snd (lease H r3 True w3), rs2)"
  using assms by (auto simp: bring_up_def split: if_splits Option.bind_splits prod.splits)

lemma bring_up_ok:
  assumes H: "host_maps H" and opts: "accepted (rt_options r)" "rendered files (rt_options r)"
    and init: "rt_config_gen r = 0" "arrays_ok r" "m_configs w = Map.empty" "m_templates w = Map.empty"
    and run: "bring_up H G dir (r, w, rs) = Some (False, s)"
  shows "daemon_ok s"
proof -
  from run obtain r1 w1 r2 w2 rs2 r3 w3 where rf: "refresh H True (r, w) = (False, r1, w1)"
    and p: "publish H G (rt_options r1) (r1, w1, rs) = Some (False, r2, w2, rs2)"
    and so: "control_socket H dir (r2, w2) = (False, r3, w3)" and s: "s = (r3, snd (lease H r3 True w3), rs2)"
    by (rule bring_up_cases)
  note m = refresh_maintains [OF rf, unfolded maintains_def fst_conv snd_conv]
  have "same_store w w1" and opt1: "rt_options r1 = rt_options r" and gen: "rt_config_gen r1 = 0" and arr: "arrays_ok r1"
    using m init by simp_all
  then have "store_ok (rt_config_gen r1) w1" "usable_store w1"
    using empty_store_ok [OF init(3,4)] by (simp_all add: store_ok_same usable_same)
  from publish_ok [OF H this arr _ _ p] opts accepted_devices have "daemon_ok (r2, w2, rs2)"
    unfolding opt1 daemon_ok_def by blast
  moreover have "maintains (r2, w2) (r3, snd (lease H r3 True w3))"
    by (rule maintains_trans [OF control_socket_maintains [OF so] lease_maintains [of H r3 True w3 "fst (lease H r3 True w3)"]]) simp
  ultimately show ?thesis unfolding s by (rule maintains_ok [rotated])
qed

lemma reachable_ok:
  assumes "host_maps H" and "store_clone K"
  shows "reachable H G K s \<Longrightarrow> daemon_ok s"
proof (induction rule: reachable.induct)
  case (started files path rs0 r0 rs1 w0 s)
  with ff_config_read_accepted [OF started(1)] show ?case by (intro bring_up_ok [OF assms(1)])
next
  case (stepped s s')
  with daemon_step_ok [OF assms] show ?case by blast
qed

section \<open>A turn of the loop\<close>

lemma reload_steps: "reload H G files path (r, w, rs) = Some (res, r', w', rs') \<Longrightarrow> daemon_steps H G K (r, w, rs) (r', w', rs')"
  by (rule r_into_rtranclp) (rule reloads)

lemma upkeep_steps:
  assumes "upkeep H now (lp, r, w) = Some (err, lp', r', w')"
  shows "daemon_steps H G K (r, w, rs) (r', w', rs)"
proof (cases "now < lp_next lp")
  case True
  with assms show ?thesis by (simp add: upkeep_def)
next
  case False
  obtain e1 r1 w1 where rf: "refresh H False (r, w) = (e1, r1, w1)" by (metis prod_cases3)
  obtain e2 w2 where le: "lease H r1 True w1 = (e2, w2)" by fastforce
  have 1: "daemon_steps H G K (r, w, rs) (r1, w1, rs)" by (rule r_into_rtranclp) (rule refreshes [OF rf])
  have 2: "daemon_steps H G K (r, w, rs) (r1, w2, rs)" by (rule rtranclp.rtrancl_into_rtrancl [OF 1]) (rule leases [OF le])
  show ?thesis
  proof (cases "e1 \<or> e2")
    case True
    with assms False rf le 1 2 show ?thesis by (auto simp: upkeep_def split: if_splits)
  next
    case ok: False
    from assms False rf le ok obtain w3 where r: "r' = r1" "w' = w3"
      and w3: "w3 = w2 \<or> reap_configs H r1 w2 = Some w3"
      by (auto simp: upkeep_def split: if_splits Option.bind_splits)
    from w3 show ?thesis
    proof
      assume "reap_configs H r1 w2 = Some w3"
      from rtranclp.rtrancl_into_rtrancl [OF 2 reaps [OF this]] show ?thesis unfolding r .
    qed (use 2 r in simp)
  qed
qed

lemma signal_reload_steps:
  assumes "signal_reload H G files now (lp, r, w, rs) = Some (lp', r', w', rs')"
  shows "daemon_steps H G K (r, w, rs) (r', w', rs')"
  using assms reload_steps by (auto simp: signal_reload_def split: if_splits Option.bind_splits)

lemma link_events_steps:
  "link_events H es (r, w) = (r', w') \<Longrightarrow> daemon_steps H G K (r, w, rs) (r', w', rs)"
proof (induction es arbitrary: r w)
  case (Cons e es)
  show ?case
  proof (cases e)
    case (LinkDeleted idx)
    obtain r1 w1 where l: "link_deleted H idx (r, w) = (r1, w1)" by fastforce
    with Cons.prems LinkDeleted have "link_events H es (r1, w1) = (r', w')" by simp
    from converse_rtranclp_into_rtranclp [OF unlinks [OF l] Cons.IH [OF this]] show ?thesis .
  next
    case EventsLost
    obtain r1 w1 where l: "events_lost H (r, w) = (r1, w1)" by fastforce
    with Cons.prems EventsLost have "link_events H es (r1, w1) = (r', w')" by simp
    from converse_rtranclp_into_rtranclp [OF loses [OF l] Cons.IH [OF this]] show ?thesis .
  qed
qed simp

lemma serve_steps:
  assumes "serve H G files text (lp, r, w, rs) = Some (reply, lp', r', w', rs')"
  shows "daemon_steps H G K (r, w, rs) (r', w', rs')"
proof -
  have out: "daemon_steps H G K (r, w, rs) (r1, w1\<lparr>w_env := e\<rparr>, rs1)"
    if "daemon_steps H G K (r, w, rs) (r1, w1, rs1)" for r1 w1 rs1 e
    by (rule rtranclp.rtrancl_into_rtrancl [OF that outside])
  have reload: "daemon_steps H G K (r, w, rs) (r', w', rs')"
    if run: "serve_reload H G files command (lp, r, w, rs) = Some (reply, lp', r', w', rs')" for command
  proof -
    let ?sel = "if 6 < length command then drop 7 command else lp_path lp"
    show ?thesis
    proof (cases "1024 \<le> length ?sel")
      case True
      obtain now e where "monotime H (w_env w) = (now, e)" by fastforce
      with run True out [of r w rs e] show ?thesis by (auto simp: serve_reload_def Let_def)
    next
      case False
      from run False obtain res r1 w1 rs1 where rl: "reload H G files ?sel (r, w, rs) = Some (res, r1, w1, rs1)"
        by (auto simp: serve_reload_def Let_def split: Option.bind_splits)
      obtain now e where "monotime H (w_env w1) = (now, e)" by fastforce
      with run False rl have "(r', w', rs') = (r1, w1\<lparr>w_env := e\<rparr>, rs1)" by (auto simp: serve_reload_def Let_def)
      with out [OF reload_steps [OF rl], of e] show ?thesis by simp
    qed
  qed
  have "(r', w', rs') = (r, w, rs) \<or> (\<exists>command. serve_reload H G files command (lp, r, w, rs) = Some (reply, lp', r', w', rs'))"
    using assms unfolding serve_def Let_def prod.case by (auto split: if_splits)
  with reload show ?thesis by auto
qed

lemma turn_steps:
  assumes "turn H G files input (lp, r, w, rs) = Some (stop, reply, lp', r', w', rs')"
  shows "daemon_steps H G K (r, w, rs) (r', w', rs')"
proof -
  obtain now e where t: "monotime H (w_env w) = (now, e)" by fastforce
  have 0: "daemon_steps H G K (r, w, rs) (r, w\<lparr>w_env := e\<rparr>, rs)" by (rule r_into_rtranclp) (rule outside)
  from assms t obtain err lp1 r1 w1 where u: "upkeep H now (lp, r, w\<lparr>w_env := e\<rparr>) = Some (err, lp1, r1, w1)"
    by (auto simp: turn_def split: Option.bind_splits)
  from 0 upkeep_steps [OF u] have 1: "daemon_steps H G K (r, w, rs) (r1, w1, rs)" by (rule rtranclp_trans)
  show ?thesis
  proof (cases err)
    case True
    with assms t u 1 show ?thesis by (simp add: turn_def)
  next
    case False
    from assms t u False obtain lp2 r2 w2 rs2 where s: "signal_reload H G files now (lp1, r1, w1, rs) = Some (lp2, r2, w2, rs2)"
      by (auto simp: turn_def split: Option.bind_splits)
    from 1 signal_reload_steps [OF s] have 2: "daemon_steps H G K (r, w, rs) (r2, w2, rs2)" by (rule rtranclp_trans)
    show ?thesis
    proof (cases input)
      case PollError
      with assms t u False s 2 show ?thesis by (simp add: turn_def)
    next
      case (Polled es command)
      obtain r3 w3 where l: "link_events H es (r2, w2) = (r3, w3)" by fastforce
      from 2 link_events_steps [OF l] have 3: "daemon_steps H G K (r, w, rs) (r3, w3, rs2)" by (rule rtranclp_trans)
      show ?thesis
      proof (cases command)
        case None
        with assms t u False s Polled l 3 show ?thesis by (simp add: turn_def)
      next
        case (Some msg)
        with assms t u False s Polled l obtain rep where "serve H G files msg (lp2, r3, w3, rs2) = Some (rep, lp', r', w', rs')"
          by (auto simp: turn_def split: Option.bind_splits)
        from rtranclp_trans [OF 3 serve_steps [OF this]] show ?thesis .
      qed
    qed
  qed
qed

text \<open>Reachability and the invariant are kept by every sequence of steps.\<close>

interpretation reach: preserved "daemon_step H G K" "reachable H G K" for H G K
  by unfold_locales (rule stepped)

interpretation sound: preserved "daemon_step H G K" "\<lambda>s. host_maps H \<and> store_clone K \<longrightarrow> daemon_ok s" for H G K
  by unfold_locales (use daemon_step_ok in blast)

lemma reachable_steps: "reachable H G K s \<Longrightarrow> daemon_steps H G K s s' \<Longrightarrow> reachable H G K s'"
  by (rule reach.steps)

lemma daemon_steps_ok: "host_maps H \<Longrightarrow> store_clone K \<Longrightarrow> daemon_ok s \<Longrightarrow> daemon_steps H G K s s' \<Longrightarrow> daemon_ok s'"
  using sound.steps [of H G K s s'] by blast

section \<open>Properties\<close>

text \<open>
  Property C2. In every reachable state, after any mixture of reloads, timer work, link events and packets,
  the published maps are consistent: the active generation is there, each generation in the map is one of
  the last three, its plans have exactly the variants its configuration counts, every template belongs to
  a generation in the map, at most 3 configurations and 384 templates are kept (the maps hold 16 and 448),
  and the daemon's tables stay inside their arrays.
\<close>
theorem daemon_invariant:
  assumes "host_maps H" and "store_clone K" and "reachable H G K (r, w, rs)"
  shows "store_ok (rt_config_gen r) w \<and> usable_store w \<and> configuration w \<noteq> None \<and> arrays_ok r \<and>
    card (dom (m_configs w)) \<le> 3 \<and> card (dom (m_templates w)) \<le> 384"
proof -
  have "daemon_ok (r, w, rs)" by (rule reachable_ok [OF assms])
  then have ok: "store_ok (rt_config_gen r) w" "usable_store w" "arrays_ok r" "rt_config_gen r \<noteq> 0"
    by (simp_all add: daemon_ok_def)
  moreover have "configuration w \<noteq> None"
    using store_okD(7,8) [OF ok(1,4)] by (simp add: configuration_def)
  ultimately show ?thesis using store_capacity [OF ok(1)] by simp
qed

text \<open>
  Property C1. What the observer picks is there: in every reachable state, for the rule the rotation hands
  to a new connection and for the datagram plan, and for every random number, the request \<open>emit\<close>
  makes names a template the daemon has published, which is not empty and fits the payload limit.
\<close>
theorem picked_template_published:
  assumes "host_maps H" and "store_clone K" and "reachable H G K (r, w, rs)"
    and "configuration w = Some c" and "next_rule c w = (rule, w1)" and "plan = rule \<or> plan = FF_TEMPLATE_PLAN_UDP"
  shows "\<exists>t. m_templates w (request_template_key (make_request iface c reverse now ttl plan (pick_variant c plan rnd) s)) = Some t \<and>
    template_ok t"
proof -
  have "daemon_ok (r, w, rs)" by (rule reachable_ok [OF assms(1-3)])
  then have ok: "store_ok (rt_config_gen r) w" "usable_store w" "rt_config_gen r \<noteq> 0" by (simp_all add: daemon_ok_def)
  have us: "usable c" using ok(2) assms(4) by (auto simp: usable_store_def configuration_def split: option.splits)
  have plan: "plan < 4" "c_variants c ! unat plan \<noteq> 0"
    using assms(6) next_rule_usable [OF us assms(5)] us by (auto simp: usable_def word_less_nat_alt)
  obtain t where t: "m_templates w (picked_key c plan rnd) = Some t" "template_ok t" "pick_variant c plan rnd < 32"
    by (rule picked_template [OF active_published(1) [OF ok(1) assms(4) ok(3)] plan])
  show ?thesis using t by (simp add: request_key [OF plan(1) t(3)] picked_key_def)
qed

text \<open>
  Property C33. A rule the active configuration does not send, which a connection may still have pinned from
  before a reload, has no template: the request \<open>emit\<close> makes for it names a key that was never
  written, and the builder fails on it and drops the clone.
\<close>
theorem unsent_rule_dropped:
  assumes "host_maps H" and "store_clone K" and "reachable H G K (r, w, rs)"
    and "configuration w = Some c" and "plan < FF_TEMPLATE_PLAN_COUNT" and "c_variants c ! unat plan = 0"
    and "rq = make_request iface c reverse now ttl plan (pick_variant c plan rnd) s"
  shows "m_templates w (request_template_key rq) = None \<and> fst (build K rq iface (s', w)) \<and>
    fst (build_claimed K rq iface (s', w)) = TC_ACT_SHOT"
proof -
  have "daemon_ok (r, w, rs)" by (rule reachable_ok [OF assms(1-3)])
  then have ok: "store_ok (rt_config_gen r) w" "rt_config_gen r \<noteq> 0" by (simp_all add: daemon_ok_def)
  have plan: "plan < 4" using assms(5) by simp
  have "pick_variant c plan rnd < 1" by (rule pick_variant_less [OF plan]) (use assms(6) in \<open>simp_all add: Let_def\<close>)
  then have v: "pick_variant c plan rnd < 32" by (simp add: word_less_nat_alt)
  have none: "m_templates w (request_template_key rq) = None"
    using unpublished_template [OF active_published(1) [OF ok(1) assms(4) ok(2)] plan assms(6), of rnd]
    by (simp add: assms(7) request_key [OF plan v] picked_key_def)
  have fails: "err" if run: "build K rq iface (s', w) = (err, s1, w1)" for err s1 w1
  proof -
    obtain p w2 where p: "parse K s' iface (rq_reverse rq) w = (p, w2)" by fastforce
    show ?thesis
    proof (cases p)
      case (Some q)
      then have w2: "w2 = w" using parse_frame [OF p] by simp
      obtain e s3 w3 where pr: "probe_checksum K q (s', w2) = (e, s3, w3)" by (metis prod_cases3)
      have "\<not> e \<Longrightarrow> w3 = w" using pr w2 by (auto simp: probe_checksum_def split: if_splits option.splits prod.splits)
      with run p Some pr none show ?thesis by (cases e) (simp_all add: build_def)
    qed (use run p in \<open>simp add: build_def\<close>)
  qed
  obtain err s1 w1 where b: "build K rq iface (s', w) = (err, s1, w1)" by (metis prod_cases3)
  with fails have "err" by blast
  with b none show ?thesis by (simp add: build_claimed_def)
qed

section \<open>Witnesses\<close>

text \<open>The daemon started on the reader's sample file: one interface, one rule, a file for UDP.\<close>

definition sample_shape :: "ff_options \<Rightarrow> bool" where
  "sample_shape op \<longleftrightarrow> o_devices op = [\<lparr>d_name = ''wan'', d_mode = FF_ETHERNET\<rparr>] \<and> length (o_rules op) = 1"

definition sample_start :: "string \<Rightarrow> bool" where
  "sample_start host \<longleftrightarrow> (case read_all 0 (rule_lines host) reader_start of Inl _ \<Rightarrow> False
     | Inr rd \<Rightarrow> (case finish rd of Inl _ \<Rightarrow> False
     | Inr op \<Rightarrow> (case ff_templates counting_source (sample_fs (rule_lines host)) op 0 of (Inl _, _) \<Rightarrow> False | (Inr op, _) \<Rightarrow> sample_shape op)))"

lemma sample_start_org: "sample_start ''a.org''"
  by code_simp

abbreviation "org_files \<equiv> sample_fs (rule_lines ''a.org'')"

lemma org_read:
  obtains op rs' where "ff_config_read counting_source org_files ''/c'' 0 = (Inr op, rs')" "sample_shape op"
proof -
  from sample_start_org obtain rd op1 op rs' where r: "read_all 0 (rule_lines ''a.org'') reader_start = Inr rd" "finish rd = Inr op1"
    and t: "ff_templates counting_source org_files op1 0 = (Inr op, rs')" and s: "sample_shape op"
    unfolding sample_start_def by (auto split: sum.splits prod.splits)
  have f: "org_files ''/c'' = Some (string_bytes (text_of (rule_lines ''a.org'')))"
    by (simp add: sample_fs_def)
  have p: "list_all plain_line (rule_lines ''a.org'')" by (simp add: rule_lines_def plain_line_def quoted_def)
  show ?thesis
    by (rule that [OF _ s, of rs'])
      (simp only: ff_config_read_def f option.case bytes_string_bytes read_lines_text [OF p] r sum.case t)
qed

definition sample_attached :: "runtime \<Rightarrow> bool" where
  "sample_attached r \<longleftrightarrow> o_devices (rt_options r) = [\<lparr>d_name = ''wan'', d_mode = FF_ETHERNET\<rparr>] \<and>
     rt_index r = 3 # replicate 7 0 \<and> rt_epoch r = 1 \<and> rt_ingress r = True # replicate 7 False \<and>
     rt_attached r = [\<lparr>a_index = 3, a_point = BPF_TC_EGRESS, a_priority = 1, a_handle = 1, a_id = 7\<rparr>]"

lemma sample_refresh:
  assumes "o_devices op = [\<lparr>d_name = ''wan'', d_mode = FF_ETHERNET\<rparr>]"
  shows "\<exists>r w. refresh sample_host True (start_runtime op, empty_world) = (False, r, w) \<and> sample_attached r"
proof -
  have link: "ff_link sample_host n FF_ETHERNET e = (Some (3, 1500), e)" for n e
    by (simp add: ff_link_def sample_host_def right_type_def ARPHRD_ETHER_def)
  have av: "ff_priority_available sample_host n d e = (False, e)" for n d e
    by (simp add: ff_priority_available_def sample_host_def)
  have at: "attach_one sample_host 3 p n pr (r, w) = (False, r\<lparr>rt_attached := [\<lparr>a_index = 3, a_point = p, a_priority = pr, a_handle = 1, a_id = 7\<rparr>]\<rparr>, w)"
    if "rt_attached r = []" for p n pr r w
    using that by (simp add: attach_one_def ff_attach_def save_state_def sample_host_def FF_ATTACHED_MAX_def)
  have tcx: "attach_tcx sample_host i e = (True, e)" "interface_update sample_host k v m = (False, m(k \<mapsto> v))" for i e k v m
    by (simp_all add: sample_host_def)
  have "attach_device sample_host 0 n 3 (r, w) = (False, set_index 0 3 r'\<lparr>rt_epoch := rt_epoch r + 1, rt_generation := (rt_generation r')[0 := rt_epoch r + 1]\<rparr>, w)"
    if "rt_attached r = []" "r' = (set_index 0 3 (r\<lparr>rt_ingress := (rt_ingress r)[0 := True]\<rparr>))\<lparr>rt_attached := [\<lparr>a_index = 3, a_point = BPF_TC_EGRESS, a_priority = 1, a_handle = 1, a_id = 7\<rparr>]\<rparr>"
    for n r r' w
    using that by (simp add: attach_device_def Let_def av tcx at set_index_def)
  note ad = this [OF _ refl]
  have fg: "forget_index H 0 s = s" for H :: "u64 host" and s by (simp add: forget_index_def split: prod.split)
  show ?thesis
    by (simp add: refresh_def assms refresh_device_def start_runtime_def link fg ad tcx set_index_def sample_attached_def numeral_eq_Suc)
qed

lemma sample_bring_up:
  obtains op rs1 r w rs where "ff_config_read counting_source org_files ''/c'' 0 = (Inr op, rs1)" "sample_shape op"
    "bring_up sample_host counting_source ''/run/fakeflow'' (start_runtime op, empty_world, rs1) = Some (False, r, w, rs)"
    "configuration w = Some (published_config 1 op)" "rt_config_gen r = 1" "sample_attached r"
proof -
  obtain op rs1 where rd: "ff_config_read counting_source org_files ''/c'' 0 = (Inr op, rs1)" and sh: "sample_shape op"
    by (rule org_read)
  note acc = ff_config_read_accepted [OF rd]
  note fit = rendered_plans_fit [OF acc(2)]
  let ?r0 = "start_runtime op"
  obtain r1 w1 where rf: "refresh sample_host True (?r0, empty_world) = (False, r1, w1)" and at1: "sample_attached r1"
    using sample_refresh sh unfolding sample_shape_def by blast
  note m = refresh_maintains [OF rf, unfolded maintains_def fst_conv snd_conv]
  have opt: "rt_options ?r0 = op" "rt_config_gen ?r0 = 0" by (simp_all add: start_runtime_def)
  have empty: "m_configs empty_world = Map.empty" "m_templates empty_world = Map.empty" by (simp_all add: empty_world_def)
  have st: "store_ok (rt_config_gen r1) w1"
    using m empty_store_ok [OF empty] opt store_ok_same [of empty_world w1] by simp
  moreover have "rt_config_gen r1 < last_generation" using m opt by (simp add: last_generation_def word_less_nat_alt)
  ultimately obtain r2 w2 rs2 where p: "publish sample_host counting_source op (r1, w1, rs1) = Some (False, r2, w2, rs2)"
    using publish_succeeds_lemma [OF sample_host_sized _ fit counting_source_delivers] by blast
  define r3 where "r3 = r2\<lparr>rt_server := True, rt_socket := ''/run/fakeflow/control.sock''\<rparr>"
  obtain err w3 where le: "lease sample_host r3 True w2 = (err, w3)" by fastforce
  have "\<not> err" using le by (simp add: lease_def sample_host_def Let_def)
  moreover have so: "control_socket sample_host ''/run/fakeflow'' (r2, w2) = (False, r3, w2)"
    by (simp add: r3_def control_socket_def sample_host_def)
  ultimately have up: "bring_up sample_host counting_source ''/run/fakeflow'' (?r0, empty_world, rs1) = Some (False, r3, w3, rs2)"
    using rf p le m opt by (simp add: bring_up_def)
  have res: "configuration w2 = Some (published_config 1 op) \<and> rt_config_gen r2 = 1"
    using sized_host_maps [OF sample_host_sized] st fit p
    by (rule publish_cases) (use m opt in \<open>simp_all add: configuration_def\<close>)
  moreover have "configuration w3 = configuration w2"
    using lease_maintains [OF le] by (simp add: maintains_def same_store_def configuration_def cong: option.case_cong)
  moreover have "sample_attached r3" "rt_config_gen r3 = rt_config_gen r2"
    using publish_result [OF sized_host_maps [OF sample_host_sized] st fit p] at1 sh
    by (simp_all add: r3_def sample_attached_def sample_shape_def)
  ultimately show ?thesis using that [OF rd sh up] by simp
qed

lemma start_runtime_fresh:
  "rt_config_gen (start_runtime op) = 0" "rt_options (start_runtime op) = op" "length (o_devices op) \<le> 8 \<Longrightarrow> arrays_ok (start_runtime op)"
  by (simp_all add: start_runtime_def arrays_ok_def)

lemma sample_reachable:
  obtains r w rs c where "reachable sample_host counting_source list_kern (r, w, rs)" "configuration w = Some c"
    "c_variants c ! 1 = 0" "rt_config_gen r = 1"
proof (rule sample_bring_up)
  fix op rs1 r w rs
  assume rd: "ff_config_read counting_source org_files ''/c'' 0 = (Inr op, rs1)" and sh: "sample_shape op"
    and up: "bring_up sample_host counting_source ''/run/fakeflow'' (start_runtime op, empty_world, rs1) = Some (False, r, w, rs)"
    and c: "configuration w = Some (published_config 1 op)" and gen: "rt_config_gen r = 1"
  have dev: "length (o_devices op) \<le> 8" using sh by (simp add: sample_shape_def)
  have empty: "m_configs empty_world = Map.empty" "m_templates empty_world = Map.empty" by (simp_all add: empty_world_def)
  have re: "reachable sample_host counting_source list_kern (r, w, rs)"
    by (rule started [OF _ _ start_runtime_fresh(3) [OF dev] empty up]) (use rd in \<open>simp_all add: start_runtime_fresh\<close>)
  have "plan_count op 1 = 0" using sh by (simp add: sample_shape_def plan_count_def plan_base_def rule_at_def zero_rule_def)
  with published_count [of 1 1 op] have "unat (c_variants (published_config 1 op) ! 1) = unat 0" by simp
  then have "c_variants (published_config 1 op) ! 1 = 0" by (simp only: word_unat_eq_iff)
  then show ?thesis using that [OF re c] gen by simp
qed

theorem daemon_invariant_witness:
  "\<exists>r w rs. reachable sample_host counting_source list_kern (r, w, rs) \<and> card (dom (m_templates w)) \<le> 384 \<and> configuration w \<noteq> None"
proof -
  obtain r w rs c where re: "reachable sample_host counting_source list_kern (r, w, rs)" by (rule sample_reachable)
  from daemon_invariant [OF sized_host_maps [OF sample_host_sized] list_kern_store re] re show ?thesis by blast
qed

theorem picked_template_published_witness:
  "\<exists>r w rs c t. reachable sample_host counting_source list_kern (r, w, rs) \<and> configuration w = Some c \<and>
     m_templates w (request_template_key (make_request sample_interface c False 1000 6 3 (pick_variant c 3 12345) syn_packet)) = Some t \<and> template_ok t"
proof -
  obtain r w rs c where re: "reachable sample_host counting_source list_kern (r, w, rs)" and c: "configuration w = Some c"
    by (rule sample_reachable)
  obtain rule w1 where n: "next_rule c w = (rule, w1)" by fastforce
  from picked_template_published [OF sized_host_maps [OF sample_host_sized] list_kern_store re c n, of 3 sample_interface False 1000 6 12345 syn_packet]
    re c show ?thesis by auto
qed

theorem unsent_rule_dropped_witness:
  "\<exists>r w rs c. reachable sample_host counting_source list_kern (r, w, rs) \<and> configuration w = Some c \<and>
     m_templates w (request_template_key (make_request sample_interface c False 1000 6 1 (pick_variant c 1 12345) syn_packet)) = None"
proof -
  obtain r w rs c where re: "reachable sample_host counting_source list_kern (r, w, rs)" and c: "configuration w = Some c"
    and v: "c_variants c ! 1 = 0"
    by (rule sample_reachable)
  from unsent_rule_dropped [OF sized_host_maps [OF sample_host_sized] list_kern_store re c, of 1, OF _ _ refl,
      of sample_interface False 1000 6 12345 syn_packet] v re c show ?thesis by auto
qed

end
