(* ===== verification/Revoke.thy ===== *)
theory Revoke
  imports Daemon
begin

text \<open>
  Attachments as numbers: each time the daemon attaches an interface it takes the next number, and
  a request carries the number of the attachment it was made under. No number in the daemon's
  table, in the map of interfaces or in a request is ever above the daemon's counter, so a request
  that is outstanding when its interface is attached anew is worth nothing afterwards.
\<close>

section \<open>The attachment a request was made under\<close>

text \<open>No request, and no interface, has a number above \<open>n\<close>.\<close>

definition issued_by :: "u32 \<Rightarrow> 'e world \<Rightarrow> bool" where
  "issued_by n w \<longleftrightarrow> (\<forall>j q. m_requests w j = Some q \<longrightarrow> rq_ifgen q \<le> n)"

definition attached_by :: "u32 \<Rightarrow> 'e world \<Rightarrow> bool" where
  "attached_by n w \<longleftrightarrow> (\<forall>k iface. m_interfaces w k = Some iface \<longrightarrow> i_generation iface \<le> n)"

lemma advances_ifgen: "advances r q \<Longrightarrow> rq_ifgen q = rq_ifgen r"
  unfolding advances_def by (metis ff_request.select_convs(4) ff_request.surjective ff_request.update_convs(2))

lemma issued_step:
  assumes "issued_by n w" and "\<And>j q. m_requests w' j = Some q \<Longrightarrow> rq_ifgen q \<le> n \<or> (\<exists>i r. m_requests w i = Some r \<and> advances r q)"
  shows "issued_by n w'"
  unfolding issued_by_def
proof (intro allI impI)
  fix j q assume "m_requests w' j = Some q"
  from assms(2) [OF this] show "rq_ifgen q \<le> n"
  proof
    assume "\<exists>i r. m_requests w i = Some r \<and> advances r q"
    then obtain i r where "m_requests w i = Some r" "advances r q" by blast
    with assms(1) advances_ifgen show ?thesis unfolding issued_by_def by metis
  qed
qed

lemma issued_same: "issued_by n w \<Longrightarrow> m_requests w' = m_requests w \<Longrightarrow> issued_by n w'"
  by (simp add: issued_by_def)

lemma emit_copy_issued:
  assumes K: "hash_insert (request_insert K)" "tame_clone K" and iface: "i_generation iface \<le> n" and ok: "issued_by n w"
    and run: "emit_copy K iface c reverse now ttl plan variant (s, w) = (s', w')"
  shows "issued_by n w'"
  using run
proof (cases rule: emit_copy_cases)
  case (full i w1 m)
  with hash_insertD(1) [OF K(1) full(2)] ok show ?thesis by (simp add: issued_by_def)
next
  case (sent i w1 m s2 e w2)
  let ?r = "make_request iface c reverse now ttl plan variant s"
  have m: "rq_ifgen r \<le> n" if "m j = Some r" for j r
    using that hash_insertD(3) [OF K(1) sent(2)] ok iface by (auto simp: issued_by_def make_request_def split: if_splits)
  show ?thesis unfolding issued_by_def
  proof (intro allI impI)
    fix j q assume "m_requests w' j = Some q"
    then have "m_requests w2 j = Some q" using sent(5) by (auto split: option.splits if_splits)
    with tame_cloneD(1) [OF K(2) sent(3), unfolded requests_advance_def] obtain r where "m j = Some r" "advances r q" by auto
    with m advances_ifgen show "rq_ifgen q \<le> n" by metis
  qed
qed

lemma emit_loop_issued:
  assumes K: "hash_insert (request_insert K)" "tame_clone K" and iface: "i_generation iface \<le> n"
  shows "issued_by n w \<Longrightarrow> emit_loop K iface c reverse now ttl plan variant i k (s, w) = (s', w') \<Longrightarrow> issued_by n w'"
proof (induction k arbitrary: i w)
  case (Suc k)
  from Suc.prems(2) show ?case
  proof (cases rule: emit_loop_step)
    case stop
    with Suc.prems(1) show ?thesis by (simp add: issued_by_def)
  next
    case (copy w1 w2)
    have "issued_by n w1" using Suc.prems(1) copy(3) by (simp add: issued_by_def)
    from Suc.IH [OF emit_copy_issued [OF K iface this copy(4)] copy(5)] show ?thesis .
  qed
qed simp

lemma emit_issued:
  assumes K: "hash_insert (request_insert K)" "tame_clone K" and iface: "i_generation iface \<le> n" and ok: "issued_by n w"
    and run: "emit K iface c reverse meta (s, w) = (s', w')"
  shows "issued_by n w'"
  using run
proof (cases rule: emit_cases)
  case quiet
  with ok show ?thesis by (simp add: issued_by_def)
next
  case (loop ttl plan variant w1)
  have "issued_by n w1" using ok loop(4) by (simp add: issued_by_def)
  from emit_loop_issued [OF K iface this loop(5)] show ?thesis .
qed

lemma observe_traffic_issued:
  assumes K: "hash_insert (request_insert K)" "tame_clone K" and at: "attached_by n w" and ok: "issued_by n w"
    and run: "observe_traffic K ing (s, w) = (s', w')"
  shows "issued_by n w'"
  using run
proof (cases rule: observe_traffic_cases)
  case (dead now w1)
  obtain live w2 where al: "alive now w1 = (live, w2)" by fastforce
  have "m_requests w1 = m_requests w" using ktime_frameD [OF dead(1)] by blast
  moreover have "m_requests w2 = m_requests w1" using alive_frameD [OF al] by blast
  moreover have "m_requests w' = m_requests w2" unfolding dead(4) al by simp
  ultimately have "m_requests w' = m_requests w" by simp
  from issued_same [OF ok this] show ?thesis .
next
  case ignored
  then have "m_requests w' = m_requests w" by (simp add: same_credentials_def)
  from issued_same [OF ok this] show ?thesis .
next
  case (observed iface c p now w1 out w2)
  have "same_credentials w w2"
    by (rule same_credentials_trans [OF observed(5) trigger_credentials [OF observed(6)]])
  then have "m_requests w2 = m_requests w" by (simp add: same_credentials_def)
  from issued_same [OF ok this] have ok2: "issued_by n w2" .
  show ?thesis
  proof (cases out)
    case None
    with observed(7) ok2 show ?thesis by simp
  next
    case (Some meta)
    have g: "i_generation iface \<le> n" using at observed(2) unfolding attached_by_def by blast
    obtain s3 w3 where e: "emit K iface c ing meta (s', w2) = (s3, w3)" by fastforce
    have "w' = w3" using observed(7) Some e by simp
    with emit_issued [OF K g ok2 e] show ?thesis by simp
  qed
qed

lemma observe_issued:
  assumes K: "hash_insert (request_insert K)" "tame_clone K" and at: "attached_by n w" and ok: "issued_by n w"
    and run: "observe K ing (s, w) = (v, s', w')"
  shows "issued_by n w'"
  using run
proof (cases rule: observe_traffic_path)
  case (own r)
  from own(5,1,2) show ?thesis
  proof (cases rule: pass_internal_cases)
    case stale
    with ok show ?thesis by simp
  next
    case passed
    have "m_requests w' = (m_requests w)(request_id s := None)" using passed(5) by (simp add: delete_request_def)
    with ok show ?thesis by (simp add: issued_by_def)
  qed
next
  case traffic
  from observe_traffic_issued [OF K at ok traffic(2)] show ?thesis .
qed

lemma builder_issued:
  assumes ok: "issued_by n w" and run: "ff_builder K (s, w) = (v, s', w')"
  shows "issued_by n w'"
proof (rule issued_step [OF ok])
  fix j q assume "m_requests w' j = Some q"
  from builder_others [OF run this] show "rq_ifgen q \<le> n \<or> (\<exists>i r. m_requests w i = Some r \<and> advances r q)" by blast
qed

lemma cross_issued:
  assumes K: "hash_insert (request_insert K)" "tame_clone K" and at: "attached_by n w" and ok: "issued_by n w"
    and run: "cross K x w = (v, s', w')"
  shows "issued_by n w'"
proof (cases x)
  case (AtBuilder s)
  with run builder_issued [OF ok] show ?thesis by simp
next
  case (AtIngress s)
  with run observe_issued [OF K at ok] show ?thesis by (simp add: ff_ingress_def)
next
  case (AtEgress s)
  with run observe_issued [OF K at ok] show ?thesis by (simp add: ff_egress_def)
qed

section \<open>Numbers only grow\<close>

text \<open>
  No number that has been handed out is above the daemon's counter: not the ones of its own table,
  not those of the interfaces, and not those the requests carry.
\<close>

definition revocable :: "runtime \<times> 'e world \<Rightarrow> bool" where
  "revocable = (\<lambda>(r, w). list_all (\<lambda>g. g \<le> rt_epoch r) (rt_generation r) \<and>
     attached_by (rt_epoch r) w \<and> issued_by (rt_epoch r) w)"

text \<open>A change of the daemon's state that attaches at most \<open>k\<close> times and leaves the requests alone.\<close>

definition ages :: "nat \<Rightarrow> runtime \<times> 'e world \<Rightarrow> runtime \<times> 'e world \<Rightarrow> bool" where
  "ages k a b \<longleftrightarrow> m_requests (snd b) = m_requests (snd a) \<and>
     (unat (rt_epoch (fst a)) + k < 2 ^ 32 \<longrightarrow>
       unat (rt_epoch (fst b)) \<le> unat (rt_epoch (fst a)) + k \<and> rt_epoch (fst a) \<le> rt_epoch (fst b) \<and>
       (revocable a \<longrightarrow> revocable b))"

lemma ages_refl [simp]: "ages k a a"
  by (simp add: ages_def)

lemma ages_trans: "ages j a b \<Longrightarrow> ages k b c \<Longrightarrow> ages (j + k) a c"
  by (auto simp: ages_def)

lemma ages_more: "ages j a b \<Longrightarrow> j \<le> k \<Longrightarrow> ages k a b"
  using ages_trans [of j a b "k - j" b] by simp

interpretation ageless: frame "ages 0"
  by unfold_locales (simp, use ages_trans [of 0 _ _ 0] in simp)

text \<open>Nothing is attached: the counter and the table stay, and interfaces at most go away.\<close>

lemma kept_ages:
  assumes "rt_epoch r' = rt_epoch r" and "rt_generation r' = rt_generation r" and "m_requests w' = m_requests w"
    and "\<And>k iface. m_interfaces w' k = Some iface \<Longrightarrow> m_interfaces w k = Some iface"
  shows "ages 0 (r, w) (r', w')"
proof -
  have "attached_by n w \<Longrightarrow> attached_by n w'" for n using assms(4) unfolding attached_by_def by blast
  moreover have "issued_by n w \<Longrightarrow> issued_by n w'" for n by (rule issued_same [OF _ assms(3)])
  ultimately show ?thesis using assms(1-3) by (simp add: ages_def revocable_def)
qed

lemma attach_one_kept:
  assumes "attach_one H idx p name prio (r, w) = (err, r', w')"
  shows "rt_epoch r' = rt_epoch r" "rt_generation r' = rt_generation r" "rt_index r' = rt_index r"
    "m_requests w' = m_requests w" "m_interfaces w' = m_interfaces w"
  using assms by (auto simp: attach_one_def save_state_def Let_def split: if_splits option.splits prod.splits)

lemma forget_index_kept:
  assumes "forget_index H idx (r, w) = (r', w')"
  shows "rt_epoch r' = rt_epoch r" "rt_generation r' = rt_generation r" "rt_index r' = rt_index r"
    "m_requests w' = m_requests w" "\<And>k iface. m_interfaces w' k = Some iface \<Longrightarrow> m_interfaces w k = Some iface"
  using assms by (auto simp: forget_index_def save_state_def Let_def split: if_splits prod.splits)

lemma forget_index_ages: "forget_index H idx (r, w) = (r', w') \<Longrightarrow> ages 0 (r, w) (set_index i j r', w')"
  by (rule kept_ages) (simp_all add: set_index_def forget_index_kept)

text \<open>Attaching succeeds with the next number, in the entry of the device, or leaves the table alone.\<close>

lemma attach_device_cases:
  assumes "attach_device H i name idx (r, w) = (err, r', w')"
  obtains (failed) "err" "ages 0 (r, w) (r', w')"
    | (attached) "\<not> err" "rt_epoch r' = rt_epoch r + 1" "rt_generation r' = (rt_generation r)[i := rt_epoch r + 1]"
        "rt_index r' = (rt_index r)[i := idx]" "m_requests w' = m_requests w" "m_interfaces w' = m_interfaces w"
proof -
  obtain taken e where av: "ff_priority_available H name ''egress'' (w_env w) = (taken, e)" by fastforce
  obtain ok e2 where tc: "attach_tcx H idx e = (ok, e2)" by fastforce
  let ?r = "set_index i idx (r\<lparr>rt_ingress := (rt_ingress r)[i := True]\<rparr>)" and ?w = "w\<lparr>w_env := e2\<rparr>"
  obtain err2 r2 w2 where at: "attach_one H idx BPF_TC_EGRESS ''ff_egress'' 1 (?r, ?w) = (err2, r2, w2)" by (metis prod_cases3)
  note k2 = attach_one_kept [OF at]
  obtain r3 w3 where fg: "forget_index H idx (r2, w2) = (r3, w3)" by fastforce
  note k3 = forget_index_kept [OF fg]
  have run: "attach_device H i name idx (r, w) =
      (if taken then (True, r, w\<lparr>w_env := e\<rparr>) else if \<not> ok then (True, r, ?w) else if err2 then (True, r3, w3)
       else (False, set_index i idx r2\<lparr>rt_epoch := rt_epoch r2 + 1, rt_generation := (rt_generation r2)[i := rt_epoch r2 + 1]\<rparr>, w2))"
    by (simp add: attach_device_def Let_def av tc at fg)
  have env: "ages 0 (r, w) (r, w\<lparr>w_env := x\<rparr>)" for x by (rule kept_ages) simp_all
  have gone: "ages 0 (r, w) (r3, w3)"
    by (rule kept_ages) (use k2 k3(1-4) k3(5) in \<open>simp_all add: set_index_def\<close>)
  show ?thesis
  proof (cases "taken \<or> \<not> ok \<or> err2")
    case True
    with run assms env gone show ?thesis by (intro failed) (auto split: if_splits)
  next
    case False
    with run assms k2 show ?thesis by (intro attached) (auto simp: set_index_def)
  qed
qed

lemma epoch_next: "unat (n :: u32) + 1 < 2 ^ 32 \<Longrightarrow> unat (n + 1) = unat n + 1 \<and> n < n + 1"
  by (simp add: word_less_nat_alt unat_word_ariths)

lemma attach_device_ages:
  assumes "attach_device H i name idx (r, w) = (err, r', w')"
  shows "ages 1 (r, w) (r', w')"
  using assms
proof (cases rule: attach_device_cases)
  case failed
  with ages_more [of 0 _ _ 1] show ?thesis by simp
next
  case attached
  have up: "revocable (r', w')" if ok: "revocable (r, w)" and n: "rt_epoch r < rt_epoch r + 1"
  proof -
    have le: "g \<le> rt_epoch r + 1" if "g \<le> rt_epoch r" for g using that n by simp
    have "\<forall>g \<in> set (rt_generation r). g \<le> rt_epoch r" using ok by (simp add: revocable_def list_all_iff)
    then have "\<forall>g \<in> set ((rt_generation r)[i := rt_epoch r + 1]). g \<le> rt_epoch r + 1"
      using le set_update_subset_insert [of "rt_generation r" i "rt_epoch r + 1"] by blast
    moreover have "attached_by (rt_epoch r + 1) w'" "issued_by (rt_epoch r + 1) w'"
      using ok le attached(5,6) unfolding revocable_def attached_by_def issued_by_def prod.case by metis+
    ultimately show ?thesis using attached(2,3) by (simp add: revocable_def list_all_iff)
  qed
  show ?thesis unfolding ages_def fst_conv snd_conv
    using attached(2,5) epoch_next [of "rt_epoch r"] up by (auto simp del: set_update_subset_insert)
qed

text \<open>One device: the index is forgotten where it has changed, then attached where it is free, then written.\<close>

lemma refresh_device_cases:
  assumes "refresh_device H initial i d (r, w) = (err, r', w')"
  obtains (absent) "ages 0 (r, w) (r', w')" "rt_epoch r' = rt_epoch r"
    | (failed) "err" "ages 1 (r, w) (r', w')"
    | (kept) mtu idx m w2 where "ages 0 (r, w) (r', w2)" "rt_epoch r' = rt_epoch r" "length (rt_generation r') = length (rt_generation r)"
        "interface_update H idx (interface_of r' i (d_mode d) mtu) (m_interfaces w2) = (err, m)" "w' = w2\<lparr>m_interfaces := m\<rparr>"
    | (attached) mtu idx m w2 where "ages 1 (r, w) (r', w2)" "rt_epoch r' = rt_epoch r + 1"
        "rt_generation r' = (rt_generation r)[i := rt_epoch r + 1]" "i < length (rt_index r) \<Longrightarrow> rt_index r' ! i = idx"
        "m_requests w2 = m_requests w"
        "interface_update H idx (interface_of r' i (d_mode d) mtu) (m_interfaces w2) = (err, m)" "w' = w2\<lparr>m_interfaces := m\<rparr>"
proof -
  obtain link e where li: "ff_link H (d_name d) (d_mode d) (w_env w) = (link, e)" by fastforce
  let ?w = "w\<lparr>w_env := e\<rparr>"
  define gone where "gone = (case link of None \<Rightarrow> True | Some (idx, mtu) \<Rightarrow> idx \<noteq> rt_index r ! i)"
  obtain r1 w1 where one: "(if gone then (case forget_index H (rt_index r ! i) (r, ?w) of (r, w) \<Rightarrow> (set_index i 0 r, w))
      else (r, ?w)) = (r1, w1)" by fastforce
  have env: "ages 0 (r, w) (r, ?w)" by (rule kept_ages) simp_all
  have r1: "ages 0 (r, w) (r1, w1) \<and> rt_epoch r1 = rt_epoch r \<and> rt_generation r1 = rt_generation r \<and>
      length (rt_index r1) = length (rt_index r) \<and> m_requests w1 = m_requests w"
  proof (cases gone)
    case True
    obtain r0 w0 where f: "forget_index H (rt_index r ! i) (r, ?w) = (r0, w0)" by fastforce
    note k = forget_index_kept(1-4) [OF f]
    have "ages 0 (r, w) (set_index i 0 r0, w0)" by (rule ageless.same_trans [OF env forget_index_ages [OF f]])
    with one f True k show ?thesis by (auto simp: set_index_def)
  next
    case False
    with one env show ?thesis by auto
  qed
  show ?thesis
  proof (cases link)
    case None
    with assms li one r1 show ?thesis by (intro absent) (auto simp: refresh_device_def Let_def gone_def)
  next
    case (Some l)
    obtain idx mtu where l: "l = (idx, mtu)" by fastforce
    obtain err2 r2 w2 where two: "(if rt_index r1 ! i = 0 then attach_device H i (d_name d) idx (r1, w1) else (False, r1, w1)) = (err2, r2, w2)"
      by (metis prod_cases3)
    obtain err3 m where iu: "interface_update H idx (interface_of r2 i (d_mode d) mtu) (m_interfaces w2) = (err3, m)" by fastforce
    have run: "(err, r', w') = (if err2 then (True, r2, w2) else (err3, r2, w2\<lparr>m_interfaces := m\<rparr>))"
      using assms li one two iu Some l by (cases err2) (auto simp: refresh_device_def Let_def gone_def)
    show ?thesis
    proof (cases "rt_index r1 ! i = 0")
      case False
      with two have "err2 = False" "r2 = r1" "w2 = w1" by simp_all
      with run r1 iu show ?thesis by (intro kept) auto
    next
      case True
      with two have at: "attach_device H i (d_name d) idx (r1, w1) = (err2, r2, w2)" by simp
      have age: "ages 1 (r, w) (r2, w2)" using ages_trans [OF conjunct1 [OF r1] attach_device_ages [OF at]] by simp
      from at show ?thesis
      proof (cases rule: attach_device_cases)
        case failed
        with run age show ?thesis by (intro that(2)) auto
      next
        case attached
        show ?thesis by (rule that(4) [of w2 idx mtu m]) (use run age attached r1 iu in auto)
      qed
    qed
  qed
qed

lemma map_updateD: "map_update upd \<Longrightarrow> upd k v m = (err, m') \<Longrightarrow> m' = (if err then m else m(k \<mapsto> v))"
  unfolding map_update_def by blast

lemma attached_by_update:
  assumes "map_update (interface_update H)" and "interface_update H idx iface (m_interfaces w) = (err, m)"
    and "attached_by n w" and "i_generation iface \<le> n"
  shows "attached_by n (w\<lparr>m_interfaces := m\<rparr>)"
  using map_updateD [OF assms(1,2)] assms(3,4) by (cases err) (auto simp: attached_by_def)

lemma interface_ages:
  assumes H: "map_update (interface_update H)"
    and up: "interface_update H idx (interface_of r' i mode mtu) (m_interfaces w2) = (err, m)"
    and i: "i < length (rt_generation r')" and age: "ages k (r, w) (r', w2)"
  shows "ages k (r, w) (r', w2\<lparr>m_interfaces := m\<rparr>)"
proof -
  have "revocable (r', w2\<lparr>m_interfaces := m\<rparr>)" if ok: "revocable (r', w2)"
  proof -
    have "rt_generation r' ! i \<le> rt_epoch r'" using ok i by (simp add: revocable_def list_all_length)
    then have "attached_by (rt_epoch r') (w2\<lparr>m_interfaces := m\<rparr>)"
      using ok by (intro attached_by_update [OF H up]) (simp_all add: revocable_def interface_of_def)
    with ok show ?thesis by (simp add: revocable_def issued_by_def)
  qed
  with age show ?thesis by (simp add: ages_def)
qed

lemma refresh_device_ages:
  assumes H: "map_update (interface_update H)" and i: "i < length (rt_generation r)"
    and run: "refresh_device H initial i d (r, w) = (err, r', w')"
  shows "ages 1 (r, w) (r', w')"
  using run
proof (cases rule: refresh_device_cases)
  case absent
  from ages_more [OF absent(1)] show ?thesis by simp
next
  case (kept mtu idx m w2)
  have "ages 0 (r, w) (r', w')" unfolding kept(5) by (rule interface_ages [OF H kept(4) _ kept(1)]) (use i kept(3) in simp)
  then show ?thesis by (rule ages_more) simp
next
  case (attached mtu idx m w2)
  show ?thesis unfolding attached(7) by (rule interface_ages [OF H attached(6) _ attached(1)]) (use i attached(3) in simp)
qed

lemma refresh_from_ages:
  assumes H: "map_update (interface_update H)"
  shows "refresh_from H initial i ds (r, w) = (err, r', w') \<Longrightarrow> arrays_ok r \<Longrightarrow> i + length ds \<le> 8 \<Longrightarrow>
    ages (length ds) (r, w) (r', w')"
proof (induction ds arbitrary: i r w)
  case (Cons d ds)
  obtain err1 r1 w1 where d: "refresh_device H initial i d (r, w) = (err1, r1, w1)" by (metis prod_cases3)
  have i: "i < length (rt_generation r)" using Cons.prems(2,3) by (simp add: arrays_ok_def)
  note one = refresh_device_ages [OF H i d]
  show ?case
  proof (cases err1)
    case True
    with Cons.prems(1) d one show ?thesis by (auto intro: ages_more)
  next
    case False
    with Cons.prems(1) d have run: "refresh_from H initial (i + 1) ds (r1, w1) = (err, r', w')" by simp
    have "arrays_ok r1" using refresh_device_maintains [OF d] Cons.prems(2) by (simp add: maintains_def)
    from ages_trans [OF one Cons.IH [OF run this]] Cons.prems(3) show ?thesis by simp
  qed
qed simp

lemma refresh_ages:
  assumes "map_update (interface_update H)" and "arrays_ok r" and "refresh H initial (r, w) = (err, r', w')"
  shows "ages 8 (r, w) (r', w')"
proof -
  have n: "length (o_devices (rt_options r)) \<le> 8" using assms(2) by (simp add: arrays_ok_def)
  have run: "refresh_from H initial 0 (o_devices (rt_options r)) (r, w) = (err, r', w')" using assms(3) by (simp add: refresh_def)
  have "ages (length (o_devices (rt_options r))) (r, w) (r', w')"
    by (rule refresh_from_ages [OF assms(1) run assms(2)]) (simp add: n)
  then show ?thesis by (rule ages_more) (rule n)
qed

lemma forget_device_ages: "ages 0 s (forget_device H i s)"
proof (cases s)
  case (Pair r w)
  obtain r1 w1 where f: "forget_index H (rt_index r ! i) (r, w) = (r1, w1)" by fastforce
  from forget_index_ages [OF f] show ?thesis by (simp add: Pair forget_device_def f)
qed

lemma link_deleted_ages: "ages 0 s (link_deleted H idx s)"
proof (cases s)
  case (Pair r w)
  show ?thesis unfolding link_deleted_def Pair prod.case
    by (rule ageless.fold_same) (auto simp: forget_device_ages split: prod.split)
qed

lemma events_lost_ages: "ages 0 s (events_lost H s)"
proof (cases s)
  case (Pair r w)
  show ?thesis unfolding events_lost_def Pair prod.case by (rule ageless.fold_same) (rule forget_device_ages)
qed

lemma lease_ages: "lease H r on w = (err, w') \<Longrightarrow> ages 0 (r, w) (r, w')"
  by (rule kept_ages) (auto simp: lease_def Let_def split: prod.splits)

lemma control_socket_ages: "control_socket H dir (r, w) = (err, r', w') \<Longrightarrow> ages 0 (r, w) (r', w')"
  by (rule kept_ages) (auto simp: control_socket_def Let_def split: prod.splits if_splits)

lemma reaped_ages: "ages 0 (r, w) (r, reaped gen w)"
  by (rule kept_ages) (simp_all add: reaped_def)

lemma publish_ages:
  assumes "host_maps H" and "store_ok (rt_config_gen r) w" and "plans_fit op"
    and "publish H G op (r, w, rs) = Some (err, r', w', rs')"
  shows "ages 0 (r, w) (r', w')"
  using assms
proof (cases rule: publish_cases)
  case failed
  with reaped_ages show ?thesis by auto
next
  case (published tss m')
  show ?thesis unfolding published(4,5) by (rule kept_ages) (simp_all add: reaped_def)
qed

section \<open>The daemon and the programs keep the numbers in order\<close>

text \<open>A step of the daemon or of the programs while fewer than \<open>2 ^ 32 - 8\<close> attachments were made.\<close>

definition early_step ::
  "'e host \<Rightarrow> 'r random \<Rightarrow> 'e kern \<Rightarrow> runtime \<times> 'e world \<times> 'r \<Rightarrow> runtime \<times> 'e world \<times> 'r \<Rightarrow> bool" where
  "early_step H G K a b \<longleftrightarrow> daemon_step H G K a b \<and> unat (rt_epoch (fst a)) + 8 < 2 ^ 32"

abbreviation early_steps where "early_steps H G K \<equiv> (early_step H G K)\<^sup>*\<^sup>*"

definition in_order :: "runtime \<times> 'e world \<times> 'r \<Rightarrow> bool" where
  "in_order = (\<lambda>(r, w, rs). daemon_ok (r, w, rs) \<and> revocable (r, w))"

text \<open>What is asked of the host's maps and of the kernel's helpers.\<close>

definition orderly :: "'e host \<Rightarrow> 'e kern \<Rightarrow> bool" where
  "orderly H K \<longleftrightarrow> host_maps H \<and> map_update (interface_update H) \<and>
     store_clone K \<and> hash_insert (request_insert K) \<and> tame_clone K"

lemma orderlyD:
  assumes "orderly H K"
  shows "host_maps H" "map_update (interface_update H)" "store_clone K" "hash_insert (request_insert K)" "tame_clone K"
  using assms by (simp_all add: orderly_def)

lemma agesD: "ages k a b \<Longrightarrow> unat (rt_epoch (fst a)) + k < 2 ^ 32 \<Longrightarrow> revocable a \<Longrightarrow> revocable b"
  by (simp add: ages_def)

lemma reload_ages:
  assumes H: "host_maps H" and ok: "daemon_ok (r, w, rs)"
    and run: "reload H G files path (r, w, rs) = Some (res, r', w', rs')"
  shows "ages 0 (r, w) (r', w')"
proof -
  obtain out rs1 where rd: "ff_config_read G files path rs = (out, rs1)" by fastforce
  show ?thesis
  proof (cases "\<exists>op. out = Inr op \<and> same_layout (rt_options r) op")
    case False
    with run rd have "r' = r \<and> w' = w" by (auto simp: reload_def split: sum.splits)
    then show ?thesis by simp
  next
    case True
    then obtain op where op: "out = Inr op" "same_layout (rt_options r) op" by blast
    note ren = ff_config_read_accepted(2) [OF rd [unfolded op(1)]]
    from run rd op obtain err where p: "publish H G op (r, w, rs1) = Some (err, r', w', rs')"
      by (auto simp: reload_def split: Option.bind_splits)
    have "store_ok (rt_config_gen r) w" using ok by (simp add: daemon_ok_def)
    from publish_ages [OF H this rendered_plans_fit [OF ren] p] show ?thesis .
  qed
qed

lemma crossing_revocable:
  assumes K: "store_clone K" "hash_insert (request_insert K)" "tame_clone K"
    and ok: "revocable (r, w)" and run: "cross K x w = (v, s, w')"
  shows "revocable (r, w')"
proof -
  have at: "attached_by (rt_epoch r) w" "issued_by (rt_epoch r) w" using ok by (simp_all add: revocable_def)
  have "m_interfaces w' = m_interfaces w" using cross_store [OF K(1), of w x] run by (simp add: same_published_def)
  then have "attached_by (rt_epoch r) w'" using at(1) by (simp add: attached_by_def)
  with cross_issued [OF K(2,3) at run] ok show ?thesis by (simp add: revocable_def)
qed

lemma daemon_step_ages:
  assumes H: "host_maps H" "map_update (interface_update H)" and ok: "daemon_ok (r, w, rs)"
    and step: "daemon_step H G K (r, w, rs) (r', w', rs')"
  obtains "ages 8 (r, w) (r', w')" | x v s where "r' = r" "cross K x w = (v, s, w')"
  using step
proof cases
  case (reloads files path res)
  from ages_more [OF reload_ages [OF H(1)]] reloads ok show ?thesis by (intro that(1)) auto
next
  case reaps
  have st: "store_ok (rt_config_gen r) w" using ok by (simp add: daemon_ok_def)
  have "reap_configs H r w = Some (reaped (rt_config_gen r) w)"
    unfolding reap_configs_def by (rule reap_loop_reaped) (use H(1) store_okD(2) [OF st] in \<open>simp_all add: host_maps_def\<close>)
  with reaps ages_more [OF reaped_ages] show ?thesis by (intro that(1)) auto
next
  case leases
  with ages_more [OF lease_ages] show ?thesis by (intro that(1)) auto
next
  case refreshes
  have "arrays_ok r" using ok by (simp add: daemon_ok_def)
  with refreshes refresh_ages [OF H(2)] show ?thesis by (intro that(1)) auto
next
  case (unlinks idx)
  then have "ages 8 (r, w) (r', w')" using ages_more [OF link_deleted_ages [of "(r, w)" H idx]] by simp
  then show ?thesis by (rule that(1))
next
  case loses
  then have "ages 8 (r, w) (r', w')" using ages_more [OF events_lost_ages [of "(r, w)" H]] by simp
  then show ?thesis by (rule that(1))
next
  case (outside e)
  have "ages 0 (r, w) (r, w\<lparr>w_env := e\<rparr>)" by (rule kept_ages) simp_all
  then have "ages 8 (r, w) (r', w')" using outside ages_more [of 0 "(r, w)" _ 8] by simp
  then show ?thesis by (rule that(1))
next
  case crosses
  then show ?thesis by (intro that(2)) auto
qed

lemma early_step_in_order:
  assumes P: "orderly H K" and ok: "in_order a" and step: "early_step H G K a b"
  shows "in_order b"
proof (cases a; cases b)
  fix r w rs r' w' rs' assume a: "a = (r, w, rs)" and b: "b = (r', w', rs')"
  note P = orderlyD [OF P]
  have dk: "daemon_ok (r, w, rs)" and rev: "revocable (r, w)" using ok by (simp_all add: a in_order_def)
  have st: "daemon_step H G K (r, w, rs) (r', w', rs')" and n: "unat (rt_epoch r) + 8 < 2 ^ 32"
    using step by (simp_all add: a b early_step_def)
  have "revocable (r', w')"
    using P(1,2) dk st
  proof (cases rule: daemon_step_ages)
    case 1
    from agesD [OF this] n rev show ?thesis by simp
  next
    case (2 x v s)
    from crossing_revocable [OF P(3-5) rev 2(2)] show ?thesis unfolding 2(1) .
  qed
  with daemon_step_ok [OF P(1,3) dk st] show ?thesis by (simp add: b in_order_def)
qed

interpretation ordered: preserved "early_step H G K" "\<lambda>s. orderly H K \<longrightarrow> in_order s" for H G K
  by unfold_locales (use early_step_in_order in blast)

lemma early_steps_in_order: "orderly H K \<Longrightarrow> in_order a \<Longrightarrow> early_steps H G K a b \<Longrightarrow> in_order b"
  using ordered.steps by blast

text \<open>A daemon starts in order: its counter and its table are zero, and no request is outstanding.\<close>

lemma bring_up_in_order:
  assumes P: "orderly H K" and opts: "accepted (rt_options r)" "rendered files (rt_options r)"
    and init: "rt_config_gen r = 0" "arrays_ok r" "m_configs w = Map.empty" "m_templates w = Map.empty"
    and zero: "rt_epoch r = 0" "rt_generation r = replicate 8 0" "m_requests w = Map.empty" "m_interfaces w = Map.empty"
    and run: "bring_up H G dir (r, w, rs) = Some (False, s)"
  shows "in_order s"
proof -
  note P = orderlyD [OF P]
  have dk: "daemon_ok s" by (rule bring_up_ok [OF P(1) opts init run])
  from run obtain r1 w1 r2 w2 rs2 r3 w3 where rf: "refresh H True (r, w) = (False, r1, w1)"
    and p: "publish H G (rt_options r1) (r1, w1, rs) = Some (False, r2, w2, rs2)"
    and so: "control_socket H dir (r2, w2) = (False, r3, w3)" and s: "s = (r3, snd (lease H r3 True w3), rs2)"
    by (rule bring_up_cases)
  note m = refresh_maintains [OF rf, unfolded maintains_def fst_conv snd_conv]
  have "same_store w w1" and opt1: "rt_options r1 = rt_options r" and gen: "rt_config_gen r1 = 0"
    using m init by simp_all
  then have st: "store_ok (rt_config_gen r1) w1" using empty_store_ok [OF init(3,4)] by (simp add: store_ok_same)
  have fit: "plans_fit (rt_options r1)" using rendered_plans_fit [OF opts(2)] by (simp add: opt1)
  note 1 = refresh_ages [OF P(2) init(2) rf]
  note 2 = publish_ages [OF P(1) st fit p]
  have 3: "ages 0 (r2, w2) (r3, snd (lease H r3 True w3))"
    by (rule ageless.same_trans [OF control_socket_ages [OF so] lease_ages [of H r3 True w3 "fst (lease H r3 True w3)"]]) simp
  have 4: "ages 8 (r, w) (r3, snd (lease H r3 True w3))" using ages_trans [OF ages_trans [OF 1 2] 3] by simp
  have "revocable (r, w)" by (simp add: revocable_def zero attached_by_def issued_by_def list_all_iff)
  with agesD [OF 4] zero(1) have "revocable (r3, snd (lease H r3 True w3))" by simp
  with dk show ?thesis by (simp add: in_order_def s)
qed

section \<open>Attached anew\<close>

lemma builder_revoked:
  assumes q: "m_requests w (request_id s) = Some q" and iface: "m_interfaces w (rq_ifindex q) = Some iface"
    and old: "i_generation iface \<noteq> rq_ifgen q"
  shows "fst (ff_builder K (s, w)) = TC_ACT_SHOT"
proof -
  obtain now w1 where kt: "ktime K w = (now, w1)" by fastforce
  note k = ktime_frameD [OF kt]
  obtain live w2 where al: "alive now w1 = (live, w2)" by fastforce
  have "m_interfaces w2 = m_interfaces w" using alive_frameD [OF al] k by metis
  moreover have "m_requests w1 (request_id s) = Some q" using k q by metis
  ultimately show ?thesis using iface old
    by (simp add: ff_builder_def kt valid_request_def al)
qed

lemma egress_revoked:
  assumes q: "m_requests w (request_id s) = Some q" "rq_state q = 2" "sk_ifindex s = rq_ifindex q"
    and iface: "m_interfaces w (rq_ifindex q) = Some iface" and old: "i_generation iface \<noteq> rq_ifgen q"
  shows "fst (ff_egress K (s, w)) = TC_ACT_SHOT"
  using assms by (simp add: ff_egress_def observe_def pass_internal_def)

text \<open>
  Property C5. Attaching an interface anew revokes every request that is outstanding for it: in any state
  the daemon and the programs reach, in any order of their steps, once a refresh has attached the device
  again, a request made under the old attachment carries a smaller number than the interface, so the
  builder drops its clone, and the egress hook drops a packet that was already built from it.
\<close>
theorem reattach_revokes:
  assumes P: "orderly H K" and start: "in_order s0" and run: "early_steps H G K s0 (r, w, rs)"
    and room: "unat (rt_epoch r) + 1 < 2 ^ 32" and i: "i < length (o_devices (rt_options r))"
    and refresh: "refresh_device H initial i d (r, w) = (False, r', w')" and fresh: "rt_epoch r' \<noteq> rt_epoch r"
    and q: "m_requests w' (request_id s) = Some q" "rq_ifindex q = rt_index r' ! i"
  shows "(\<exists>iface. m_interfaces w' (rq_ifindex q) = Some iface \<and> rq_ifgen q < i_generation iface) \<and>
    fst (ff_builder K (s, w')) = TC_ACT_SHOT \<and>
    (rq_state q = 2 \<and> sk_ifindex s = rq_ifindex q \<longrightarrow> fst (ff_egress K (s, w')) = TC_ACT_SHOT)"
proof -
  from early_steps_in_order [OF P start run] have arr: "arrays_ok r" and rev: "revocable (r, w)"
    by (simp_all add: in_order_def daemon_ok_def)
  from refresh fresh obtain idx mtu m w2 where gen: "rt_generation r' = (rt_generation r)[i := rt_epoch r + 1]"
    and idx: "i < length (rt_index r) \<Longrightarrow> rt_index r' ! i = idx" and same: "m_requests w2 = m_requests w"
    and up: "interface_update H idx (interface_of r' i (d_mode d) mtu) (m_interfaces w2) = (False, m)"
    and w': "w' = w2\<lparr>m_interfaces := m\<rparr>"
    by (cases rule: refresh_device_cases) auto
  have len: "i < length (rt_index r)" "i < length (rt_generation r)" using arr i by (simp_all add: arrays_ok_def)
  have m: "m = (m_interfaces w2)(idx \<mapsto> interface_of r' i (d_mode d) mtu)"
    using map_updateD [OF orderlyD(2) [OF P] up] by simp
  have iface: "m_interfaces w' (rq_ifindex q) = Some (interface_of r' i (d_mode d) mtu)"
    using q(2) idx len by (simp add: w' m)
  have "m_requests w (request_id s) = Some q" using q(1) same by (simp add: w')
  then have "rq_ifgen q \<le> rt_epoch r" using rev by (simp add: revocable_def issued_by_def)
  also have "rt_epoch r < rt_epoch r + 1" using epoch_next [OF room] by blast
  finally have less: "rq_ifgen q < i_generation (interface_of r' i (d_mode d) mtu)"
    using gen len by (simp add: interface_of_def)
  then have old: "i_generation (interface_of r' i (d_mode d) mtu) \<noteq> rq_ifgen q" by auto
  show ?thesis using iface less builder_revoked [OF q(1) iface old] egress_revoked [OF q(1) _ _ iface old] by blast
qed

section \<open>Witness\<close>

text \<open>
  The sample daemon, with a request built before; its interface goes away and comes back.
\<close>

lemma sample_orderly: "orderly sample_host list_kern"
  using sized_host_maps [OF sample_host_sized] by (simp add: orderly_def list_kern_simps map_update_def sample_host_def)

lemma replicate_eight: "replicate 8 x = [x, x, x, x, x, x, x, x]" "replicate 7 x = [x, x, x, x, x, x, x]"
  by (simp_all add: numeral_eq_Suc)

lemma sample_unlinked:
  assumes "sample_attached r"
  obtains r1 where "link_deleted sample_host 3 (r, w) = (r1, w\<lparr>m_interfaces := (m_interfaces w)(3 := None)\<rparr>)"
    "o_devices (rt_options r1) = o_devices (rt_options r)" "rt_index r1 = replicate 8 0" "rt_attached r1 = []"
    "rt_epoch r1 = 1" "rt_ingress r1 = replicate 8 False"
proof
  show "link_deleted sample_host 3 (r, w) = (r\<lparr>rt_attached := [], rt_ingress := replicate 8 False, rt_index := replicate 8 0\<rparr>,
      w\<lparr>m_interfaces := (m_interfaces w)(3 := None)\<rparr>)"
    using assms
    by (simp add: sample_attached_def link_deleted_def forget_device_def forget_index_def set_index_def save_state_def
        drop_filters.simps ff_detach_def sample_host_def replicate_eight Let_def)
qed (use assms in \<open>simp_all add: sample_attached_def\<close>)

lemma sample_reattached:
  assumes "o_devices (rt_options r) = [d]" "d_mode d = FF_ETHERNET" "rt_index r = replicate 8 0" "rt_attached r = []" "rt_epoch r = 1"
  obtains r' w' where "refresh_device sample_host False 0 d (r, w) = (False, r', w')" "rt_epoch r' = 2"
    "rt_index r' ! 0 = 3" "m_requests w' = m_requests w"
proof -
  have "\<exists>r' w'. refresh_device sample_host False 0 d (r, w) = (False, r', w') \<and> rt_epoch r' = 2 \<and>
      rt_index r' ! 0 = 3 \<and> m_requests w' = m_requests w"
    using assms
    by (simp add: refresh_device_def forget_index_def attach_device_def ff_link_def ff_priority_available_def attach_one_def
        ff_attach_def save_state_def set_index_def sample_host_def right_type_def ARPHRD_ETHER_def FF_ATTACHED_MAX_def Let_def)
  with that show ?thesis by blast
qed

abbreviation "late_packet \<equiv> syn_packet\<lparr>sk_cb0 := 5\<rparr>"

theorem reattach_revokes_witness:
  "\<exists>r w rs r1 w1 d r' w'. in_order (r, w, rs) \<and> m_requests w 5 = Some old_request \<and>
     early_steps sample_host counting_source list_kern (r, w, rs) (r1, w1, rs) \<and>
     refresh_device sample_host False 0 d (r1, w1) = (False, r', w') \<and>
     fst (ff_builder list_kern (late_packet, w')) = TC_ACT_SHOT \<and> fst (ff_egress list_kern (late_packet, w')) = TC_ACT_SHOT"
proof (rule sample_bring_up)
  fix op rs1 r w0 rs
  assume rd: "ff_config_read counting_source org_files ''/c'' 0 = (Inr op, rs1)" and sh: "sample_shape op"
    and up: "bring_up sample_host counting_source ''/run/fakeflow'' (start_runtime op, empty_world, rs1) = Some (False, r, w0, rs)"
    and at: "sample_attached r"
  let ?w = "w0\<lparr>m_requests := [5 \<mapsto> old_request]\<rparr>"
  have dev: "length (o_devices op) \<le> 8" using sh by (simp add: sample_shape_def)
  note acc = ff_config_read_accepted [OF rd]
  have "in_order (r, w0, rs)"
    by (rule bring_up_in_order [OF sample_orderly _ _ start_runtime_fresh(1) start_runtime_fresh(3) [OF dev] _ _ _ _ _ _ up])
      (use acc in \<open>simp_all add: start_runtime_def empty_world_def\<close>)
  then have start: "in_order (r, ?w, rs)" using at
    by (simp add: in_order_def daemon_ok_def store_ok_def usable_store_def published_def revocable_def attached_by_def
        issued_by_def sample_attached_def old_request_def)
  obtain r1 where l: "link_deleted sample_host 3 (r, ?w) = (r1, ?w\<lparr>m_interfaces := (m_interfaces w0)(3 := None)\<rparr>)" (is "_ = (_, ?w1)")
    and r1: "o_devices (rt_options r1) = o_devices (rt_options r)" "rt_index r1 = replicate 8 0" "rt_attached r1 = []" "rt_epoch r1 = 1"
    using sample_unlinked [OF at, of ?w] by auto
  have step: "early_steps sample_host counting_source list_kern (r, ?w, rs) (r1, ?w1, rs)"
    by (rule r_into_rtranclp) (use unlinks [OF l] at in \<open>simp add: early_step_def sample_attached_def\<close>)
  obtain d where d: "o_devices (rt_options r1) = [d]" "d_mode d = FF_ETHERNET" using at r1(1) by (simp add: sample_attached_def)
  obtain r' w' where re: "refresh_device sample_host False 0 d (r1, ?w1) = (False, r', w')" "rt_epoch r' = 2" "rt_index r' ! 0 = 3"
    and w': "m_requests w' = m_requests ?w1"
    by (rule sample_reattached [OF d r1(2-4)])
  have q: "m_requests w' (request_id late_packet) = Some old_request" by (simp add: w' request_id_def syn_packet_def)
  have "unat (rt_epoch r1) + 1 < 2 ^ 32" "0 < length (o_devices (rt_options r1))" "rt_epoch r' \<noteq> rt_epoch r1"
    "rq_ifindex old_request = rt_index r' ! 0" "rq_state old_request = 2 \<and> sk_ifindex late_packet = rq_ifindex old_request"
    using r1(4) d(1) re(2,3) by (simp_all add: old_request_def syn_packet_def)
  from reattach_revokes [OF sample_orderly start step this(1,2) re(1) this(3) q this(4)] this(5)
  have "fst (ff_builder list_kern (late_packet, w')) = TC_ACT_SHOT \<and> fst (ff_egress list_kern (late_packet, w')) = TC_ACT_SHOT" by blast
  with start step re(1) show ?thesis by (intro exI conjI) (assumption | simp)+
qed

end
