(* ===== verification/Entry.thy ===== *)
theory Entry
  imports Loop
begin

text \<open>
  \<open>ebpf/user/main.c\<close>, the command line, and the daemon's log stream of
  \<open>ebpf/user/lifecycle.c\<close>. What a command line asks for is a value of \<open>action\<close>; running it is the
  matter of the other parts. \<open>realpath\<close> is a parameter.
\<close>

section \<open>The log stream\<close>

definition FF_LOG_ERROR :: int where "FF_LOG_ERROR = 0"
definition FF_LOG_WARN :: int where "FF_LOG_WARN = 1"
definition FF_LOG_INFO :: int where "FF_LOG_INFO = 2"
definition FF_LOG_DEBUG :: int where "FF_LOG_DEBUG = 3"

lemmas log_levels = FF_LOG_ERROR_def FF_LOG_WARN_def FF_LOG_INFO_def FF_LOG_DEBUG_def

record log =
  log_limit :: int
  log_active :: bool

definition log_start :: log where
  "log_start = \<lparr>log_limit = FF_LOG_DEBUG, log_active = False\<rparr>"

definition ff_log_set :: "int \<Rightarrow> log" where
  "ff_log_set level = \<lparr>log_limit = (let level = (if level < FF_LOG_ERROR then FF_LOG_ERROR else level) in
     if FF_LOG_DEBUG < level then FF_LOG_DEBUG else level), log_active = True\<rparr>"

text \<open>The lines of a text that are not empty; each is written with its own stamp and level.\<close>

fun log_lines :: "string \<Rightarrow> string \<Rightarrow> string list" where
  "log_lines line [] = (if line = [] then [] else [line])"
| "log_lines line (c # cs) =
     (if c = CHR 0x0A then (if line = [] then [] else [line]) @ log_lines [] cs else log_lines (line @ [c]) cs)"

definition ff_log_names :: "string list" where
  "ff_log_names = [''ERROR'', ''WARN'', ''INFO'', ''DEBUG'']"

definition pad5 :: "string \<Rightarrow> string" where
  "pad5 s = s @ replicate (5 - length s) CHR '' ''"

definition ff_log :: "log \<Rightarrow> int \<Rightarrow> string \<Rightarrow> string \<Rightarrow> string list" where
  "ff_log l level stamp msg =
     (if log_limit l < level then []
      else map (\<lambda>line. stamp @ '' '' @ pad5 (ff_log_names ! nat level) @ '' '' @ line) (log_lines [] (take 2047 msg)))"

section \<open>The command line\<close>

record args =
  g_config :: string
  g_object :: string
  g_runtime :: string
  g_logfile :: string
  g_explicit :: bool
  g_level :: int

text \<open>\<open>FF_RUNTIME_DIR\<close> is as the source defines it when the build does not.\<close>

definition default_args :: args where
  "default_args = \<lparr>g_config = ''/etc/fakeflow.toml'', g_object = ''/usr/lib/fakeflow/fakeflow.bpf.o'',
     g_runtime = ''/run/fakeflow'', g_logfile = [], g_explicit = False, g_level = FF_LOG_DEBUG\<rparr>"

definition log_level :: "string \<Rightarrow> int option" where
  "log_level l =
     (if l = ''error'' then Some FF_LOG_ERROR else if l = ''warn'' then Some FF_LOG_WARN
      else if l = ''info'' then Some FF_LOG_INFO else if l = ''debug'' then Some FF_LOG_DEBUG else None)"

definition set_arg :: "string \<Rightarrow> string \<Rightarrow> args \<Rightarrow> args option" where
  "set_arg name v g =
     (if name = ''--config'' then Some (g\<lparr>g_config := v, g_explicit := True\<rparr>)
      else if name = ''--object'' then Some (g\<lparr>g_object := v\<rparr>)
      else if name = ''--runtime-dir'' then Some (g\<lparr>g_runtime := v\<rparr>)
      else if name = ''--log-file'' then Some (g\<lparr>g_logfile := v\<rparr>)
      else if name = ''--log-level'' then map_option (\<lambda>l. g\<lparr>g_level := l\<rparr>) (log_level v)
      else None)"

text \<open>\<open>None\<close> is a jump to \<open>usage\<close>.\<close>

fun parse_args :: "string list \<Rightarrow> args \<Rightarrow> args option" where
  "parse_args [] g = Some g"
| "parse_args [name] g = (if name = ''--json'' then Some g else None)"
| "parse_args (name # v # rest) g =
     (if name = ''--json'' then parse_args (v # rest) g
      else Option.bind (set_arg name v g) (parse_args rest))"

datatype action =
    Usage
  | Run args
  | Check string
  | Validate string
  | Client string string
  | Fail

definition ff_main :: "(string \<Rightarrow> string option) \<Rightarrow> string list \<Rightarrow> action" where
  "ff_main realpath argv =
     (case argv of
        [] \<Rightarrow> Usage
      | cmd # rest \<Rightarrow>
     (case parse_args rest default_args of
        None \<Rightarrow> Usage
      | Some g \<Rightarrow>
          if cmd = ''run'' then Run g
          else if cmd = ''check'' then Check (g_config g)
          else if cmd = ''validate'' then Validate (g_config g)
          else if cmd = ''status'' \<or> cmd = ''stats'' \<or> cmd = ''reload'' \<or> cmd = ''stop'' then
            if cmd = ''reload'' \<and> g_explicit g then
              (case realpath (g_config g) of
                 None \<Rightarrow> Fail
               | Some absolute \<Rightarrow>
                   if 1100 \<le> length (''reload '' @ absolute) then Fail
                   else Client (g_runtime g) (''reload '' @ absolute))
            else Client (g_runtime g) cmd
          else Usage))"

text \<open>The exit status and the line of \<open>validate\<close>.\<close>

definition rule_report :: "nat \<Rightarrow> ff_rule \<Rightarrow> string" where
  "rule_report i r = (if r_enabled r = 0 then [] else
     '' TCP rule '' @ decimal (i + 1) @ '' ('' @ r_type r @ '') '' @ decimal (unat (t_len (r_tpl r))) @ '' B,'')"

definition validate_report :: "ff_options \<Rightarrow> string" where
  "validate_report op = ''Configuration valid;'' @
     concat (map (\<lambda>i. rule_report i (o_rules op ! i)) [0..<length (o_rules op)]) @
     '' UDP template '' @ decimal (unat (t_len (o_udp_template op))) @ '' B'' @ [CHR 0x0A]"

section \<open>What the client sends is what the daemon reads\<close>

lemma parse_level: "parse_args rest g = Some g' \<Longrightarrow> 0 \<le> g_level g \<Longrightarrow> g_level g \<le> 3 \<Longrightarrow> 0 \<le> g_level g' \<and> g_level g' \<le> 3"
proof (induction rest g rule: parse_args.induct)
  case (3 name v rest g)
  show ?case
  proof (cases "name = ''--json''")
    case True
    then show ?thesis using "3.IH"(1) "3.prems" by simp
  next
    case False
    with "3.prems"(1) obtain g1 where s: "set_arg name v g = Some g1" and p: "parse_args rest g1 = Some g'"
      by (auto split: Option.bind_splits)
    have "0 \<le> g_level g1 \<and> g_level g1 \<le> 3"
      using s "3.prems"(2,3) unfolding set_arg_def log_level_def
      by (auto simp: log_levels split: if_splits)
    then show ?thesis using "3.IH"(2) [OF False s p] by simp
  qed
qed (auto split: if_splits)

text \<open>A log level given on the command line is the limit that is set.\<close>

lemma run_level:
  assumes "ff_main realpath argv = Run g"
  shows "log_limit (ff_log_set (g_level g)) = g_level g"
proof -
  obtain rest where "parse_args rest default_args = Some g"
  proof (cases argv)
    case Nil
    with assms show ?thesis by (simp add: ff_main_def)
  next
    case (Cons cmd rest)
    show ?thesis
    proof (cases "parse_args rest default_args")
      case None
      with assms Cons show ?thesis by (simp add: ff_main_def)
    next
      case (Some g')
      have "g' = g"
        using assms unfolding ff_main_def Cons list.case Some option.case
        by (simp split: option.split_asm if_split_asm)
      with Some show ?thesis by (intro that) simp
    qed
  qed
  from parse_level [OF this] show ?thesis by (simp add: default_args_def ff_log_set_def log_levels)
qed

lemma command_line_id: "length s \<le> 1199 \<Longrightarrow> list_all (\<lambda>c. c \<noteq> CHR 0x00 \<and> c \<noteq> CHR 0x0D \<and> c \<noteq> CHR 0x0A) s \<Longrightarrow> command_line s = s"
  by (simp add: command_line_def list_all_iff)

lemma client_reload:
  assumes "ff_main realpath argv = Client dir msg" and "take 7 msg = ''reload ''"
    and "list_all (\<lambda>c. c \<noteq> CHR 0x00 \<and> c \<noteq> CHR 0x0D \<and> c \<noteq> CHR 0x0A) msg"
  shows "\<exists>path absolute. realpath path = Some absolute \<and> msg = ''reload '' @ absolute \<and>
    serve H G files msg = serve_reload H G files (''reload '' @ absolute)"
proof -
  obtain path absolute where p: "realpath path = Some absolute" "msg = ''reload '' @ absolute" "length msg < 1100"
  proof (cases argv)
    case Nil
    with assms(1) show ?thesis by (simp add: ff_main_def)
  next
    case (Cons cmd rest)
    show ?thesis
    proof (cases "parse_args rest default_args")
      case None
      with assms(1) Cons show ?thesis by (simp add: ff_main_def)
    next
      case (Some g)
      have no: "msg \<noteq> cmd" if "cmd = ''status'' \<or> cmd = ''stats'' \<or> cmd = ''reload'' \<or> cmd = ''stop''"
        using that assms(2) by auto
      show ?thesis
      proof (cases "realpath (g_config g)")
        case None
        show ?thesis
          using assms(1) no unfolding ff_main_def Cons list.case Some option.case None by (simp split: if_split_asm)
      next
        case real: (Some absolute)
        have "msg = ''reload '' @ absolute \<and> length msg < 1100"
          using assms(1) no unfolding ff_main_def Cons list.case Some option.case real
          by (simp split: if_split_asm) auto
        with that [OF real] show ?thesis by blast
      qed
    qed
  qed
  have c: "command_line msg = msg" by (rule command_line_id) (use p(3) assms(3) in simp_all)
  have "serve H G files msg = serve_reload H G files msg"
    unfolding serve_def c Let_def by (simp add: p(2) fun_eq_iff)
  with p(1,2) show ?thesis by auto
qed

section \<open>The log file and libbpf's messages\<close>

definition FF_LOG_MAX :: nat where "FF_LOG_MAX = 256 * 1024"
definition FF_LOG_KEEP :: nat where "FF_LOG_KEEP = 128 * 1024"

text \<open>
  What is in the log file when the daemon starts to append to it; \<open>can_copy\<close> says whether the file can be
  read, its copy written, and the copy renamed.
\<close>

definition ff_log_redirect :: "string \<Rightarrow> bool \<Rightarrow> u8 list option \<Rightarrow> u8 list option" where
  "ff_log_redirect path can_copy contents =
     (case contents of
        None \<Rightarrow> None
      | Some bs \<Rightarrow>
          if FF_LOG_MAX < length bs \<and> length (path @ ''.keep'') < 1050 \<and> can_copy
          then Some (drop (length bs - FF_LOG_KEEP) bs) else Some bs)"

lemma log_bounded:
  assumes "ff_log_redirect path True (Some bs) = Some bs'" and "length path < 1045"
  shows "length bs' \<le> FF_LOG_MAX" and "\<exists>old. bs = old @ bs'"
proof -
  have bs': "bs' = (if FF_LOG_MAX < length bs then drop (length bs - FF_LOG_KEEP) bs else bs)"
    using assms by (auto simp: ff_log_redirect_def split: if_splits)
  then show "length bs' \<le> FF_LOG_MAX" by (auto simp: FF_LOG_MAX_def FF_LOG_KEEP_def)
  show "\<exists>old. bs = old @ bs'"
    unfolding bs' by (metis append_Nil append_take_drop_id)
qed

datatype libbpf_level = LIBBPF_WARN | LIBBPF_INFO | LIBBPF_DEBUG

definition libbpf_log_level :: "libbpf_level \<Rightarrow> int" where
  "libbpf_log_level l = (case l of LIBBPF_WARN \<Rightarrow> FF_LOG_WARN | LIBBPF_INFO \<Rightarrow> FF_LOG_INFO | LIBBPF_DEBUG \<Rightarrow> FF_LOG_DEBUG)"

text \<open>The lines written, and whether the clsact message has been reported.\<close>

definition ff_libbpf_print :: "log \<Rightarrow> string \<Rightarrow> libbpf_level \<Rightarrow> string \<Rightarrow> bool \<Rightarrow> string list \<times> bool" where
  "ff_libbpf_print l stamp level msg reported =
     (let msg = take 2047 msg in
      if infix_of ''Exclusivity flag on, cannot modify'' msg
      then (if reported then [] else ff_log l FF_LOG_INFO stamp (''clsact qdisc already present, reusing it'' @ [CHR 0x0A]), True)
      else (ff_log l (libbpf_log_level level) stamp msg, reported))"

section \<open>The client\<close>

text \<open>The text of a reply; \<open>reason\<close> is what the configuration reader says of an error.\<close>

definition reload_message :: "(config_error \<Rightarrow> string) \<Rightarrow> reload_result \<Rightarrow> string" where
  "reload_message reason res =
     (case res of
        Reloaded gen \<Rightarrow> ''configuration generation '' @ decimal (unat gen) @ '' active''
      | ConfigInvalid e \<Rightarrow> reason e
      | LayoutChanged \<Rightarrow> ''interface layout and map capacities require restart''
      | PublishFailed \<Rightarrow> ''map publication failed; active config preserved'')"

definition reply_text :: "(config_error \<Rightarrow> string) \<Rightarrow> reply \<Rightarrow> string" where
  "reply_text reason reply =
     (case reply of
        Text t \<Rightarrow> t
      | PathTooLong \<Rightarrow> ''ERROR configuration path too long'' @ [CHR 0x0A]
      | ReloadReply res \<Rightarrow> (case res of Reloaded _ \<Rightarrow> ''OK'' | _ \<Rightarrow> ''ERROR'') @ '' '' @ reload_message reason res @ [CHR 0x0A])"

text \<open>
  \<open>exchange\<close> connects, sends the command and returns the pieces \<open>read\<close> delivers and whether it failed in
  the end; nothing when the socket, the connection or the write fails. The exit status and the output:
\<close>

definition ff_client :: "(string \<Rightarrow> string \<Rightarrow> (string list \<times> bool) option) \<Rightarrow> string \<Rightarrow> string \<Rightarrow> int \<times> string" where
  "ff_client exchange dir command =
     (let path = dir @ ''/control.sock'' in
      if 108 \<le> length path then (1, [])
      else case exchange path command of
        None \<Rightarrow> (1, [])
      | Some (pieces, failed) \<Rightarrow>
          (if failed \<or> list_ex (\<lambda>p. take 5 p = ''ERROR'') pieces then 1 else 0, concat pieces))"

text \<open>A reply that arrives in one piece: the client succeeds exactly when the daemon has switched.\<close>

lemma client_status:
  assumes "length dir < 95" and "exchange (dir @ ''/control.sock'') cmd = Some ([reply_text reason (ReloadReply res)], False)"
  shows "fst (ff_client exchange dir cmd) = 0 \<longleftrightarrow> (\<exists>gen. res = Reloaded gen)"
  using assms by (cases res) (simp_all add: ff_client_def reply_text_def Let_def)

end
