(* ===== verification/Recover.thy ===== *)
theory Recover
  imports Publish
begin

text \<open>
  \<open>stale_filters\<close> of \<open>ebpf/user/lifecycle.c\<close>: what a new daemon does with the state file of one that
  did not end well. Its lines are read back with \<open>sscanf\<close>; every filter that is still the recorded
  program is detached, and the dummy device is deleted if it is still the recorded one.
\<close>

section \<open>\<open>sscanf\<close>\<close>

text \<open>\<open>%u\<close>: white space, a sign, digits; a number past 64 bits saturates, then the lower 32 bits are kept.\<close>

definition scan_u :: "string \<Rightarrow> (u32 \<times> string) option" where
  "scan_u s =
     (let s = dropWhile isspace s;
          neg = (s \<noteq> [] \<and> hd s = CHR ''-'');
          s = (if s \<noteq> [] \<and> (hd s = CHR ''-'' \<or> hd s = CHR ''+'') then tl s else s);
          ds = takeWhile isdigit s; n = digits_value ds
      in if ds = [] then None
         else Some (if 2 ^ 64 \<le> n then 0xffffffff else if neg then - of_nat n else of_nat n, dropWhile isdigit s))"

text \<open>\<open>%ns\<close>: white space, then up to \<open>n\<close> other characters, at least one.\<close>

definition scan_s :: "nat \<Rightarrow> string \<Rightarrow> (string \<times> string) option" where
  "scan_s n s =
     (let s = dropWhile isspace s; x = take n (takeWhile (\<lambda>c. \<not> isspace c) s)
      in if x = [] then None else Some (x, drop (length x) s))"

fun scan_us :: "nat \<Rightarrow> string \<Rightarrow> (u32 list \<times> string) option" where
  "scan_us 0 s = Some ([], s)"
| "scan_us (Suc n) s =
     Option.bind (scan_u s) (\<lambda>(x, s). map_option (\<lambda>(xs, s). (x # xs, s)) (scan_us n s))"

text \<open>A recorded point that is neither ingress nor egress is refused by the query that would follow.\<close>

definition point_of :: "u32 \<Rightarrow> tc_point option" where
  "point_of x = (if x = 1 then Some BPF_TC_INGRESS else if x = 2 then Some BPF_TC_EGRESS else None)"

definition scan_filter :: "string \<Rightarrow> ff_attachment option" where
  "scan_filter line =
     (if line = [] \<or> hd line \<noteq> CHR ''F'' then None
      else case scan_us 5 (tl line) of
        Some ([idx, point, priority, handle, i], _) \<Rightarrow>
          map_option (\<lambda>p. \<lparr>a_index = idx, a_point = p, a_priority = priority, a_handle = handle, a_id = i\<rparr>) (point_of point)
      | _ \<Rightarrow> None)"

definition scan_dummy :: "string \<Rightarrow> (u32 \<times> string \<times> string) option" where
  "scan_dummy line =
     (if line = [] \<or> hd line \<noteq> CHR ''D'' then None
      else Option.bind (scan_u (tl line)) (\<lambda>(idx, s).
        Option.bind (scan_s 15 s) (\<lambda>(name, s).
        map_option (\<lambda>(owner, _). (idx, name, owner)) (scan_s 95 s))))"

section \<open>Clearing up\<close>

text \<open>
  The host's files: the lines of the state file, the first line of an interface's \<open>ifalias\<close>, and
  the command that deletes a device.
\<close>

record 'e past =
  state_file :: "'e \<Rightarrow> string list option \<times> 'e"
  ifalias :: "string \<Rightarrow> 'e \<Rightarrow> string option \<times> 'e"
  delete_device :: "string \<Rightarrow> 'e \<Rightarrow> 'e"

definition alias_line :: "string \<Rightarrow> string" where
  "alias_line s = takeWhile (\<lambda>c. c \<noteq> CHR 0x0D \<and> c \<noteq> CHR 0x0A) s"

definition stale_dummy :: "'e host \<Rightarrow> 'e past \<Rightarrow> u32 \<Rightarrow> string \<Rightarrow> string \<Rightarrow> 'e \<Rightarrow> 'e" where
  "stale_dummy H P idx name owner e =
     (case if_nametoindex H name e of (now, e) \<Rightarrow>
      if now \<noteq> idx then e
      else case ifalias P name e of
        (None, e) \<Rightarrow> e
      | (Some line, e) \<Rightarrow> if alias_line line = owner then delete_device P name e else e)"

definition stale_line :: "'e host \<Rightarrow> 'e past \<Rightarrow> string \<Rightarrow> 'e \<Rightarrow> 'e" where
  "stale_line H P line e =
     (let e = (case scan_filter line of None \<Rightarrow> e | Some a \<Rightarrow> ff_detach H a e) in
      case scan_dummy line of
        None \<Rightarrow> e
      | Some (idx, name, owner) \<Rightarrow> stale_dummy H P idx name owner e)"

definition stale_filters :: "'e host \<Rightarrow> 'e past \<Rightarrow> 'e \<Rightarrow> 'e" where
  "stale_filters H P e =
     (case state_file P e of
        (None, e) \<Rightarrow> e
      | (Some ls, e) \<Rightarrow> fold (stale_line H P) ls e)"

section \<open>The state file reads back as it was written\<close>

lemma isspace_simps [simp]: "isspace CHR '' ''" "isspace CHR 0x0A" "\<not> isdigit CHR '' ''" "\<not> isdigit CHR 0x0A"
  by (simp_all add: isspace_def isdigit_def code_def)

lemma digit_not_space: "isdigit c \<Longrightarrow> \<not> isspace c \<and> c \<noteq> CHR ''-'' \<and> c \<noteq> CHR ''+''"
  by (auto simp: isspace_def isdigit_def code_def)

lemma decimal_cons:
  obtains d ds where "decimal n = d # ds" "isdigit d" "list_all isdigit ds"
  using decimal_digits [of n] by (cases "decimal n") auto

lemma scan_u_decimal:
  assumes "rest \<noteq> []" and "\<not> isdigit (hd rest)"
  shows "scan_u (CHR '' '' # decimal (unat x) @ rest) = Some (x, rest)"
proof -
  obtain d ds where d: "decimal (unat x) = d # ds" "isdigit d" "list_all isdigit ds" by (rule decimal_cons)
  have s: "dropWhile isspace (CHR '' '' # decimal (unat x) @ rest) = d # ds @ rest"
    using d digit_not_space [OF d(2)] by simp
  have t: "takeWhile isdigit (d # ds @ rest) = d # ds" "dropWhile isdigit (d # ds @ rest) = rest"
    using d(2,3) assms by (auto simp: takeWhile_append2 dropWhile_append2 list_all_iff neq_Nil_conv)
  have v: "digits_value (d # ds) = unat x" using decimal_digits [of "unat x"] d(1) by simp
  have "unat x < 2 ^ 64" by (rule less_le_trans [OF unsigned_less]) simp
  then show ?thesis using digit_not_space [OF d(2)] unfolding scan_u_def s Let_def list.sel
    by (simp del: takeWhile.simps dropWhile.simps add: t v)
qed

lemma scan_filter_line: "scan_filter (filter_line a @ [CHR 0x0A]) = Some a"
proof -
  let ?f = "\<lambda>x. CHR '' '' # decimal (unat (x :: u32))"
  have p: "decimal (point_id (a_point a)) = decimal (unat (of_nat (point_id (a_point a)) :: u32))"
    by (cases "a_point a") (simp_all add: point_id_def)
  have l: "filter_line a @ [CHR 0x0A] = CHR ''F'' # ?f (a_index a) @ ?f (of_nat (point_id (a_point a))) @ ?f (a_priority a) @
      ?f (a_handle a) @ ?f (a_id a) @ [CHR 0x0A]"
    by (simp add: filter_line_def p)
  have "scan_us 5 (tl (filter_line a @ [CHR 0x0A])) =
      Some ([a_index a, of_nat (point_id (a_point a)), a_priority a, a_handle a, a_id a], [CHR 0x0A])"
    unfolding l list.sel by (simp add: numeral_eq_Suc scan_u_decimal)
  moreover have "point_of (of_nat (point_id (a_point a))) = Some (a_point a)"
    by (cases "a_point a") (simp_all add: point_id_def point_of_def)
  ultimately show ?thesis by (simp add: scan_filter_def l)
qed

definition word_ok :: "nat \<Rightarrow> string \<Rightarrow> bool" where
  "word_ok n s \<longleftrightarrow> s \<noteq> [] \<and> length s \<le> n \<and> list_all (\<lambda>c. \<not> isspace c) s"

lemma scan_s_word:
  assumes "word_ok n s" and "rest \<noteq> []" and "isspace (hd rest)"
  shows "scan_s n (CHR '' '' # s @ rest) = Some (s, rest)"
proof -
  obtain c cs where s: "s = c # cs" using assms(1) by (cases s) (auto simp: word_ok_def)
  have d: "dropWhile isspace (s @ rest) = s @ rest" using assms(1) by (simp add: s word_ok_def)
  have t: "takeWhile (\<lambda>c. \<not> isspace c) (s @ rest) = s"
    using assms by (cases rest) (auto simp: word_ok_def list_all_iff takeWhile_append2)
  have "0 < n" using assms(1) s by (simp add: word_ok_def)
  then show ?thesis using assms(1) by (simp add: scan_s_def d t word_ok_def Let_def)
qed

lemma scan_dummy_line:
  assumes "word_ok 15 name" and "word_ok 95 owner"
  shows "scan_dummy (''D '' @ decimal (unat idx) @ '' '' @ name @ '' '' @ owner @ [CHR 0x0A]) = Some (idx, name, owner)"
  by (simp add: scan_dummy_def scan_u_decimal scan_s_word [OF assms(1)] scan_s_word [OF assms(2)])

lemma stale_line_filter: "stale_line H P (filter_line a @ [CHR 0x0A]) e = ff_detach H a e"
proof -
  have "scan_dummy (filter_line a @ [CHR 0x0A]) = None" by (simp add: scan_dummy_def filter_line_def)
  then show ?thesis by (simp add: stale_line_def scan_filter_line)
qed

lemma stale_lines_filters: "fold (stale_line H P) (map (\<lambda>l. l @ [CHR 0x0A]) (map filter_line as)) e = fold (ff_detach H) as e"
  by (induction as arbitrary: e) (simp_all add: stale_line_filter)

text \<open>
  Property C40. The state file round trips: a daemon that finds the file its predecessor wrote detaches
  exactly the filters that one had recorded, in their order, and looks at exactly the dummy device it
  had made, under the name, index and owner it had recorded.
\<close>
theorem state_file_roundtrip:
  assumes "rt_dummy r \<noteq> [] \<longrightarrow> word_ok 15 (rt_dummy r) \<and> word_ok 95 (rt_owner r)"
    and "state_file P e = (Some (map (\<lambda>l. l @ [CHR 0x0A]) (state_lines r)), e')"
  shows "stale_filters H P e =
    (let e = fold (ff_detach H) (rt_attached r) e' in
     if rt_dummy r \<noteq> [] \<and> rt_l2 r \<noteq> 0 then stale_dummy H P (rt_l2 r) (rt_dummy r) (rt_owner r) e else e)"
proof -
  let ?e = "fold (ff_detach H) (rt_attached r) e'"
  have run: "stale_filters H P e = fold (stale_line H P) (map (\<lambda>l. l @ [CHR 0x0A]) (state_lines r)) e'"
    using assms(2) by (simp add: stale_filters_def)
  show ?thesis
  proof (cases "rt_dummy r \<noteq> [] \<and> rt_l2 r \<noteq> 0")
    case False
    then have "state_lines r = map filter_line (rt_attached r)" by (simp add: state_lines_def)
    then show ?thesis using stale_lines_filters [of H P "rt_attached r" e'] False by (auto simp: run Let_def)
  next
    case True
    let ?d = "''D '' @ decimal (unat (rt_l2 r)) @ '' '' @ rt_dummy r @ '' '' @ rt_owner r"
    have w: "word_ok 15 (rt_dummy r)" "word_ok 95 (rt_owner r)" using assms(1) True by simp_all
    have "scan_filter (?d @ [CHR 0x0A]) = None" by (simp add: scan_filter_def)
    then have one: "stale_line H P (?d @ [CHR 0x0A]) s = stale_dummy H P (rt_l2 r) (rt_dummy r) (rt_owner r) s" for s
      using scan_dummy_line [OF w, of "rt_l2 r"] by (simp add: stale_line_def)
    have "state_lines r = map filter_line (rt_attached r) @ [?d]" using True by (simp add: state_lines_def)
    then show ?thesis using stale_lines_filters [of H P "rt_attached r" e'] True one by (simp add: run Let_def)
  qed
qed

text \<open>One filter and the dummy device, on a host that counts what it does: 1 for a filter, 100 for a device.\<close>

definition recorded :: runtime where
  "recorded = start_runtime sample_options\<lparr>rt_attached := [\<lparr>a_index = 3, a_point = BPF_TC_EGRESS, a_priority = 1, a_handle = 1, a_id = 7\<rparr>]\<rparr>"

definition counting_host :: "u64 host" where
  "counting_host = sample_host\<lparr>if_nametoindex := (\<lambda>n e. (5, e)), tc_detach := (\<lambda>i p pr h e. (False, e + 1))\<rparr>"

definition recorded_past :: "u64 past" where
  "recorded_past = \<lparr>state_file = (\<lambda>e. (Some (map (\<lambda>l. l @ [CHR 0x0A]) (state_lines recorded)), e)),
     ifalias = (\<lambda>n e. (Some (rt_owner recorded @ [CHR 0x0A]), e)), delete_device = (\<lambda>n e. e + 100)\<rparr>"

theorem state_file_roundtrip_witness: "stale_filters counting_host recorded_past 0 = 101"
proof -
  have w: "rt_dummy recorded \<noteq> [] \<longrightarrow> word_ok 15 (rt_dummy recorded) \<and> word_ok 95 (rt_owner recorded)"
    by (simp add: recorded_def start_runtime_def word_ok_def isspace_def code_def)
  have f: "state_file recorded_past 0 = (Some (map (\<lambda>l. l @ [CHR 0x0A]) (state_lines recorded)), 0)"
    by (simp add: recorded_past_def)
  show ?thesis unfolding state_file_roundtrip [OF w f, of counting_host]
    by (simp add: recorded_def start_runtime_def ff_detach_def counting_host_def sample_host_def stale_dummy_def recorded_past_def alias_line_def)
qed

end
