(* ===== verification/Run.thy ===== *)
theory Run
  imports Entry Recover
begin

text \<open>
  \<open>ff_run\<close> of \<open>ebpf/user/lifecycle.c\<close> from its first line to its last: the checks, the private
  devices of \<open>ebpf/user/attach.c\<close>, the start, the event loop, and the way out that every failure
  takes. The calls into the system are the fields of a record \<open>sys\<close>; a handle that is open is a flag
  of \<open>runtime\<close>. A result \<open>True\<close> is an error.
\<close>

section \<open>The system\<close>

datatype wait_status = NotForked | WaitFailed | Killed | Exited nat

datatype sysctl = Written | NotWritten | NoSysctl | NotOpened

datatype handle = Object | Tun | Server | Route | Lock

text \<open>
  \<open>make_dir\<close> is \<open>True\<close> when \<open>mkdir\<close> fails and the directory is not there already; the other calls
  with a boolean are \<open>True\<close> when they succeed. \<open>run_command\<close> forks, executes and waits.
  \<open>nap\<close> is what ten milliseconds do: time passes and packets cross the programs.
  \<open>no_requests\<close> is \<open>bpf_map_get_next_key\<close> without a key, when it finds none.
\<close>

record 'e sys =
  pid :: u32
  is_root :: bool
  make_dir :: "string \<Rightarrow> 'e \<Rightarrow> bool \<times> 'e"
  private_dir :: "string \<Rightarrow> 'e \<Rightarrow> bool \<times> 'e"
  open_lock :: "string \<Rightarrow> 'e \<Rightarrow> bool \<times> 'e"
  take_lock :: "'e \<Rightarrow> bool \<times> 'e"
  raise_memlock :: "'e \<Rightarrow> 'e"
  open_object :: "string \<Rightarrow> 'e \<Rightarrow> bool \<times> 'e"
  load_object :: "u32 \<Rightarrow> u32 \<Rightarrow> 'e \<Rightarrow> bool \<times> 'e"
  random_seed :: "'e \<Rightarrow> u64 option \<times> 'e"
  sequence_update :: "u32 \<Rightarrow> u64 \<Rightarrow> (u32 \<rightharpoonup> u64) \<Rightarrow> bool \<times> (u32 \<rightharpoonup> u64)"
  run_command :: "string list \<Rightarrow> 'e \<Rightarrow> wait_status \<times> 'e"
  open_tun :: "'e \<Rightarrow> bool \<times> 'e"
  name_tun :: "string \<Rightarrow> 'e \<Rightarrow> string option \<times> 'e"
  disable_ipv6 :: "string \<Rightarrow> 'e \<Rightarrow> sysctl \<times> 'e"
  netlink_socket :: "'e \<Rightarrow> bool \<times> 'e"
  netlink_bind :: "'e \<Rightarrow> bool \<times> 'e"
  close_handle :: "handle \<Rightarrow> 'e \<Rightarrow> 'e"
  unlink_file :: "string \<Rightarrow> 'e \<Rightarrow> 'e"
  no_requests :: "(u64 \<rightharpoonup> ff_request) \<Rightarrow> bool"
  nap :: "'e world \<Rightarrow> 'e world"

text \<open>A sequence of steps ends with the first that fails, as with \<open>goto out\<close>.\<close>

fun run_steps :: "('s \<Rightarrow> bool \<times> 's) list \<Rightarrow> 's \<Rightarrow> bool \<times> 's" where
  "run_steps [] s = (False, s)"
| "run_steps (f # fs) s = (case f s of (err, s) \<Rightarrow> if err then (True, s) else run_steps fs s)"

definition ff_command :: "'e sys \<Rightarrow> string list \<Rightarrow> 'e \<Rightarrow> bool \<times> 'e" where
  "ff_command S args e = (case run_command S args e of (status, e) \<Rightarrow> (status \<noteq> Exited 0, e))"

definition command :: "'e sys \<Rightarrow> string list \<Rightarrow> runtime \<times> 'e world \<Rightarrow> bool \<times> runtime \<times> 'e world" where
  "command S args = (\<lambda>(r, w). case ff_command S args (w_env w) of (err, e) \<Rightarrow> (err, r, w\<lparr>w_env := e\<rparr>))"

section \<open>Lock, programs and lease\<close>

definition lock_dir :: "'e sys \<Rightarrow> string \<Rightarrow> runtime \<times> 'e world \<Rightarrow> bool \<times> runtime \<times> 'e world" where
  "lock_dir S dir = (\<lambda>(r, w).
     case open_lock S (dir @ ''/lock'') (w_env w) of (opened, e) \<Rightarrow>
     let r = r\<lparr>rt_lock := opened\<rparr> in
     if \<not> opened then (True, r, w\<lparr>w_env := e\<rparr>)
     else case take_lock S e of (taken, e) \<Rightarrow> (\<not> taken, r, w\<lparr>w_env := e\<rparr>))"

definition clear_stale :: "'e host \<Rightarrow> 'e past \<Rightarrow> runtime \<times> 'e world \<Rightarrow> bool \<times> runtime \<times> 'e world" where
  "clear_stale H P = (\<lambda>(r, w). (False, r, w\<lparr>w_env := stale_filters H P (w_env w)\<rparr>))"

definition preflight :: "'e host \<Rightarrow> runtime \<times> 'e world \<Rightarrow> bool \<times> runtime \<times> 'e world" where
  "preflight H = (\<lambda>(r, w). case ff_check H (rt_options r) (w_env w) of (failed, e) \<Rightarrow> (failed, r, w\<lparr>w_env := e\<rparr>))"

definition load_programs :: "'e sys \<Rightarrow> string \<Rightarrow> runtime \<times> 'e world \<Rightarrow> bool \<times> runtime \<times> 'e world" where
  "load_programs S object = (\<lambda>(r, w).
     case open_object S object (raise_memlock S (w_env w)) of (opened, e) \<Rightarrow>
     let r = r\<lparr>rt_object := opened\<rparr> in
     if \<not> opened then (True, r, w\<lparr>w_env := e\<rparr>)
     else case load_object S (o_tcp_entries (rt_options r)) (o_udp_entries (rt_options r)) e of (loaded, e) \<Rightarrow>
       (\<not> loaded, r\<lparr>rt_loaded := loaded\<rparr>, w\<lparr>w_env := e\<rparr>))"

definition seed_sequence :: "'e sys \<Rightarrow> runtime \<times> 'e world \<Rightarrow> bool \<times> runtime \<times> 'e world" where
  "seed_sequence S = (\<lambda>(r, w).
     case random_seed S (w_env w) of
       (None, e) \<Rightarrow> (True, r, w\<lparr>w_env := e\<rparr>)
     | (Some seed, e) \<Rightarrow>
         (case sequence_update S 0 seed (m_sequence w) of (err, m) \<Rightarrow> (err, r, w\<lparr>m_sequence := m, w_env := e\<rparr>)))"

definition set_lease :: "'e host \<Rightarrow> bool \<Rightarrow> runtime \<times> 'e world \<Rightarrow> bool \<times> runtime \<times> 'e world" where
  "set_lease H on = (\<lambda>(r, w). case lease H r on w of (err, w) \<Rightarrow> (err, r, w))"

section \<open>The private devices\<close>

text \<open>\<open>%x\<close>.\<close>

fun hex :: "nat \<Rightarrow> string" where
  "hex n = (if n < 16 then [char_of (unat (hex_digit (of_nat n)))]
     else hex (n div 16) @ [char_of (unat (hex_digit (of_nat (n mod 16))))])"

declare hex.simps [simp del]

definition device_name :: "'e sys \<Rightarrow> string \<Rightarrow> string" where
  "device_name S suffix = take 15 (''ff'' @ hex (unat (pid S)) @ suffix)"

definition ff_dummy :: "'e sys \<Rightarrow> 'e \<Rightarrow> bool \<times> 'e" where
  "ff_dummy S = ff_command S [''ip'', ''link'', ''add'', device_name S ''l2'', ''type'', ''dummy'']"

definition ff_tun :: "'e sys \<Rightarrow> 'e \<Rightarrow> string option \<times> 'e" where
  "ff_tun S e =
     (case open_tun S e of (opened, e) \<Rightarrow>
      if \<not> opened then (None, e)
      else case name_tun S (device_name S ''l3'') e of
        (None, e) \<Rightarrow> (None, close_handle S Tun e)
      | (Some name, e) \<Rightarrow> (Some (take 15 name), e))"

text \<open>The alias names the owner, for the next daemon; the state file is written before anything is attached.\<close>

definition save :: "'e host \<Rightarrow> runtime \<times> 'e world \<Rightarrow> bool \<times> runtime \<times> 'e world" where
  "save H = (\<lambda>(r, w). case save_state H r w of (err, w) \<Rightarrow> (err, r, w))"

definition owner_name :: "'e sys \<Rightarrow> u64 \<Rightarrow> string" where
  "owner_name S now = ''fakeflow:'' @ decimal (unat (pid S)) @ '':'' @ decimal (unat now)"

definition make_dummy :: "'e host \<Rightarrow> 'e sys \<Rightarrow> runtime \<times> 'e world \<Rightarrow> bool \<times> runtime \<times> 'e world" where
  "make_dummy H S = (\<lambda>(r, w).
     case ff_dummy S (w_env w) of (err, e) \<Rightarrow>
     if err then (True, r\<lparr>rt_dummy := []\<rparr>, w\<lparr>w_env := e\<rparr>)
     else
       let name = device_name S ''l2'' in
       case if_nametoindex H name e of (idx, e) \<Rightarrow>
       case monotime H e of (now, e) \<Rightarrow>
       let owner = owner_name S now in
       run_steps [command S [''ip'', ''link'', ''set'', ''dev'', name, ''alias'', owner], save H]
         (r\<lparr>rt_dummy := name, rt_l2 := idx, rt_owner := owner\<rparr>, w\<lparr>w_env := e\<rparr>))"

definition make_tun :: "'e host \<Rightarrow> 'e sys \<Rightarrow> runtime \<times> 'e world \<Rightarrow> bool \<times> runtime \<times> 'e world" where
  "make_tun H S = (\<lambda>(r, w).
     if mode_count FF_L3 (rt_options r) = 0 then (False, r, w)
     else case ff_tun S (w_env w) of
       (None, e) \<Rightarrow> (True, r, w\<lparr>w_env := e\<rparr>)
     | (Some name, e) \<Rightarrow>
         (case if_nametoindex H name e of (idx, e) \<Rightarrow>
          (False, r\<lparr>rt_tun := True, rt_tun_name := name, rt_l3 := idx\<rparr>, w\<lparr>w_env := e\<rparr>)))"

definition no_ipv6 :: "'e sys \<Rightarrow> string \<Rightarrow> runtime \<times> 'e world \<Rightarrow> bool \<times> runtime \<times> 'e world" where
  "no_ipv6 S name = (\<lambda>(r, w).
     case disable_ipv6 S name (w_env w) of (res, e) \<Rightarrow> (res = NotWritten \<or> res = NotOpened, r, w\<lparr>w_env := e\<rparr>))"

definition private_device :: "'e host \<Rightarrow> 'e sys \<Rightarrow> u32 \<Rightarrow> string \<Rightarrow> runtime \<times> 'e world \<Rightarrow> bool \<times> runtime \<times> 'e world" where
  "private_device H S idx name = run_steps
     [attach_builder H idx, no_ipv6 S name, command S [''ip'', ''link'', ''set'', ''dev'', name, ''up'']]"

definition private_devices :: "'e host \<Rightarrow> 'e sys \<Rightarrow> runtime \<times> 'e world \<Rightarrow> bool \<times> runtime \<times> 'e world" where
  "private_devices H S = (\<lambda>(r, w).
     case private_device H S (rt_l2 r) (rt_dummy r) (r, w) of (err, r, w) \<Rightarrow>
     if err \<or> mode_count FF_L3 (rt_options r) = 0 then (err, r, w)
     else private_device H S (rt_l3 r) (rt_tun_name r) (r, w))"

definition route_socket :: "'e sys \<Rightarrow> runtime \<times> 'e world \<Rightarrow> bool \<times> runtime \<times> 'e world" where
  "route_socket S = (\<lambda>(r, w).
     case netlink_socket S (w_env w) of (opened, e) \<Rightarrow>
     if \<not> opened then (True, r, w\<lparr>w_env := e\<rparr>)
     else case netlink_bind S e of (bound, e) \<Rightarrow>
       if \<not> bound then (True, r, w\<lparr>w_env := close_handle S Route e\<rparr>)
       else (False, r\<lparr>rt_route := True\<rparr>, w\<lparr>w_env := e\<rparr>))"

text \<open>Everything up to the interfaces; the lease is off.\<close>

definition prepare :: "'e host \<Rightarrow> 'e sys \<Rightarrow> 'e past \<Rightarrow> string \<Rightarrow> string \<Rightarrow> runtime \<times> 'e world \<Rightarrow> bool \<times> runtime \<times> 'e world" where
  "prepare H S P object dir = run_steps
     [lock_dir S dir, clear_stale H P, preflight H, load_programs S object, seed_sequence S, set_lease H False,
      make_dummy H S, make_tun H S, private_devices H S, route_socket S]"

section \<open>The event loop\<close>

datatype signal = SIGHUP | SIGINT | SIGTERM

definition on_signal :: "signal \<Rightarrow> loop \<Rightarrow> loop" where
  "on_signal s lp = (if s = SIGHUP then lp\<lparr>lp_reloading := True\<rparr> else lp\<lparr>lp_quitting := True\<rparr>)"

text \<open>What a turn finds: the signals and what else has happened since the last one, the files, the sockets.\<close>

record 'e input =
  in_signals :: "signal list"
  in_meanwhile :: "'e world \<Rightarrow> 'e world"
  in_files :: "string \<Rightarrow> u8 list option"
  in_poll :: polled

text \<open>The exit status, or nothing while the loop still runs.\<close>

fun ff_loop :: "'e host \<Rightarrow> 'r random \<Rightarrow> 'e input list \<Rightarrow> loop \<times> runtime \<times> 'e world \<times> 'r \<Rightarrow>
    (int option \<times> runtime \<times> 'e world \<times> 'r) option" where
  "ff_loop H G [] (lp, r, w, rs) = Some (None, r, w, rs)"
| "ff_loop H G (i # is) (lp, r, w, rs) =
     (let lp = fold on_signal (in_signals i) lp; w = in_meanwhile i w in
      if lp_quitting lp then Some (Some 0, r, w, rs)
      else Option.bind (turn H G (in_files i) (in_poll i) (lp, r, w, rs)) (\<lambda>(stop, reply, lp, r, w, rs).
        if stop then Some (Some 1, r, w, rs) else ff_loop H G is (lp, r, w, rs)))"

section \<open>The way out\<close>

text \<open>At most two seconds, or until the map of requests was empty twice in a row.\<close>

partial_function (option) drain_loop :: "'e host \<Rightarrow> 'e sys \<Rightarrow> u64 \<Rightarrow> nat \<Rightarrow> 'e world \<Rightarrow> 'e world option" where
  "drain_loop H S deadline idle w =
     (case monotime H (w_env w) of (now, e) \<Rightarrow>
      let w = w\<lparr>w_env := e\<rparr> in
      if deadline \<le> now \<or> 2 \<le> idle then Some w
      else drain_loop H S deadline (if no_requests S (m_requests w) then idle + 1 else 0) (nap S w))"

definition drain_requests :: "'e host \<Rightarrow> 'e sys \<Rightarrow> 'e world \<Rightarrow> 'e world option" where
  "drain_requests H S w =
     (case monotime H (w_env w) of (now, e) \<Rightarrow> drain_loop H S (now + 2 * FF_NS) 0 (w\<lparr>w_env := e\<rparr>))"

definition switch_off :: "'e host \<Rightarrow> 'e sys \<Rightarrow> runtime \<Rightarrow> 'e world \<Rightarrow> 'e world option" where
  "switch_off H S r w = (if rt_object r \<and> rt_loaded r then drain_requests H S (snd (lease H r False w)) else Some w)"

text \<open>The last filter attached goes first; the state file goes only when it has filters to tell of.\<close>

definition release :: "'e host \<Rightarrow> 'e sys \<Rightarrow> runtime \<Rightarrow> 'e \<Rightarrow> 'e" where
  "release H S r e =
     (let e = destroy_links H (zip (rt_index r) (rt_ingress r)) e;
          e = fold (ff_detach H) (rev (rt_attached r)) e;
          e = (if rt_tun r then close_handle S Tun e else e);
          e = (if rt_dummy r \<noteq> [] then snd (ff_command S [''ip'', ''link'', ''delete'', ''dev'', rt_dummy r] e) else e);
          e = (if rt_server r then unlink_file S (rt_socket r) (close_handle S Server e) else e);
          e = (if rt_route r then close_handle S Route e else e);
          e = (if rt_object r then close_handle S Object e else e)
      in if rt_lock r then close_handle S Lock (if rt_attached r \<noteq> [] then unlink_file S (rt_state r) e else e) else e)"

definition way_out :: "'e host \<Rightarrow> 'e sys \<Rightarrow> runtime \<Rightarrow> 'e world \<Rightarrow> 'e world option" where
  "way_out H S r w = map_option (\<lambda>w. w\<lparr>w_env := release H S r (w_env w)\<rparr>) (switch_off H S r w)"

section \<open>The whole run\<close>

definition new_runtime :: "ff_options \<Rightarrow> string \<Rightarrow> runtime" where
  "new_runtime op dir = \<lparr>rt_options = op, rt_attached = [], rt_ingress = replicate 8 False, rt_index = replicate 8 0,
     rt_generation = replicate 8 0, rt_epoch = 0, rt_config_gen = 0, rt_l2 = 0, rt_l3 = 0, rt_dummy = [], rt_owner = [],
     rt_object = False, rt_loaded = False, rt_tun = False, rt_server = False, rt_lock = False, rt_route = False,
     rt_tun_name = [], rt_state = dir @ ''/filters'', rt_socket = []\<rparr>"

definition new_loop :: "string \<Rightarrow> loop" where
  "new_loop path = \<lparr>lp_next = 0, lp_last = 0, lp_path = path, lp_reloading = False, lp_quitting = False\<rparr>"

text \<open>The runtime directory must be there, private, and short enough for the names of its files.\<close>

definition runtime_dir :: "'e sys \<Rightarrow> string \<Rightarrow> 'e \<Rightarrow> bool \<times> 'e" where
  "runtime_dir S dir e =
     (case make_dir S dir e of (err, e) \<Rightarrow>
      if err then (True, e)
      else case private_dir S dir e of (private, e) \<Rightarrow>
        (\<not> private \<or> 1024 \<le> length (dir @ ''/lock'') \<or> 1024 \<le> length (dir @ ''/filters''), e))"

definition ff_serve :: "'e host \<Rightarrow> 'e sys \<Rightarrow> 'e past \<Rightarrow> 'r random \<Rightarrow> string \<Rightarrow> string \<Rightarrow> string \<Rightarrow> 'e input list \<Rightarrow>
    runtime \<times> 'e world \<times> 'r \<Rightarrow> (int option \<times> runtime \<times> 'e world \<times> 'r) option" where
  "ff_serve H S P G path object dir inputs = (\<lambda>(r, w, rs).
     case prepare H S P object dir (r, w) of (err, r, w) \<Rightarrow>
     if err then Some (Some 1, r, w, rs)
     else Option.bind (bring_up H G dir (r, w, rs)) (\<lambda>(err, r, w, rs).
       if err then Some (Some 1, r, w, rs) else ff_loop H G inputs (new_loop path, r, w, rs)))"

definition ff_run :: "'e host \<Rightarrow> 'e sys \<Rightarrow> 'e past \<Rightarrow> 'r random \<Rightarrow> (string \<Rightarrow> u8 list option) \<Rightarrow> string \<Rightarrow> string \<Rightarrow> string \<Rightarrow>
    'e input list \<Rightarrow> 'e world \<times> 'r \<Rightarrow> (int option \<times> 'e world \<times> 'r) option" where
  "ff_run H S P G files path object dir inputs = (\<lambda>(w, rs).
     if 1024 \<le> length path \<or> \<not> is_root S then Some (Some 1, w, rs)
     else case ff_config_read G files path rs of
       (Inl _, rs) \<Rightarrow> Some (Some 1, w, rs)
     | (Inr op, rs) \<Rightarrow>
         if mixed_paths op then Some (Some 1, w, rs)
         else case runtime_dir S dir (w_env w) of (err, e) \<Rightarrow>
           let w = w\<lparr>w_env := e\<rparr> in
           if err then Some (Some 1, w, rs)
           else Option.bind (ff_serve H S P G path object dir inputs (new_runtime op dir, w, rs)) (\<lambda>(rc, r, w, rs).
             case rc of
               None \<Rightarrow> Some (None, w, rs)
             | Some c \<Rightarrow> map_option (\<lambda>w. (Some c, w, rs)) (way_out H S r w)))"

end
