(* ===== verification/Ledger.thy ===== *)
theory Ledger
  imports Daemon Run
begin

text \<open>
  What the kernel holds on behalf of the daemon, and what the daemon knows of: filters, ingress links, the
  private devices, and the handles of \<open>ff_run\<close>. The contract of the host's calls is stated over two
  functions of the environment, the resources that are held (\<open>B\<close>) and those whose last report was a
  failure (\<open>F\<close>); every operation of \<open>Lifecycle\<close> keeps what is held and what is known in step (\<open>tended\<close>).
\<close>

section \<open>Resources and their books\<close>

text \<open>What the kernel holds on behalf of the process.\<close>

datatype resource =
    Filter u32 tc_point u32 u32 u32
  | Link u32
  | Device string
  | Open handle

definition filter_of :: "ff_attachment \<Rightarrow> resource" where
  "filter_of a = Filter (a_index a) (a_point a) (a_priority a) (a_handle a) (a_id a)"

definition link_set :: "u32 list \<Rightarrow> bool list \<Rightarrow> resource set" where
  "link_set js ls = {Link j | j. (j, True) \<in> set (zip js ls)}"

definition handles :: "runtime \<Rightarrow> handle set" where
  "handles r = {h. (h = Object \<and> rt_object r) \<or> (h = Tun \<and> rt_tun r) \<or> (h = Server \<and> rt_server r) \<or>
     (h = Route \<and> rt_route r) \<or> (h = Lock \<and> rt_lock r)}"

text \<open>What the process knows of.\<close>

definition ours :: "runtime \<Rightarrow> resource set" where
  "ours r = filter_of ` set (rt_attached r) \<union> link_set (rt_index r) (rt_ingress r) \<union>
     (if rt_dummy r = [] then {} else {Device (rt_dummy r)}) \<union> Open ` handles r"

text \<open>
  The contract of the calls says, for each result, what the call may have added, what is certainly not held
  afterwards, and what it reports a failure about. \<open>B\<close> is what is held; \<open>F\<close> logs the reports: a resource is in it
  when the last call that reported on it failed. The log is made of the calls and their results alone, so
  it can be added to the environment of any system. Resources may vanish at any time.
\<close>

record entry =
  en_added :: "resource set"
  en_gone :: "resource set"
  en_failed :: "resource set"

definition nothing :: entry where
  "nothing = \<lparr>en_added = {}, en_gone = {}, en_failed = {}\<rparr>"

definition entered :: "('e \<Rightarrow> resource set) \<Rightarrow> ('e \<Rightarrow> resource set) \<Rightarrow> 'e \<Rightarrow> entry \<Rightarrow> 'e \<Rightarrow> bool" where
  "entered B F e x e' \<longleftrightarrow> B e' \<subseteq> (B e \<union> en_added x) - en_gone x \<and> F e' = (F e - (en_added x \<union> en_gone x)) \<union> en_failed x"

definition accounts :: "('e \<Rightarrow> resource set) \<Rightarrow> ('e \<Rightarrow> resource set) \<Rightarrow> ('e \<Rightarrow> 'x \<times> 'e) \<Rightarrow> ('x \<Rightarrow> entry) \<Rightarrow> bool" where
  "accounts B F f X \<longleftrightarrow> (\<forall>e x e'. f e = (x, e') \<longrightarrow> entered B F e (X x) e')"

definition effect :: "('e \<Rightarrow> resource set) \<Rightarrow> ('e \<Rightarrow> resource set) \<Rightarrow> ('e \<Rightarrow> 'e) \<Rightarrow> entry \<Rightarrow> bool" where
  "effect B F f x \<longleftrightarrow> (\<forall>e. entered B F e x (f e))"

definition quiet :: "('e \<Rightarrow> resource set) \<Rightarrow> ('e \<Rightarrow> resource set) \<Rightarrow> ('e \<Rightarrow> 'x \<times> 'e) \<Rightarrow> bool" where
  "quiet B F f \<longleftrightarrow> accounts B F f (\<lambda>x. nothing)"

text \<open>
  The calls that report: a filter that could not be attached, queried or detached may be there or not; so may
  a device when the \<open>ip\<close> that adds it was killed or exits with an error, or the one that deletes it did not
  exit with 0. At one handle there is at most one filter, the one a query names.
\<close>

definition attach_entry :: "u32 \<Rightarrow> tc_point \<Rightarrow> u32 \<Rightarrow> u32 \<Rightarrow> u32 option \<Rightarrow> entry" where
  "attach_entry i p pr h x = (case x of
     None \<Rightarrow> nothing\<lparr>en_added := range (Filter i p pr h), en_failed := range (Filter i p pr h)\<rparr>
   | Some k \<Rightarrow> nothing\<lparr>en_added := {Filter i p pr h k}\<rparr>)"

definition query_entry :: "u32 \<Rightarrow> tc_point \<Rightarrow> u32 \<Rightarrow> u32 \<Rightarrow> u32 option \<Rightarrow> entry" where
  "query_entry i p pr h x = (case x of
     None \<Rightarrow> nothing\<lparr>en_failed := range (Filter i p pr h)\<rparr>
   | Some k \<Rightarrow> nothing\<lparr>en_gone := range (Filter i p pr h) - {Filter i p pr h k}\<rparr>)"

definition detach_entry :: "u32 \<Rightarrow> tc_point \<Rightarrow> u32 \<Rightarrow> u32 \<Rightarrow> bool \<Rightarrow> entry" where
  "detach_entry i p pr h err =
     (if err then nothing\<lparr>en_failed := range (Filter i p pr h)\<rparr> else nothing\<lparr>en_gone := range (Filter i p pr h)\<rparr>)"

definition add_entry :: "string \<Rightarrow> wait_status \<Rightarrow> entry" where
  "add_entry n status =
     (if status = Exited 0 then nothing\<lparr>en_added := {Device n}\<rparr>
      else if status = NotForked then nothing
      else nothing\<lparr>en_added := {Device n}, en_failed := {Device n}\<rparr>)"

definition delete_entry :: "string \<Rightarrow> wait_status \<Rightarrow> entry" where
  "delete_entry n status =
     (if status = Exited 0 then nothing\<lparr>en_gone := {Device n}\<rparr> else nothing\<lparr>en_failed := {Device n}\<rparr>)"

definition opens :: "resource \<Rightarrow> bool \<Rightarrow> entry" where
  "opens x ok = nothing\<lparr>en_added := (if ok then {x} else {})\<rparr>"

definition closes :: "resource \<Rightarrow> entry" where
  "closes x = nothing\<lparr>en_gone := {x}\<rparr>"

definition add_dummy :: "string \<Rightarrow> string list" where
  "add_dummy n = [''ip'', ''link'', ''add'', n, ''type'', ''dummy'']"

definition delete_link :: "string \<Rightarrow> string list" where
  "delete_link n = [''ip'', ''link'', ''delete'', ''dev'', n]"

definition sets_link :: "string list \<Rightarrow> bool" where
  "sets_link args \<longleftrightarrow> take 3 args = [''ip'', ''link'', ''set'']"

definition host_accounts :: "('e \<Rightarrow> resource set) \<Rightarrow> ('e \<Rightarrow> resource set) \<Rightarrow> 'e host \<Rightarrow> bool" where
  "host_accounts B F H \<longleftrightarrow>
     quiet B F (monotime H) \<and> (\<forall>n. quiet B F (if_nametoindex H n)) \<and> (\<forall>n. quiet B F (hwaddr_type H n)) \<and>
     (\<forall>n. quiet B F (if_mtu H n)) \<and> quiet B F (ioctl_socket H) \<and> (\<forall>n d. quiet B F (tc_filter_show H n d)) \<and>
     (\<forall>p. quiet B F (unix_listen H p)) \<and> (\<forall>ls. quiet B F (write_state H ls)) \<and> (\<forall>i p. quiet B F (tc_hook_create H i p)) \<and>
     (\<forall>i p n pr h. accounts B F (tc_attach H i p n pr h) (attach_entry i p pr h)) \<and>
     (\<forall>i p pr h. accounts B F (tc_query H i p pr h) (query_entry i p pr h)) \<and>
     (\<forall>i p pr h. accounts B F (tc_detach H i p pr h) (detach_entry i p pr h)) \<and>
     (\<forall>i. accounts B F (attach_tcx H i) (opens (Link i))) \<and> (\<forall>i. effect B F (link_destroy H i) (closes (Link i))) \<and>
     accounts B F (unix_socket H) (opens (Open Server))"

definition sys_accounts :: "('e \<Rightarrow> resource set) \<Rightarrow> ('e \<Rightarrow> resource set) \<Rightarrow> 'e sys \<Rightarrow> bool" where
  "sys_accounts B F S \<longleftrightarrow>
     (\<forall>d. quiet B F (make_dir S d)) \<and> (\<forall>d. quiet B F (private_dir S d)) \<and> quiet B F (take_lock S) \<and>
     effect B F (raise_memlock S) nothing \<and> (\<forall>t u. quiet B F (load_object S t u)) \<and> quiet B F (random_seed S) \<and>
     (\<forall>n. quiet B F (name_tun S n)) \<and> (\<forall>n. quiet B F (disable_ipv6 S n)) \<and> quiet B F (netlink_bind S) \<and>
     (\<forall>p. effect B F (unlink_file S p) nothing) \<and> (\<forall>w. entered B F (w_env w) nothing (w_env (nap S w))) \<and>
     (\<forall>p. accounts B F (open_lock S p) (opens (Open Lock))) \<and> (\<forall>p. accounts B F (open_object S p) (opens (Open Object))) \<and>
     accounts B F (open_tun S) (opens (Open Tun)) \<and> accounts B F (netlink_socket S) (opens (Open Route)) \<and>
     (\<forall>h. effect B F (close_handle S h) (closes (Open h))) \<and>
     (\<forall>args. sets_link args \<longrightarrow> quiet B F (run_command S args)) \<and>
     (\<forall>n. accounts B F (run_command S (add_dummy n)) (add_entry n)) \<and>
     (\<forall>n. accounts B F (run_command S (delete_link n)) (delete_entry n))"

definition past_accounts :: "('e \<Rightarrow> resource set) \<Rightarrow> ('e \<Rightarrow> resource set) \<Rightarrow> 'e past \<Rightarrow> bool" where
  "past_accounts B F P \<longleftrightarrow>
     quiet B F (state_file P) \<and> (\<forall>n. quiet B F (ifalias P n)) \<and> (\<forall>n. effect B F (delete_device P n) nothing)"

section \<open>What is accounted for\<close>

text \<open>
  The proofs keep the books over the resources that are held and not in the log (\<open>unreported\<close>). Over these a
  call either adds, or gives back, or does neither.
\<close>

definition unreported :: "('e \<Rightarrow> resource set) \<Rightarrow> ('e \<Rightarrow> resource set) \<Rightarrow> 'e \<Rightarrow> resource set" where
  "unreported B F e = B e - F e"

definition acquires :: "('e \<Rightarrow> resource set) \<Rightarrow> ('e \<Rightarrow> 'x \<times> 'e) \<Rightarrow> ('x \<Rightarrow> resource set) \<Rightarrow> bool" where
  "acquires B f X \<longleftrightarrow> (\<forall>e x e'. f e = (x, e') \<longrightarrow> B e' \<subseteq> B e \<union> X x)"

definition releases :: "('e \<Rightarrow> resource set) \<Rightarrow> ('e \<Rightarrow> 'e) \<Rightarrow> resource set \<Rightarrow> bool" where
  "releases B f X \<longleftrightarrow> (\<forall>e. B (f e) \<subseteq> B e - X)"

definition neutral :: "('e \<Rightarrow> resource set) \<Rightarrow> ('e \<Rightarrow> 'x \<times> 'e) \<Rightarrow> bool" where
  "neutral B f \<longleftrightarrow> releases B (\<lambda>e. snd (f e)) {}"

definition host_books :: "('e \<Rightarrow> resource set) \<Rightarrow> 'e host \<Rightarrow> bool" where
  "host_books B H \<longleftrightarrow>
     neutral B (monotime H) \<and> (\<forall>n. neutral B (if_nametoindex H n)) \<and> (\<forall>n. neutral B (hwaddr_type H n)) \<and>
     (\<forall>n. neutral B (if_mtu H n)) \<and> neutral B (ioctl_socket H) \<and> (\<forall>n d. neutral B (tc_filter_show H n d)) \<and>
     (\<forall>p. neutral B (unix_listen H p)) \<and> (\<forall>ls. neutral B (write_state H ls)) \<and> (\<forall>i p. neutral B (tc_hook_create H i p)) \<and>
     (\<forall>i p n pr h. acquires B (tc_attach H i p n pr h) (\<lambda>x. case x of None \<Rightarrow> {} | Some k \<Rightarrow> {Filter i p pr h k})) \<and>
     (\<forall>i p pr h. neutral B (tc_query H i p pr h)) \<and>
     (\<forall>i p pr h e k. Filter i p pr h k \<in> B (snd (tc_query H i p pr h e)) \<longrightarrow> fst (tc_query H i p pr h e) = Some k) \<and>
     (\<forall>i p pr h. releases B (\<lambda>e. snd (tc_detach H i p pr h e)) (range (Filter i p pr h))) \<and>
     (\<forall>i. acquires B (attach_tcx H i) (\<lambda>ok. if ok then {Link i} else {})) \<and>
     (\<forall>i. releases B (link_destroy H i) {Link i}) \<and>
     acquires B (unix_socket H) (\<lambda>ok. if ok then {Open Server} else {})"

lemma host_booksD:
  assumes "host_books B H"
  shows "neutral B (monotime H)" "neutral B (if_nametoindex H n)" "neutral B (hwaddr_type H n)" "neutral B (if_mtu H n)"
    "neutral B (ioctl_socket H)" "neutral B (tc_filter_show H n d)" "neutral B (unix_listen H p)" "neutral B (write_state H ls)"
    "neutral B (tc_hook_create H i pt)"
    "acquires B (tc_attach H i pt n pr h) (\<lambda>x. case x of None \<Rightarrow> {} | Some k \<Rightarrow> {Filter i pt pr h k})"
    "neutral B (tc_query H i pt pr h)"
    "Filter i pt pr h k \<in> B (snd (tc_query H i pt pr h e)) \<Longrightarrow> fst (tc_query H i pt pr h e) = Some k"
    "releases B (\<lambda>e. snd (tc_detach H i pt pr h e)) (range (Filter i pt pr h))"
    "acquires B (attach_tcx H i) (\<lambda>ok. if ok then {Link i} else {})" "releases B (link_destroy H i) {Link i}"
    "acquires B (unix_socket H) (\<lambda>ok. if ok then {Open Server} else {})"
  using assms by (simp_all add: host_books_def)

definition sys_books :: "('e \<Rightarrow> resource set) \<Rightarrow> 'e sys \<Rightarrow> bool" where
  "sys_books B S \<longleftrightarrow>
     (\<forall>d. neutral B (make_dir S d)) \<and> (\<forall>d. neutral B (private_dir S d)) \<and> neutral B (take_lock S) \<and>
     releases B (raise_memlock S) {} \<and> (\<forall>t u. neutral B (load_object S t u)) \<and> neutral B (random_seed S) \<and>
     (\<forall>n. neutral B (name_tun S n)) \<and> (\<forall>n. neutral B (disable_ipv6 S n)) \<and> neutral B (netlink_bind S) \<and>
     (\<forall>p. releases B (unlink_file S p) {}) \<and> (\<forall>w. B (w_env (nap S w)) \<subseteq> B (w_env w)) \<and>
     (\<forall>p. acquires B (open_lock S p) (\<lambda>ok. if ok then {Open Lock} else {})) \<and>
     (\<forall>p. acquires B (open_object S p) (\<lambda>ok. if ok then {Open Object} else {})) \<and>
     acquires B (open_tun S) (\<lambda>ok. if ok then {Open Tun} else {}) \<and>
     acquires B (netlink_socket S) (\<lambda>ok. if ok then {Open Route} else {}) \<and>
     (\<forall>h. releases B (close_handle S h) {Open h}) \<and>
     (\<forall>args. sets_link args \<longrightarrow> neutral B (run_command S args)) \<and>
     (\<forall>n. acquires B (run_command S (add_dummy n)) (\<lambda>status. if status = Exited 0 then {Device n} else {})) \<and>
     (\<forall>n. releases B (\<lambda>e. snd (run_command S (delete_link n) e)) {Device n})"

lemma sys_booksD:
  assumes "sys_books B S"
  shows "neutral B (make_dir S d)" "neutral B (private_dir S d)" "neutral B (take_lock S)" "releases B (raise_memlock S) {}"
    "neutral B (load_object S t u)" "neutral B (random_seed S)" "neutral B (name_tun S n)" "neutral B (disable_ipv6 S n)"
    "neutral B (netlink_bind S)" "releases B (unlink_file S p) {}" "B (w_env (nap S w)) \<subseteq> B (w_env w)"
    "acquires B (open_lock S p) (\<lambda>ok. if ok then {Open Lock} else {})"
    "acquires B (open_object S p) (\<lambda>ok. if ok then {Open Object} else {})"
    "acquires B (open_tun S) (\<lambda>ok. if ok then {Open Tun} else {})"
    "acquires B (netlink_socket S) (\<lambda>ok. if ok then {Open Route} else {})"
    "releases B (close_handle S h) {Open h}"
    "sets_link args \<Longrightarrow> neutral B (run_command S args)"
    "acquires B (run_command S (add_dummy n)) (\<lambda>status. if status = Exited 0 then {Device n} else {})"
    "releases B (\<lambda>e. snd (run_command S (delete_link n) e)) {Device n}"
  using assms by (simp_all add: sys_books_def)

definition past_books :: "('e \<Rightarrow> resource set) \<Rightarrow> 'e past \<Rightarrow> bool" where
  "past_books B P \<longleftrightarrow> neutral B (state_file P) \<and> (\<forall>n. neutral B (ifalias P n)) \<and> (\<forall>n. releases B (delete_device P n) {})"

lemma acquiresD: "acquires B f X \<Longrightarrow> f e = (x, e') \<Longrightarrow> B e' \<subseteq> B e \<union> X x"
  unfolding acquires_def by blast

lemma releasesD: "releases B f X \<Longrightarrow> B (f e) \<subseteq> B e - X"
  unfolding releases_def by blast

lemma neutralD: "neutral B f \<Longrightarrow> f e = (x, e') \<Longrightarrow> B e' \<subseteq> B e"
  unfolding neutral_def releases_def by (metis Diff_empty snd_conv)

lemma neutral_snd: "neutral B f \<Longrightarrow> B (snd (f e)) \<subseteq> B e"
  by (metis neutralD surjective_pairing)

text \<open>The contract of the calls gives these laws for the resources that are not in the log.\<close>

lemma entered_unreported:
  "entered B F e x e' \<Longrightarrow> unreported B F e' \<subseteq> (unreported B F e \<union> en_added x) - en_gone x - en_failed x"
  unfolding entered_def unreported_def by blast

lemma accounts_unreported:
  "accounts B F f X \<Longrightarrow> f e = (x, e') \<Longrightarrow> unreported B F e' \<subseteq> (unreported B F e \<union> en_added (X x)) - en_gone (X x) - en_failed (X x)"
  unfolding accounts_def by (blast intro!: entered_unreported)

lemma entry_simps [simp]:
  "en_added nothing = {}" "en_gone nothing = {}" "en_failed nothing = {}"
  "en_added (opens x ok) = (if ok then {x} else {})" "en_gone (opens x ok) = {}" "en_failed (opens x ok) = {}"
  "en_added (closes x) = {}" "en_gone (closes x) = {x}" "en_failed (closes x) = {}"
  by (simp_all add: nothing_def opens_def closes_def)

lemmas report_entries = attach_entry_def query_entry_def detach_entry_def add_entry_def delete_entry_def

lemma accounts_acquires:
  assumes "accounts B F f X" and "\<And>x. en_added (X x) \<subseteq> en_failed (X x) \<union> Y x"
  shows "acquires (unreported B F) f Y"
  unfolding acquires_def
proof (intro allI impI)
  fix e x e' assume "f e = (x, e')"
  from accounts_unreported [OF assms(1) this] assms(2) [of x] show "unreported B F e' \<subseteq> unreported B F e \<union> Y x" by blast
qed

lemma accounts_releases:
  assumes "accounts B F f X" and "\<And>x. en_added (X x) = {} \<and> Y \<subseteq> en_gone (X x) \<union> en_failed (X x)"
  shows "releases (unreported B F) (\<lambda>e. snd (f e)) Y"
  unfolding releases_def
proof
  fix e
  obtain x e' where f: "f e = (x, e')" by fastforce
  from accounts_unreported [OF assms(1) f] assms(2) [of x] f show "unreported B F (snd (f e)) \<subseteq> unreported B F e - Y" by auto
qed

lemma quiet_neutral: "quiet B F f \<Longrightarrow> neutral (unreported B F) f"
  unfolding quiet_def neutral_def by (erule accounts_releases) simp

lemma effect_releases: "effect B F f x \<Longrightarrow> en_added x = {} \<Longrightarrow> Y \<subseteq> en_gone x \<Longrightarrow> releases (unreported B F) f Y"
  unfolding effect_def releases_def using entered_unreported [of B F _ x] by fastforce

lemma effect_nothing: "effect B F f nothing \<Longrightarrow> releases (unreported B F) f {}"
  by (erule effect_releases) simp_all

lemma effect_closes: "effect B F f (closes x) \<Longrightarrow> releases (unreported B F) f {x}"
  by (erule effect_releases) simp_all

lemma opens_acquires: "accounts B F f (opens x) \<Longrightarrow> acquires (unreported B F) f (\<lambda>ok. if ok then {x} else {})"
  by (erule accounts_acquires) simp

lemma attach_acquires:
  "accounts B F f (attach_entry i p pr h) \<Longrightarrow> acquires (unreported B F) f (\<lambda>x. case x of None \<Rightarrow> {} | Some k \<Rightarrow> {Filter i p pr h k})"
  by (erule accounts_acquires) (simp add: report_entries split: option.split)

lemma query_names:
  assumes "accounts B F f (query_entry i p pr h)" and "Filter i p pr h k \<in> unreported B F (snd (f e))"
  shows "fst (f e) = Some k"
proof -
  obtain x e' where f: "f e = (x, e')" by fastforce
  from accounts_unreported [OF assms(1) f] assms(2) f show ?thesis by (cases x) (auto simp: report_entries)
qed

lemma query_neutral: "accounts B F f (query_entry i p pr h) \<Longrightarrow> neutral (unreported B F) f"
  unfolding neutral_def by (erule accounts_releases) (simp add: report_entries split: option.split)

lemma detach_releases:
  "accounts B F f (detach_entry i p pr h) \<Longrightarrow> releases (unreported B F) (\<lambda>e. snd (f e)) (range (Filter i p pr h))"
  by (erule accounts_releases) (simp add: report_entries)

lemma host_accounts_books:
  assumes "host_accounts B F H"
  shows "host_books (unreported B F) H"
proof -
  note a = assms [unfolded host_accounts_def]
  have "accounts B F (tc_query H i p pr h) (query_entry i p pr h)" for i p pr h using a by blast
  note q = query_neutral [OF this] query_names [OF this]
  have "accounts B F (tc_attach H i p n pr h) (attach_entry i p pr h)" "accounts B F (tc_detach H i p pr h) (detach_entry i p pr h)"
    for i p n pr h using a by blast+
  note t = attach_acquires [OF this(1)] detach_releases [OF this(2)]
  show ?thesis unfolding host_books_def using a q t
    by (simp add: quiet_neutral opens_acquires effect_closes)
qed

lemma add_acquires:
  "accounts B F f (add_entry n) \<Longrightarrow> acquires (unreported B F) f (\<lambda>status. if status = Exited 0 then {Device n} else {})"
  by (erule accounts_acquires) (simp add: report_entries)

lemma delete_releases: "accounts B F f (delete_entry n) \<Longrightarrow> releases (unreported B F) (\<lambda>e. snd (f e)) {Device n}"
  by (erule accounts_releases) (simp add: report_entries)

lemma entered_nothing: "entered B F e nothing e' \<Longrightarrow> unreported B F e' \<subseteq> unreported B F e"
  by (drule entered_unreported) simp

lemma sys_accounts_books: "sys_accounts B F S \<Longrightarrow> sys_books (unreported B F) S"
  unfolding sys_accounts_def sys_books_def
  by (intro conjI allI impI; elim conjE)
    (simp_all add: quiet_neutral opens_acquires add_acquires delete_releases effect_nothing effect_closes entered_nothing)

lemma past_accounts_books: "past_accounts B F P \<Longrightarrow> past_books (unreported B F) P"
  unfolding past_accounts_def past_books_def by (simp add: quiet_neutral effect_nothing)

section \<open>Giving back\<close>

lemma detach_books:
  assumes "host_books B H"
  shows "releases B (ff_detach H a) {filter_of a}"
  unfolding releases_def
proof
  fix e
  let ?q = "tc_query H (a_index a) (a_point a) (a_priority a) (a_handle a)"
  obtain x e1 where q: "?q e = (x, e1)" by fastforce
  have e1: "B e1 \<subseteq> B e" by (rule neutralD [OF host_booksD(11) [OF assms] q])
  show "B (ff_detach H a e) \<subseteq> B e - {filter_of a}"
  proof (cases "x = Some (a_id a)")
    case True
    then have "ff_detach H a e = snd (tc_detach H (a_index a) (a_point a) (a_priority a) (a_handle a) e1)"
      by (simp add: ff_detach_def q)
    with releasesD [OF host_booksD(13) [OF assms, of "a_index a" "a_point a" "a_priority a" "a_handle a"], of e1] e1
    show ?thesis by (auto simp: filter_of_def)
  next
    case False
    then have "ff_detach H a e = e1" by (simp add: ff_detach_def q split: option.split)
    moreover have "filter_of a \<notin> B e1"
      using host_booksD(12) [OF assms, of "a_index a" "a_point a" "a_priority a" "a_handle a" "a_id a" e] False
      by (auto simp: filter_of_def q)
    ultimately show ?thesis using e1 by auto
  qed
qed

lemma detach_all_books:
  assumes "host_books B H"
  shows "releases B (fold (ff_detach H) as) (filter_of ` set as)"
  unfolding releases_def
proof
  fix e
  show "B (fold (ff_detach H) as e) \<subseteq> B e - filter_of ` set as"
  proof (induction as arbitrary: e)
    case (Cons a as)
    from Cons [of "ff_detach H a e"] releasesD [OF detach_books [OF assms], of a e] show ?case by auto
  qed simp
qed

lemma destroy_links_books:
  assumes "host_books B H"
  shows "releases B (destroy_links H ls) {Link j | j. (j, True) \<in> set ls}"
  unfolding releases_def
proof
  fix e
  show "B (destroy_links H ls e) \<subseteq> B e - {Link j | j. (j, True) \<in> set ls}"
  proof (induction ls arbitrary: e)
    case (Cons l ls)
    obtain idx linked where l: "l = (idx, linked)" by fastforce
    from Cons [of "if linked then link_destroy H idx e else e"] releasesD [OF host_booksD(15) [OF assms], of idx e]
    show ?case by (cases linked) (auto simp: l)
  qed simp
qed

text \<open>Forgetting the filters of an interface keeps the rest of the table, and its links those of the others.\<close>

lemma set_swap_last: "i < length as \<Longrightarrow> set as \<subseteq> insert (as ! i) (set (butlast (as[i := last as])))"
proof
  fix x assume i: "i < length as" and "x \<in> set as"
  then obtain k where k: "k < length as" "x = as ! k" by (auto simp: in_set_conv_nth)
  let ?bs = "as[i := last as]"
  have len: "length (butlast ?bs) = length as - 1" by simp
  consider "k = i" | "k \<noteq> i" "k < length as - 1" | "k \<noteq> i" "k = length as - 1" using k(1) by linarith
  then show "x \<in> insert (as ! i) (set (butlast ?bs))"
  proof cases
    case 2
    then have "butlast ?bs ! k = as ! k" using len by (simp add: nth_butlast)
    with 2(2) k(2) len show ?thesis by (metis insertCI nth_mem)
  next
    case 3
    then have "i < length as - 1" using i by linarith
    moreover have "last as = as ! k" using 3(2) k(1) last_conv_nth [of as] by fastforce
    ultimately have "butlast ?bs ! i = x" using len k(2) i by (simp add: nth_butlast)
    with \<open>i < length as - 1\<close> len show ?thesis by (metis insertCI nth_mem)
  qed (use k in simp)
qed

lemma drop_filters_books:
  assumes "host_books B H"
  shows "drop_filters H idx i as e = (as', e') \<Longrightarrow> B e \<subseteq> X \<union> filter_of ` set as \<Longrightarrow> B e' \<subseteq> X \<union> filter_of ` set as'"
  using assms
proof (induction H idx i as e rule: drop_filters.induct)
  case (1 H idx i as e)
  show ?case
  proof (cases "length as \<le> i")
    case True
    with "1.prems" show ?thesis by (simp add: drop_filters.simps)
  next
    case False
    show ?thesis
    proof (cases "a_index (as ! i) = idx")
      case True
      let ?as = "butlast (as[i := last as])" and ?e = "ff_detach H (as ! i) e"
      have run: "drop_filters H idx i ?as ?e = (as', e')"
        using "1.prems"(1) False True by (simp add: drop_filters.simps [of H idx i as])
      have "B ?e \<subseteq> X \<union> filter_of ` set ?as"
        using releasesD [OF detach_books [OF "1.prems"(3)], of "as ! i" e] "1.prems"(2) set_swap_last [of i as] False by auto
      from "1.IH"(1) [OF False True run this "1.prems"(3)] show ?thesis .
    next
      case other: False
      have run: "drop_filters H idx (i + 1) as e = (as', e')"
        using "1.prems"(1) False other by (simp add: drop_filters.simps [of H idx i as])
      from "1.IH"(2) [OF False other run "1.prems"(2,3)] show ?thesis .
    qed
  qed
qed

lemma drop_links_books:
  assumes B: "host_books B H"
  shows "drop_links H idx js ls e = (ls', e') \<Longrightarrow> B e \<subseteq> X \<union> link_set js ls \<Longrightarrow> B e' \<subseteq> X \<union> link_set js ls'"
proof (induction js arbitrary: ls ls' e X)
  case (Cons j js)
  show ?case
  proof (cases ls)
    case Nil
    with Cons.prems show ?thesis by (simp add: link_set_def)
  next
    case ls: (Cons l ls1)
    let ?e = "if j = idx \<and> l then link_destroy H idx e else e"
    obtain ls2 where d: "drop_links H idx js ls1 ?e = (ls2, e')" and ls': "ls' = (if j = idx then False else l) # ls2"
      using Cons.prems(1) by (auto simp: ls split: prod.splits)
    let ?Y = "X \<union> (if j \<noteq> idx \<and> l then {Link j} else {})"
    have "B ?e \<subseteq> ?Y \<union> link_set js ls1"
      using Cons.prems(2) releasesD [OF host_booksD(15) [OF B], of idx e] by (auto simp: ls link_set_def split: if_splits)
    from Cons.IH [OF d this] show ?thesis by (auto simp: ls' link_set_def split: if_splits)
  qed
qed (simp add: link_set_def)

section \<open>The books of the daemon\<close>

text \<open>A slot with an ingress link is that of a device, and has an index.\<close>

definition slots_ok :: "runtime \<Rightarrow> bool" where
  "slots_ok r \<longleftrightarrow> arrays_ok r \<and>
     (\<forall>i < 8. rt_ingress r ! i \<longrightarrow> rt_index r ! i \<noteq> 0 \<and> i < length (o_devices (rt_options r)))"

text \<open>Nothing is held but what was held before and what the process knows of.\<close>

definition in_books :: "('e \<Rightarrow> resource set) \<Rightarrow> resource set \<Rightarrow> runtime \<times> 'e world \<Rightarrow> bool" where
  "in_books B base = (\<lambda>(r, w). B (w_env w) \<subseteq> base \<union> ours r \<and> slots_ok r)"

definition same_fixtures :: "runtime \<Rightarrow> runtime \<Rightarrow> bool" where
  "same_fixtures r r' \<longleftrightarrow> handles r' = handles r \<and> rt_dummy r' = rt_dummy r \<and> rt_loaded r' = rt_loaded r \<and>
     length (o_devices (rt_options r')) = length (o_devices (rt_options r))"

text \<open>A step that keeps the books and the handles, and switches nothing on.\<close>

definition tended :: "('e \<Rightarrow> resource set) \<Rightarrow> runtime \<times> 'e world \<Rightarrow> runtime \<times> 'e world \<Rightarrow> bool" where
  "tended B a b \<longleftrightarrow> same_fixtures (fst a) (fst b) \<and> (\<forall>base. in_books B base a \<longrightarrow> in_books B base b)"

interpretation tended: frame "tended B" for B
  by unfold_locales (auto simp: tended_def same_fixtures_def)

lemmas tended_trans = tended.same_trans

lemma tended_env:
  assumes "B e' \<subseteq> B (w_env w)"
  shows "tended B (r, w) (r, w'\<lparr>w_env := e'\<rparr>)"
  using assms by (auto simp: tended_def same_fixtures_def in_books_def)

lemma tended_world: "w_env w' = w_env w \<Longrightarrow> tended B (r, w) (r, w')"
  by (auto simp: tended_def same_fixtures_def in_books_def)

text \<open>Fields that the books do not read may change.\<close>

lemma tended_fields:
  assumes "rt_attached r' = rt_attached r" "rt_ingress r' = rt_ingress r" "rt_index r' = rt_index r"
    "length (rt_generation r') = length (rt_generation r)" "same_fixtures r r'" "w_env w' = w_env w"
  shows "tended B (r, w) (r', w')"
  using assms by (auto simp: tended_def in_books_def ours_def slots_ok_def arrays_ok_def same_fixtures_def)

lemma save_state_books: "host_books B H \<Longrightarrow> save_state H r w = (err, w') \<Longrightarrow> B (w_env w') \<subseteq> B (w_env w)"
  using neutral_snd [OF host_booksD(8), of B H "state_lines r" "w_env w"] by (auto simp: save_state_def split: prod.splits)

lemma attach_books:
  assumes "host_books B H" and "ff_attach H idx p name prio e = (out, e')"
  shows "B e' \<subseteq> B e \<union> (case out of None \<Rightarrow> {} | Some a \<Rightarrow> {filter_of a})"
proof -
  obtain err e1 where h: "tc_hook_create H idx p e = (err, e1)" by fastforce
  have e1: "B e1 \<subseteq> B e" by (rule neutralD [OF host_booksD(9) [OF assms(1)] h])
  obtain k e2 where t: "tc_attach H idx p name prio 1 e1 = (k, e2)" by fastforce
  have "B e2 \<subseteq> B e1 \<union> (case k of None \<Rightarrow> {} | Some k \<Rightarrow> {Filter idx p prio 1 k})"
    by (rule acquiresD [OF host_booksD(10) [OF assms(1)] t])
  with assms(2) h t e1 show ?thesis
    by (auto simp: ff_attach_def filter_of_def split: if_splits option.splits)
qed

lemma attach_one_tended:
  assumes B: "host_books B H" and run: "attach_one H idx p name prio (r, w) = (err, r', w')"
  shows "tended B (r, w) (r', w')" and "\<exists>as. r' = r\<lparr>rt_attached := as\<rparr>"
proof -
  show "\<exists>as. r' = r\<lparr>rt_attached := as\<rparr>"
  proof (cases "FF_ATTACHED_MAX \<le> length (rt_attached r)")
    case True
    with run show ?thesis by (intro exI [of _ "rt_attached r"]) (simp add: attach_one_def)
  next
    case False
    obtain out e where at: "ff_attach H idx p name prio (w_env w) = (out, e)" by fastforce
    from run at False show ?thesis
      by (cases out) (auto simp: attach_one_def Let_def split: prod.splits intro: exI [of _ "rt_attached r"])
  qed
  show "tended B (r, w) (r', w')"
  proof (cases "FF_ATTACHED_MAX \<le> length (rt_attached r)")
    case True
    with run have "r' = r" "w' = w" by (simp_all add: attach_one_def)
    then show ?thesis by (simp add: tended.same_refl)
  next
    case False
    obtain out e where at: "ff_attach H idx p name prio (w_env w) = (out, e)" by fastforce
    note b = attach_books [OF B at]
    show ?thesis
    proof (cases out)
      case None
      with run at False have "r' = r" "w' = w\<lparr>w_env := e\<rparr>" by (simp_all add: attach_one_def)
      with b None tended_env [of B e w r w] show ?thesis by simp
    next
      case (Some a)
      let ?r = "r\<lparr>rt_attached := rt_attached r @ [a]\<rparr>"
      obtain err2 w2 where sv: "save_state H ?r (w\<lparr>w_env := e\<rparr>) = (err2, w2)" by fastforce
      have "B (w_env w2) \<subseteq> B (w_env w) \<union> {filter_of a}" using save_state_books [OF B sv] b Some by auto
      moreover have "r' = ?r" "w' = w2" using run at False Some sv by (simp_all add: attach_one_def Let_def)
      ultimately show ?thesis using False
        by (auto simp: tended_def same_fixtures_def in_books_def ours_def handles_def slots_ok_def arrays_ok_def)
    qed
  qed
qed

lemma drop_links_flags:
  "drop_links H idx js ls e = (ls', e') \<Longrightarrow> length js \<le> length ls \<Longrightarrow> i < length ls \<Longrightarrow>
     ls' ! i \<Longrightarrow> ls ! i \<and> (i < length js \<longrightarrow> js ! i \<noteq> idx)"
proof (induction js arbitrary: ls ls' e i)
  case (Cons j js)
  then obtain l ls1 where ls: "ls = l # ls1" by (cases ls) auto
  obtain ls2 where d: "drop_links H idx js ls1 (if j = idx \<and> l then link_destroy H idx e else e) = (ls2, e')"
    and ls': "ls' = (if j = idx then False else l) # ls2"
    using Cons.prems(1) by (auto simp: ls split: prod.splits)
  show ?case
  proof (cases i)
    case 0
    with Cons.prems(4) show ?thesis by (auto simp: ls ls' split: if_splits)
  next
    case (Suc k)
    with Cons.IH [OF d, of k] Cons.prems(2-4) show ?thesis by (auto simp: ls ls')
  qed
qed simp

lemma link_set_nth: "link_set js ls = {Link (js ! i) | i. i < length js \<and> i < length ls \<and> ls ! i}"
  by (auto simp: link_set_def set_zip)

lemma link_set_take:
  assumes len: "length js = length ls" and dev: "\<And>i. i < length ls \<Longrightarrow> ls ! i \<Longrightarrow> i < n"
  shows "link_set (take n js) ls = link_set js ls"
proof
  show "link_set (take n js) ls \<subseteq> link_set js ls" unfolding link_set_nth by auto
  show "link_set js ls \<subseteq> link_set (take n js) ls"
  proof
    fix x assume "x \<in> link_set js ls"
    then obtain i where i: "x = Link (js ! i)" "i < length ls" "ls ! i" unfolding link_set_nth by blast
    with dev len have "i < length (take n js)" "x = Link (take n js ! i)" by simp_all
    with i show "x \<in> link_set (take n js) ls" unfolding link_set_nth by blast
  qed
qed

lemma slots_link_set:
  assumes "slots_ok r"
  shows "link_set (take (length (o_devices (rt_options r))) (rt_index r)) (rt_ingress r) = link_set (rt_index r) (rt_ingress r)"
  by (rule link_set_take) (use assms in \<open>auto simp: slots_ok_def arrays_ok_def\<close>)

text \<open>After an index is forgotten no slot with that index has a link.\<close>

lemma forget_index_tended:
  assumes B: "host_books B H" and run: "forget_index H idx (r, w) = (r', w')"
  shows "tended B (r, w) (r', w')" and "rt_index r' = rt_index r" and "rt_options r' = rt_options r"
    and "slots_ok r \<Longrightarrow> i < 8 \<Longrightarrow> rt_index r ! i = idx \<Longrightarrow> \<not> rt_ingress r' ! i"
proof -
  let ?n = "length (o_devices (rt_options r))"
  obtain ls e where dl: "drop_links H idx (take ?n (rt_index r)) (rt_ingress r) (w_env w) = (ls, e)" by fastforce
  obtain as e2 where df: "drop_filters H idx 0 (rt_attached r) e = (as, e2)" by fastforce
  let ?r = "r\<lparr>rt_ingress := ls, rt_attached := as\<rparr>"
  obtain err w2 where sv: "save_state H ?r (w\<lparr>m_interfaces := (m_interfaces w)(idx := None), w_env := e2\<rparr>) = (err, w2)" by fastforce
  have res: "(r', w') = (if idx = 0 then (r, w) else (?r, w2))"
    using run dl df sv by (auto simp: forget_index_def Let_def)
  then show "rt_index r' = rt_index r" "rt_options r' = rt_options r" by (auto split: if_splits)
  have flags: "rt_ingress r ! i \<and> (i < ?n \<longrightarrow> rt_index r ! i \<noteq> idx)" if "slots_ok r" "i < 8" "ls ! i" for i
    using drop_links_flags [OF dl, of i] that by (auto simp: slots_ok_def arrays_ok_def)
  show "\<not> rt_ingress r' ! i" if "slots_ok r" "i < 8" "rt_index r ! i = idx"
  proof (cases "idx = 0")
    case True
    with res that show ?thesis by (auto simp: slots_ok_def)
  next
    case False
    with res flags [OF that(1,2)] that show ?thesis by (auto simp: slots_ok_def)
  qed
  show "tended B (r, w) (r', w')"
  proof (cases "idx = 0")
    case True
    with res show ?thesis by (simp add: tended.same_refl)
  next
    case False
    have same: "same_fixtures r ?r" by (simp add: same_fixtures_def handles_def)
    have "in_books B base (?r, w2)" if ok: "in_books B base (r, w)" for base
    proof -
      have slots: "slots_ok r" and held: "B (w_env w) \<subseteq> base \<union> ours r" using ok by (simp_all add: in_books_def)
      let ?X = "base \<union> filter_of ` set (rt_attached r) \<union> (if rt_dummy r = [] then {} else {Device (rt_dummy r)}) \<union> Open ` handles r"
      have "B (w_env w) \<subseteq> ?X \<union> link_set (take ?n (rt_index r)) (rt_ingress r)"
        using held by (auto simp: ours_def slots_link_set [OF slots])
      from drop_links_books [OF B dl this]
      have 1: "B e \<subseteq> (base \<union> link_set (take ?n (rt_index r)) ls \<union> (if rt_dummy r = [] then {} else {Device (rt_dummy r)}) \<union> Open ` handles r) \<union>
          filter_of ` set (rt_attached r)"
        by blast
      have len: "length ls = 8" using drop_links_length [OF dl] slots by (simp add: slots_ok_def arrays_ok_def)
      have as: "length as \<le> FF_ATTACHED_MAX" using drop_filters_length [OF df] slots by (simp add: slots_ok_def arrays_ok_def)
      have slots': "slots_ok ?r"
        unfolding slots_ok_def using slots flags len as by (auto simp: slots_ok_def arrays_ok_def)
      have "link_set (take ?n (rt_index r)) ls = link_set (rt_index r) ls" using slots_link_set [OF slots'] by simp
      then have "B e2 \<subseteq> base \<union> ours ?r"
        using drop_filters_books [OF B df 1] by (auto simp: ours_def handles_def)
      moreover have "B (w_env w2) \<subseteq> B e2" using save_state_books [OF B sv] by simp
      ultimately show ?thesis using slots' by (auto simp: in_books_def)
    qed
    with res same False show ?thesis by (simp add: tended_def)
  qed
qed

lemma set_index_tended:
  assumes "i < 8 \<Longrightarrow> \<not> rt_ingress r ! i"
  shows "tended B (r, w) (set_index i j r, w)"
proof (cases "slots_ok r")
  case True
  then have len: "length (rt_index r) = 8" "length (rt_ingress r) = 8" by (simp_all add: slots_ok_def arrays_ok_def)
  have same: "(rt_index r)[i := j] ! k = rt_index r ! k" if "k < 8" "rt_ingress r ! k" for k
    using that assms by (cases "k = i") simp_all
  have links: "link_set ((rt_index r)[i := j]) (rt_ingress r) = link_set (rt_index r) (rt_ingress r)"
    unfolding link_set_nth using len same by (metis (no_types, opaque_lifting) length_list_update)
  have "slots_ok (set_index i j r)" using True same by (simp add: slots_ok_def arrays_ok_def set_index_def)
  moreover have "ours (set_index i j r) = ours r" using links by (simp add: ours_def handles_def set_index_def)
  ultimately show ?thesis by (simp add: tended_def same_fixtures_def in_books_def handles_def set_index_def)
next
  case False
  then show ?thesis by (simp add: tended_def same_fixtures_def in_books_def handles_def set_index_def)
qed

text \<open>Forgetting a slot: no link is lost when its index is cleared.\<close>

lemma forget_slot_tended:
  assumes B: "host_books B H" and run: "forget_index H (rt_index r ! i) (r, w) = (r1, w1)"
  shows "tended B (r, w) (set_index i 0 r1, w1)"
proof -
  note f = forget_index_tended [OF B run]
  have "in_books B base (set_index i 0 r1, w1)" if "in_books B base (r, w)" for base
  proof -
    have "slots_ok r" using that by (simp add: in_books_def)
    then have "tended B (r1, w1) (set_index i 0 r1, w1)" using f(4) [of i] by (intro set_index_tended) simp
    from tended_trans [OF f(1) this] that show ?thesis by (simp add: tended_def)
  qed
  moreover have "same_fixtures r (set_index i 0 r1)" using f(1) by (auto simp: tended_def same_fixtures_def handles_def set_index_def)
  ultimately show ?thesis by (simp add: tended_def)
qed

lemma forget_device_tended:
  assumes "host_books B H"
  shows "tended B s (forget_device H i s)"
proof (cases s)
  case (Pair r w)
  obtain r1 w1 where f: "forget_index H (rt_index r ! i) (r, w) = (r1, w1)" by fastforce
  from forget_slot_tended [OF assms f] show ?thesis by (simp add: Pair forget_device_def f)
qed

lemma link_deleted_tended: "host_books B H \<Longrightarrow> tended B s (link_deleted H idx s)"
proof (cases s)
  case (Pair r w)
  assume "host_books B H"
  then show ?thesis unfolding link_deleted_def Pair prod.case
    by (intro tended.fold_same) (auto simp: forget_device_tended tended.same_refl split: prod.split)
qed

lemma events_lost_tended: "host_books B H \<Longrightarrow> tended B s (events_lost H s)"
proof (cases s)
  case (Pair r w)
  assume "host_books B H"
  then show ?thesis unfolding events_lost_def Pair prod.case by (intro tended.fold_same) (rule forget_device_tended)
qed

lemma link_books:
  assumes B: "host_books B H" and run: "ff_link H name mode e = (out, e')"
  shows "B e' \<subseteq> B e" and "out = Some (idx, mtu) \<Longrightarrow> idx \<noteq> 0"
proof -
  obtain i e1 where 1: "if_nametoindex H name e = (i, e1)" by fastforce
  obtain ok e2 where 2: "ioctl_socket H e1 = (ok, e2)" by fastforce
  obtain ty e3 where 3: "hwaddr_type H name e2 = (ty, e3)" by fastforce
  obtain m e4 where 4: "if_mtu H name e3 = (m, e4)" by fastforce
  have b: "B e1 \<subseteq> B e" "B e2 \<subseteq> B e1" "B e3 \<subseteq> B e2" "B e4 \<subseteq> B e3"
    using neutralD [OF host_booksD(2) [OF B] 1] neutralD [OF host_booksD(5) [OF B] 2]
      neutralD [OF host_booksD(3) [OF B] 3] neutralD [OF host_booksD(4) [OF B] 4] by auto
  have "e' = e1 \<or> e' = e2 \<or> e' = e3 \<or> e' = e4"
    using run by (auto simp: ff_link_def 1 2 3 4 split: if_splits option.splits)
  then show "B e' \<subseteq> B e" using b by blast
  show "out = Some (idx, mtu) \<Longrightarrow> idx \<noteq> 0"
    using run by (auto simp: ff_link_def 1 2 3 4 split: if_splits option.splits)
qed

lemma available_books:
  "host_books B H \<Longrightarrow> ff_priority_available H name d e = (taken, e') \<Longrightarrow> B e' \<subseteq> B e"
  using neutral_snd [OF host_booksD(6), of B H name d e]
  by (auto simp: ff_priority_available_def split: prod.splits option.splits)

text \<open>Attaching fills a slot that is free; a failure empties it again.\<close>

lemma attach_device_tended:
  assumes B: "host_books B H" and run: "attach_device H i name idx (r, w) = (err, r', w')"
    and free: "rt_index r ! i = 0" and idx: "idx \<noteq> 0" and i: "i < length (o_devices (rt_options r))"
  shows "tended B (r, w) (r', w')"
proof -
  obtain taken e where av: "ff_priority_available H name ''egress'' (w_env w) = (taken, e)" by fastforce
  obtain ok e2 where tc: "attach_tcx H idx e = (ok, e2)" by fastforce
  let ?r = "set_index i idx (r\<lparr>rt_ingress := (rt_ingress r)[i := True]\<rparr>)" and ?w = "w\<lparr>w_env := e2\<rparr>"
  obtain err2 r2 w2 where at: "attach_one H idx BPF_TC_EGRESS ''ff_egress'' 1 (?r, ?w) = (err2, r2, w2)" by (metis prod_cases3)
  obtain r3 w3 where fg: "forget_index H idx (r2, w2) = (r3, w3)" by fastforce
  have run': "attach_device H i name idx (r, w) =
      (if taken then (True, r, w\<lparr>w_env := e\<rparr>) else if \<not> ok then (True, r, ?w) else if err2 then (True, r3, w3)
       else (False, set_index i idx r2\<lparr>rt_epoch := rt_epoch r2 + 1, rt_generation := (rt_generation r2)[i := rt_epoch r2 + 1]\<rparr>, w2))"
    by (simp add: attach_device_def Let_def av tc at fg)
  have e: "B e \<subseteq> B (w_env w)" by (rule available_books [OF B av])
  have e2: "B e2 \<subseteq> B e \<union> (if ok then {Link idx} else {})" by (rule acquiresD [OF host_booksD(14) [OF B] tc])
  have linked: "tended B (r, w) (?r, ?w)" if ok
  proof -
    have same: "same_fixtures r ?r" by (simp add: same_fixtures_def handles_def set_index_def)
    have "in_books B base (?r, ?w)" if bk: "in_books B base (r, w)" for base
    proof -
      have slots: "slots_ok r" and held: "B (w_env w) \<subseteq> base \<union> ours r" using bk by (simp_all add: in_books_def)
      have len: "length (rt_index r) = 8" "length (rt_ingress r) = 8" "length (o_devices (rt_options r)) \<le> 8"
        using slots by (simp_all add: slots_ok_def arrays_ok_def)
      have i8: "i < 8" using i len by simp
      have off: "\<not> rt_ingress r ! i" using slots free i8 by (auto simp: slots_ok_def)
      have "link_set (rt_index r) (rt_ingress r) \<subseteq> link_set ((rt_index r)[i := idx]) ((rt_ingress r)[i := True])"
        unfolding link_set_nth using len off
        by clarsimp (metis (no_types, opaque_lifting) nth_list_update_neq)
      moreover have "Link idx \<in> link_set ((rt_index r)[i := idx]) ((rt_ingress r)[i := True])"
        unfolding link_set_nth using len i8 by (auto intro!: exI [of _ i])
      ultimately have "insert (Link idx) (ours r) \<subseteq> ours ?r" unfolding ours_def by (auto simp: handles_def set_index_def)
      moreover have "B e2 \<subseteq> B (w_env w) \<union> {Link idx}" using e e2 \<open>ok\<close> by auto
      moreover have "slots_ok ?r"
        using slots idx i len by (auto simp: slots_ok_def arrays_ok_def set_index_def nth_list_update)
      ultimately show ?thesis using held by (auto simp: in_books_def)
    qed
    with same show ?thesis by (simp add: tended_def)
  qed
  have r2: "tended B (r, w) (r2, w2)" if ok
    by (rule tended_trans [OF linked [OF that] attach_one_tended(1) [OF B at]])
  have idx2: "(rt_index r2)[i := idx] = rt_index r2" using attach_one_tended(2) [OF B at] by (auto simp: set_index_def)
  show ?thesis
  proof (cases "taken \<or> \<not> ok")
    case True
    have "B (w_env w') \<subseteq> B (w_env w)" "r' = r" "w' = w\<lparr>w_env := w_env w'\<rparr>" using run run' True e e2 by (auto split: if_splits)
    then show ?thesis using tended_env [of B "w_env w'" w r w] by metis
  next
    case False
    show ?thesis
    proof (cases err2)
      case True
      with run run' False tended_trans [OF r2 forget_index_tended(1) [OF B fg]] show ?thesis by auto
    next
      case ok: False
      have res: "r' = set_index i idx r2\<lparr>rt_epoch := rt_epoch r2 + 1, rt_generation := (rt_generation r2)[i := rt_epoch r2 + 1]\<rparr>" "w' = w2"
        using run run' False ok by auto
      have "tended B (r2, w2) (r', w')" unfolding res
        by (rule tended_fields) (simp_all add: set_index_def idx2 same_fixtures_def handles_def)
      with r2 False tended_trans show ?thesis by blast
    qed
  qed
qed

lemma refresh_device_tended:
  assumes B: "host_books B H" and i: "i < length (o_devices (rt_options r))"
    and run: "refresh_device H initial i d (r, w) = (err, r', w')"
  shows "tended B (r, w) (r', w')"
proof -
  obtain link e where li: "ff_link H (d_name d) (d_mode d) (w_env w) = (link, e)" by fastforce
  let ?w = "w\<lparr>w_env := e\<rparr>"
  define gone where "gone = (case link of None \<Rightarrow> True | Some (idx, mtu) \<Rightarrow> idx \<noteq> rt_index r ! i)"
  obtain r1 w1 where one: "(if gone then (case forget_index H (rt_index r ! i) (r, ?w) of (r, w) \<Rightarrow> (set_index i 0 r, w))
      else (r, ?w)) = (r1, w1)" by fastforce
  have env: "tended B (r, w) (r, ?w)" by (rule tended_env) (rule link_books(1) [OF B li])
  have m1: "tended B (r, w) (r1, w1) \<and> rt_options r1 = rt_options r"
  proof (cases gone)
    case True
    obtain r2 w2 where f: "forget_index H (rt_index r ! i) (r, ?w) = (r2, w2)" by fastforce
    from tended_trans [OF env forget_slot_tended [OF B f]] forget_index_tended(3) [OF B f] one f True
    show ?thesis by (auto simp: set_index_def)
  qed (use one env in auto)
  show ?thesis
  proof (cases link)
    case None
    with run li one show ?thesis using m1 by (auto simp: refresh_device_def Let_def gone_def)
  next
    case (Some l)
    obtain idx mtu where l: "l = (idx, mtu)" by fastforce
    have idx: "idx \<noteq> 0" by (rule link_books(2) [OF B li]) (simp add: Some l)
    obtain err2 r2 w2 where two: "(if rt_index r1 ! i = 0 then attach_device H i (d_name d) idx (r1, w1) else (False, r1, w1)) = (err2, r2, w2)"
      by (metis prod_cases3)
    have "tended B (r1, w1) (r2, w2)"
    proof (cases "rt_index r1 ! i = 0")
      case True
      with attach_device_tended [OF B _ True idx] two i m1 show ?thesis by simp
    qed (use two in \<open>simp add: tended.same_refl\<close>)
    with m1 have m2: "tended B (r, w) (r2, w2)" using tended_trans by blast
    obtain err3 m where iu: "interface_update H idx (interface_of r2 i (d_mode d) mtu) (m_interfaces w2) = (err3, m)" by fastforce
    have "r' = r2 \<and> w_env w' = w_env w2"
      using run li one two iu Some l by (cases err2) (auto simp: refresh_device_def Let_def gone_def)
    with tended_trans [OF m2 tended_world [of w' w2 B r2]] show ?thesis by simp
  qed
qed

lemma refresh_from_tended:
  assumes B: "host_books B H"
  shows "refresh_from H initial i ds (r, w) = (err, r', w') \<Longrightarrow> i + length ds \<le> length (o_devices (rt_options r)) \<Longrightarrow> tended B (r, w) (r', w')"
proof (induction ds arbitrary: i r w)
  case Nil
  then show ?case by (simp add: tended.same_refl)
next
  case (Cons d ds)
  obtain err1 r1 w1 where d: "refresh_device H initial i d (r, w) = (err1, r1, w1)" by (metis prod_cases3)
  have one: "tended B (r, w) (r1, w1)" by (rule refresh_device_tended [OF B _ d]) (use Cons.prems(2) in simp)
  show ?case
  proof (cases err1)
    case False
    with Cons.prems(1) d have run: "refresh_from H initial (i + 1) ds (r1, w1) = (err, r', w')" by simp
    have "i + 1 + length ds \<le> length (o_devices (rt_options r1))"
      using Cons.prems(2) one by (simp add: tended_def same_fixtures_def)
    from tended_trans [OF one Cons.IH [OF run this]] show ?thesis .
  qed (use Cons.prems d one in auto)
qed

lemma refresh_tended: "host_books B H \<Longrightarrow> refresh H initial (r, w) = (err, r', w') \<Longrightarrow> tended B (r, w) (r', w')"
  by (rule refresh_from_tended [of B H initial 0 "o_devices (rt_options r)"]) (simp_all add: refresh_def)

lemma lease_tended: "host_books B H \<Longrightarrow> lease H r on w = (err, w') \<Longrightarrow> tended B (r, w) (r, w')"
  using neutral_snd [OF host_booksD(1), of B H "w_env w"]
  by (intro tended_env [of B "w_env w'" w r "w'", simplified])
    (auto simp: lease_def Let_def split: prod.splits if_splits)

text \<open>Publishing and reaping touch the maps only.\<close>

lemma reap_loop_env:
  assumes "reap_loop H gen key w = Some w'"
  shows "w_env w' = w_env w"
proof (rule reap_loop.raw_induct [of "\<lambda>H gen key w w'. w_env w' = w_env w", OF _ assms])
  fix loop :: "'a host \<Rightarrow> u32 \<Rightarrow> u32 \<Rightarrow> 'a world \<Rightarrow> 'a world option" and H gen key w w'
  assume step: "\<And>H gen key w w'. loop H gen key w = Some w' \<Longrightarrow> w_env w' = w_env w"
    and "(case next_key (config_keys H (m_configs w)) (if key = 0 then None else Some key) of None \<Rightarrow> Some w
      | Some key \<Rightarrow> if key + 1 < gen
          then loop H gen 0 (w\<lparr>m_templates := clear_span (key * template_span) (unat template_span) (m_templates w),
            m_configs := (m_configs w)(key := None)\<rparr>)
          else loop H gen key w) = Some w'"
  then show "w_env w' = w_env w" by (auto split: option.splits if_splits dest!: step)
qed

lemma reap_tended: "reap_configs H r w = Some w' \<Longrightarrow> tended B (r, w) (r, w')"
  by (rule tended_world) (auto simp: reap_configs_def dest: reap_loop_env)

lemma publish_tended:
  assumes "publish H G op (r, w, rs) = Some (err, r', w', rs')" and "o_devices op = o_devices (rt_options r)"
  shows "tended B (r, w) (r', w')"
proof -
  have w': "w_env w' = w_env w"
    using assms(1) by (auto simp: publish_def publish_maps_def Let_def reap_configs_def dest!: reap_loop_env
      split: if_splits Option.bind_splits prod.splits option.splits)
  have "r' = r \<or> r' = r\<lparr>rt_config_gen := rt_config_gen r + 1, rt_options := op\<lparr>o_kernel := published_config (rt_config_gen r + 1) op\<rparr>\<rparr>"
    using assms(1) by (auto simp: publish_def Let_def split: if_splits Option.bind_splits prod.splits option.splits)
  then show ?thesis
  proof
    assume "r' = r"
    with tended_world [of w' w B r] w' show ?thesis by simp
  next
    assume r': "r' = r\<lparr>rt_config_gen := rt_config_gen r + 1, rt_options := op\<lparr>o_kernel := published_config (rt_config_gen r + 1) op\<rparr>\<rparr>"
    show ?thesis unfolding r' using assms(2) w'
      by (auto simp: tended_def same_fixtures_def handles_def in_books_def ours_def slots_ok_def arrays_ok_def)
  qed
qed

lemma reload_tended:
  assumes "reload H G files path (r, w, rs) = Some (res, r', w', rs')"
  shows "tended B (r, w) (r', w')"
proof -
  obtain out rs1 where rd: "ff_config_read G files path rs = (out, rs1)" by fastforce
  show ?thesis
  proof (cases "\<exists>op. out = Inr op \<and> same_layout (rt_options r) op")
    case False
    with assms rd have "r' = r \<and> w' = w" by (auto simp: reload_def split: sum.splits)
    then show ?thesis by (simp add: tended.same_refl)
  next
    case True
    then obtain op where op: "out = Inr op" "same_layout (rt_options r) op" by blast
    from assms rd op obtain err where p: "publish H G op (r, w, rs1) = Some (err, r', w', rs')"
      by (auto simp: reload_def split: Option.bind_splits)
    show ?thesis by (rule publish_tended [OF p]) (use op(2) in \<open>simp add: same_layout_def\<close>)
  qed
qed

end
