(* ===== verification/Duties.thy ===== *)
theory Duties
  imports Ledger
begin

text \<open>
  What a turn of the event loop of \<open>ebpf/user/lifecycle.c\<close> is for: the lease is renewed in time, old
  generations go when no reload was recent, and a reload is stamped and its file remembered. The first part follows
  the calls of the host through every operation of a turn, so that a clock that does not go back orders the readings.
\<close>

section \<open>The calls of a step\<close>

text \<open>The environment after one call of the host.\<close>

inductive call :: "'e host \<Rightarrow> 'e \<Rightarrow> 'e \<Rightarrow> bool" for H :: "'e host" where
  "monotime H e = (x1, e') \<Longrightarrow> call H e e'"
| "if_nametoindex H n e = (x2, e') \<Longrightarrow> call H e e'"
| "hwaddr_type H n e = (x3, e') \<Longrightarrow> call H e e'"
| "if_mtu H n e = (x4, e') \<Longrightarrow> call H e e'"
| "ioctl_socket H e = (x5, e') \<Longrightarrow> call H e e'"
| "tc_filter_show H n d e = (x6, e') \<Longrightarrow> call H e e'"
| "tc_hook_create H i p e = (x7, e') \<Longrightarrow> call H e e'"
| "tc_attach H i p n pr h e = (x8, e') \<Longrightarrow> call H e e'"
| "tc_query H i p pr h e = (x9, e') \<Longrightarrow> call H e e'"
| "tc_detach H i p pr h e = (x10, e') \<Longrightarrow> call H e e'"
| "attach_tcx H i e = (x11, e') \<Longrightarrow> call H e e'"
| "call H e (link_destroy H i e)"
| "write_state H ls e = (x12, e') \<Longrightarrow> call H e e'"

text \<open>A step of calls that leaves the lease alone.\<close>

definition elapses :: "'e host \<Rightarrow> runtime \<times> 'e world \<Rightarrow> runtime \<times> 'e world \<Rightarrow> bool" where
  "elapses H a b \<longleftrightarrow> (call H)\<^sup>*\<^sup>* (w_env (snd a)) (w_env (snd b)) \<and> m_leases (snd b) = m_leases (snd a)"

interpretation elapse: frame "elapses H" for H
  by unfold_locales (auto simp: elapses_def)

lemma elapses_env: "(call H)\<^sup>*\<^sup>* (w_env w) e \<Longrightarrow> elapses H (r, w) (r', w\<lparr>w_env := e\<rparr>)"
  by (simp add: elapses_def)

lemma elapses_call: "call H (w_env w) e \<Longrightarrow> elapses H (r, w) (r', w\<lparr>w_env := e\<rparr>)"
  by (simp add: elapses_def)

lemma elapses_fields: "elapses H (r, w) (r', w') \<Longrightarrow> elapses H (r1, w) (r2, w')"
  by (simp add: elapses_def)

lemma elapses_same: "w_env w' = w_env w \<Longrightarrow> m_leases w' = m_leases w \<Longrightarrow> elapses H (r, w) (r', w')"
  by (simp add: elapses_def)

lemma call_step: "(call H)\<^sup>*\<^sup>* e e1 \<Longrightarrow> call H e1 e2 \<Longrightarrow> (call H)\<^sup>*\<^sup>* e e2"
  by (rule rtranclp.rtrancl_into_rtrancl)

lemma save_state_elapses: "save_state H r w = (err, w') \<Longrightarrow> elapses H (r1, w) (r2, w')"
  by (auto simp: save_state_def split: prod.splits intro!: elapses_call call.intros)

lemma link_calls:
  assumes "ff_link H name mode e = (out, e')"
  shows "(call H)\<^sup>*\<^sup>* e e'"
proof -
  obtain i e1 where 1: "if_nametoindex H name e = (i, e1)" by fastforce
  obtain ok e2 where 2: "ioctl_socket H e1 = (ok, e2)" by fastforce
  obtain ty e3 where 3: "hwaddr_type H name e2 = (ty, e3)" by fastforce
  obtain m e4 where 4: "if_mtu H name e3 = (m, e4)" by fastforce
  have "e' = e1 \<or> e' = e2 \<or> e' = e3 \<or> e' = e4"
    using assms by (auto simp: ff_link_def 1 2 3 4 split: if_splits option.splits)
  moreover have c1: "(call H)\<^sup>*\<^sup>* e e1" by (rule r_into_rtranclp) (rule call.intros(2) [OF 1])
  moreover have c2: "(call H)\<^sup>*\<^sup>* e e2" by (rule call_step [OF c1 call.intros(5) [OF 2]])
  moreover have c3: "(call H)\<^sup>*\<^sup>* e e3" by (rule call_step [OF c2 call.intros(3) [OF 3]])
  moreover have "(call H)\<^sup>*\<^sup>* e e4" by (rule call_step [OF c3 call.intros(4) [OF 4]])
  ultimately show ?thesis by blast
qed

lemma available_call: "ff_priority_available H name d e = (taken, e') \<Longrightarrow> call H e e'"
  by (auto simp: ff_priority_available_def split: prod.splits option.splits intro: call.intros(6))

lemma detach_calls: "(call H)\<^sup>*\<^sup>* e (ff_detach H a e)"
proof -
  obtain x e1 where q: "tc_query H (a_index a) (a_point a) (a_priority a) (a_handle a) e = (x, e1)" by fastforce
  obtain y e2 where d: "tc_detach H (a_index a) (a_point a) (a_priority a) (a_handle a) e1 = (y, e2)" by fastforce
  have 1: "(call H)\<^sup>*\<^sup>* e e1" by (rule r_into_rtranclp) (rule call.intros(9) [OF q])
  with call_step [OF 1 call.intros(10) [OF d]] show ?thesis by (auto simp: ff_detach_def q d split: option.split)
qed

lemma attach_calls:
  assumes "ff_attach H idx p name prio e = (out, e')"
  shows "(call H)\<^sup>*\<^sup>* e e'"
proof -
  obtain err e1 where h: "tc_hook_create H idx p e = (err, e1)" by fastforce
  obtain k e2 where t: "tc_attach H idx p name prio 1 e1 = (k, e2)" by fastforce
  have 1: "(call H)\<^sup>*\<^sup>* e e1" by (rule r_into_rtranclp) (rule call.intros(7) [OF h])
  from assms h t 1 call_step [OF 1 call.intros(8) [OF t]] show ?thesis by (auto simp: ff_attach_def split: if_splits)
qed

lemma attach_one_elapses:
  assumes "attach_one H idx p name prio (r, w) = (err, r', w')"
  shows "elapses H (r, w) (r', w')"
proof (cases "FF_ATTACHED_MAX \<le> length (rt_attached r)")
  case True
  with assms show ?thesis by (simp add: attach_one_def elapse.same_refl)
next
  case False
  obtain out e where at: "ff_attach H idx p name prio (w_env w) = (out, e)" by fastforce
  have e: "elapses H (r, w) (r1, w\<lparr>w_env := e\<rparr>)" for r1 by (rule elapses_env) (rule attach_calls [OF at])
  show ?thesis
  proof (cases out)
    case None
    with assms at False e show ?thesis by (simp add: attach_one_def)
  next
    case (Some a)
    let ?r = "r\<lparr>rt_attached := rt_attached r @ [a]\<rparr>"
    obtain err2 w2 where sv: "save_state H ?r (w\<lparr>w_env := e\<rparr>) = (err2, w2)" by fastforce
    from assms at False Some sv elapse.same_trans [OF e save_state_elapses [OF sv]] show ?thesis
      by (simp add: attach_one_def Let_def)
  qed
qed

lemma drop_filters_calls: "drop_filters H idx i as e = (as', e') \<Longrightarrow> (call H)\<^sup>*\<^sup>* e e'"
proof (induction H idx i as e rule: drop_filters.induct)
  case (1 H idx i as e)
  consider "length as \<le> i" | "\<not> length as \<le> i" "a_index (as ! i) = idx" | "\<not> length as \<le> i" "a_index (as ! i) \<noteq> idx" by blast
  then show ?case
  proof cases
    case 2
    with 1 show ?thesis
      by (intro rtranclp_trans [OF detach_calls [of H e "as ! i"]]) (simp add: drop_filters.simps [of H idx i as])
  qed (use 1 in \<open>simp_all add: drop_filters.simps [of H idx i as]\<close>)
qed

lemma drop_links_calls: "drop_links H idx js ls e = (ls', e') \<Longrightarrow> (call H)\<^sup>*\<^sup>* e e'"
proof (induction js arbitrary: ls ls' e)
  case (Cons j js)
  show ?case
  proof (cases ls)
    case Nil
    with Cons.prems show ?thesis by simp
  next
    case (Cons l ls1)
    obtain ls2 where "drop_links H idx js ls1 (if j = idx \<and> l then link_destroy H idx e else e) = (ls2, e')"
      using Cons.prems by (auto simp: Cons split: prod.splits)
    note rest = Cons.IH [OF this]
    have "call H e (link_destroy H idx e)" by (rule call.intros(12))
    then have "(call H)\<^sup>*\<^sup>* e (link_destroy H idx e)" by (rule r_into_rtranclp)
    with rest show ?thesis by (auto split: if_splits intro: rtranclp_trans)
  qed
qed simp

lemma forget_index_elapses:
  assumes "forget_index H idx (r, w) = (r', w')"
  shows "elapses H (r, w) (r', w')"
proof -
  obtain ls e where dl: "drop_links H idx (take (length (o_devices (rt_options r))) (rt_index r)) (rt_ingress r) (w_env w) = (ls, e)" by fastforce
  obtain as e2 where df: "drop_filters H idx 0 (rt_attached r) e = (as, e2)" by fastforce
  let ?r = "r\<lparr>rt_ingress := ls, rt_attached := as\<rparr>" and ?w = "w\<lparr>m_interfaces := (m_interfaces w)(idx := None), w_env := e2\<rparr>"
  obtain err w2 where sv: "save_state H ?r ?w = (err, w2)" by fastforce
  have "elapses H (r, w) (?r, ?w)"
    using rtranclp_trans [OF drop_links_calls [OF dl] drop_filters_calls [OF df]] by (simp add: elapses_def)
  from elapse.same_trans [OF this save_state_elapses [OF sv]] assms dl df sv show ?thesis
    by (auto simp: forget_index_def Let_def elapse.same_refl split: if_splits)
qed

lemma forget_device_elapses: "elapses H s (forget_device H i s)"
proof (cases s)
  case (Pair r w)
  obtain r1 w1 where "forget_index H (rt_index r ! i) (r, w) = (r1, w1)" by fastforce
  with forget_index_elapses [OF this] show ?thesis by (simp add: Pair forget_device_def elapses_def)
qed

lemma link_deleted_elapses: "elapses H s (link_deleted H idx s)"
proof (cases s)
  case (Pair r w)
  show ?thesis unfolding link_deleted_def Pair prod.case
    by (intro elapse.fold_same) (auto simp: forget_device_elapses elapse.same_refl split: prod.split)
qed

lemma events_lost_elapses: "elapses H s (events_lost H s)"
proof (cases s)
  case (Pair r w)
  show ?thesis unfolding events_lost_def Pair prod.case by (intro elapse.fold_same) (rule forget_device_elapses)
qed

lemma link_events_elapses: "elapses H s (link_events H es s)"
proof (induction H es s rule: link_events.induct)
  case (2 H idx es s)
  from elapse.same_trans [OF link_deleted_elapses 2] show ?case by simp
next
  case (3 H es s)
  from elapse.same_trans [OF events_lost_elapses 3] show ?case by simp
qed (simp add: elapse.same_refl)

lemma attach_device_elapses:
  assumes "attach_device H i name idx (r, w) = (err, r', w')"
  shows "elapses H (r, w) (r', w')"
proof -
  obtain taken e where av: "ff_priority_available H name ''egress'' (w_env w) = (taken, e)" by fastforce
  obtain ok e2 where tc: "attach_tcx H idx e = (ok, e2)" by fastforce
  let ?r = "set_index i idx (r\<lparr>rt_ingress := (rt_ingress r)[i := True]\<rparr>)" and ?w = "w\<lparr>w_env := e2\<rparr>"
  obtain err2 r2 w2 where at: "attach_one H idx BPF_TC_EGRESS ''ff_egress'' 1 (?r, ?w) = (err2, r2, w2)" by (metis prod_cases3)
  obtain r3 w3 where fg: "forget_index H idx (r2, w2) = (r3, w3)" by fastforce
  have run: "attach_device H i name idx (r, w) =
      (if taken then (True, r, w\<lparr>w_env := e\<rparr>) else if \<not> ok then (True, r, ?w) else if err2 then (True, r3, w3)
       else (False, set_index i idx r2\<lparr>rt_epoch := rt_epoch r2 + 1, rt_generation := (rt_generation r2)[i := rt_epoch r2 + 1]\<rparr>, w2))"
    by (simp add: attach_device_def Let_def av tc at fg)
  have 1: "elapses H (r, w) (r, w\<lparr>w_env := e\<rparr>)" by (rule elapses_call) (rule available_call [OF av])
  have 2: "elapses H (r, w) (r1, ?w)" for r1
    using elapse.same_trans [OF 1 elapses_call [of H "w\<lparr>w_env := e\<rparr>" e2 r r1]] call.intros(11) [OF tc] by simp
  note 3 = elapse.same_trans [OF 2 attach_one_elapses [OF at]]
  note 4 = elapse.same_trans [OF 3 forget_index_elapses [OF fg]]
  from run assms 1 2 elapses_fields [OF 3] elapses_fields [OF 4] show ?thesis by (auto split: if_splits)
qed

lemma refresh_device_elapses:
  assumes "refresh_device H initial i d (r, w) = (err, r', w')"
  shows "elapses H (r, w) (r', w')"
proof -
  obtain link e where li: "ff_link H (d_name d) (d_mode d) (w_env w) = (link, e)" by fastforce
  let ?w = "w\<lparr>w_env := e\<rparr>"
  define gone where "gone = (case link of None \<Rightarrow> True | Some (idx, mtu) \<Rightarrow> idx \<noteq> rt_index r ! i)"
  obtain r1 w1 where one: "(if gone then (case forget_index H (rt_index r ! i) (r, ?w) of (r, w) \<Rightarrow> (set_index i 0 r, w))
      else (r, ?w)) = (r1, w1)" by fastforce
  have 1: "elapses H (r, w) (r, ?w)" by (rule elapses_env) (rule link_calls [OF li])
  obtain r0 w0 where f: "forget_index H (rt_index r ! i) (r, ?w) = (r0, w0)" by fastforce
  have 2: "elapses H (r, w) (r1, w1)"
    using one 1 f elapses_fields [OF elapse.same_trans [OF 1 forget_index_elapses [OF f]]] by (auto split: if_splits)
  show ?thesis
  proof (cases link)
    case None
    with assms li one 2 show ?thesis by (auto simp: refresh_device_def Let_def gone_def)
  next
    case (Some l)
    obtain idx mtu where l: "l = (idx, mtu)" by fastforce
    obtain err2 r2 w2 where two: "(if rt_index r1 ! i = 0 then attach_device H i (d_name d) idx (r1, w1) else (False, r1, w1)) = (err2, r2, w2)"
      by (metis prod_cases3)
    have 3: "elapses H (r, w) (r2, w2)"
      using two 2 elapse.same_trans [OF 2 attach_device_elapses [of H i "d_name d" idx r1 w1 err2 r2 w2]] by (auto split: if_splits)
    obtain err3 m where iu: "interface_update H idx (interface_of r2 i (d_mode d) mtu) (m_interfaces w2) = (err3, m)" by fastforce
    have "(r', w') = (r2, w2) \<or> (r', w') = (r2, w2\<lparr>m_interfaces := m\<rparr>)"
      using assms li one two iu Some l by (cases err2) (auto simp: refresh_device_def Let_def gone_def)
    with 3 show ?thesis by (auto simp: elapses_def)
  qed
qed

lemma refresh_elapses: "refresh H initial (r, w) = (err, r', w') \<Longrightarrow> elapses H (r, w) (r', w')"
proof -
  have "refresh_from H initial i ds (r, w) = (err, r', w') \<Longrightarrow> elapses H (r, w) (r', w')" for i ds r w
  proof (induction ds arbitrary: i r w)
    case (Cons d ds)
    obtain err1 r1 w1 where d: "refresh_device H initial i d (r, w) = (err1, r1, w1)" by (metis prod_cases3)
    note 1 = refresh_device_elapses [OF d]
    from Cons d 1 elapse.same_trans [OF 1, of "(r', w')"] show ?case by (auto split: if_splits)
  qed (simp add: elapse.same_refl)
  then show "refresh H initial (r, w) = (err, r', w') \<Longrightarrow> elapses H (r, w) (r', w')" by (simp add: refresh_def)
qed

lemma reap_loop_leases: "reap_loop H gen key w = Some w' \<Longrightarrow> m_leases w' = m_leases w"
proof (erule reap_loop.raw_induct [of "\<lambda>H gen key w w'. m_leases w' = m_leases w", rotated])
  fix loop :: "'a host \<Rightarrow> u32 \<Rightarrow> u32 \<Rightarrow> 'a world \<Rightarrow> 'a world option" and H gen key w w'
  assume step: "\<And>H gen key w w'. loop H gen key w = Some w' \<Longrightarrow> m_leases w' = m_leases w"
    and "(case next_key (config_keys H (m_configs w)) (if key = 0 then None else Some key) of None \<Rightarrow> Some w
      | Some key \<Rightarrow> if key + 1 < gen
          then loop H gen 0 (w\<lparr>m_templates := clear_span (key * template_span) (unat template_span) (m_templates w),
            m_configs := (m_configs w)(key := None)\<rparr>)
          else loop H gen key w) = Some w'"
  then show "m_leases w' = m_leases w" by (auto split: option.splits if_splits dest!: step)
qed

lemma reap_loop_frame: "reap_loop H gen key w = Some w' \<Longrightarrow> w_env w' = w_env w \<and> m_leases w' = m_leases w"
  by (simp add: reap_loop_env reap_loop_leases)

lemma publish_elapses:
  assumes "publish H G op (r, w, rs) = Some (err, r', w', rs')"
  shows "elapses H (r, w) (r', w')"
  using assms by (intro elapses_same) (auto simp: publish_def publish_maps_def Let_def reap_configs_def
      dest!: reap_loop_frame split: if_splits Option.bind_splits prod.splits option.splits)

text \<open>A reload leaves the options alone or takes those of a file the reader has accepted.\<close>

lemma reload_cases:
  assumes "reload H G files path (r, w, rs) = Some (res, r', w', rs')"
  obtains (refused) "r' = r" "w' = w" "\<forall>gen. res \<noteq> Reloaded gen"
    | (read) op err rs1 where "accepted op" "rendered files op" "publish H G op (r, w, rs1) = Some (err, r', w', rs')"
        "res = (if err then PublishFailed else Reloaded (rt_config_gen r'))"
proof -
  obtain out rs1 where rd: "ff_config_read G files path rs = (out, rs1)" by fastforce
  show ?thesis
  proof (cases "\<exists>op. out = Inr op \<and> same_layout (rt_options r) op")
    case False
    with assms rd show ?thesis by (intro refused) (auto simp: reload_def split: sum.splits)
  next
    case True
    then obtain op where op: "out = Inr op" "same_layout (rt_options r) op" by blast
    note acc = ff_config_read_accepted [OF rd [unfolded op(1)]]
    from assms rd op obtain err where p: "publish H G op (r, w, rs1) = Some (err, r', w', rs')"
      and "res = (if err then PublishFailed else Reloaded (rt_config_gen r'))"
      by (auto simp: reload_def split: Option.bind_splits)
    with acc show ?thesis by (intro read)
  qed
qed

section \<open>The parts of a turn\<close>

text \<open>The clock of the host never goes back, whatever is called.\<close>

definition clocked :: "('e \<Rightarrow> u64) \<Rightarrow> 'e host \<Rightarrow> bool" where
  "clocked c H \<longleftrightarrow> (\<forall>e. fst (monotime H e) = c e) \<and> (\<forall>e e'. call H e e' \<longrightarrow> c e \<le> c e')"

lemma clock_calls: "(call H)\<^sup>*\<^sup>* e e' \<Longrightarrow> clocked c H \<Longrightarrow> c e \<le> c e'"
  by (induction rule: rtranclp_induct) (auto simp: clocked_def intro: order_trans)

lemma clock_elapses: "elapses H (r, w) (r', w') \<Longrightarrow> clocked c H \<Longrightarrow> c (w_env w) \<le> c (w_env w')"
  by (auto simp: elapses_def intro: clock_calls)

lemma clock_read: "clocked c H \<Longrightarrow> monotime H e = (now, e') \<Longrightarrow> now = c e"
  by (metis clocked_def fst_conv)

lemma upkeep_cases:
  assumes run: "upkeep H now (lp, r, w) = Some (False, lp', r', w')" and L: "map_update (lease_update H)"
  obtains (idle) "now < lp_next lp" "lp' = lp" "r' = r" "w' = w"
    | (due) w1 w2 t e where "\<not> now < lp_next lp" "lp' = lp\<lparr>lp_next := now + 2 * FF_NS\<rparr>" "maintains (r, w) (r', w1)"
        "elapses H (r, w) (r', w1)" "monotime H (w_env w1) = (t, e)"
        "w2 = w1\<lparr>m_leases := (m_leases w1)(0 \<mapsto> \<lparr>le_until = t + ucast (o_lease (rt_options r)) * FF_NS, le_reported = 0, le_pad = 0\<rparr>),
           w_env := e\<rparr>"
        "(if 2 * FF_NS < now - lp_last lp then reap_configs H r' w2 else Some w2) = Some w'"
proof (cases "now < lp_next lp")
  case True
  with run show ?thesis by (intro idle) (simp_all add: upkeep_def)
next
  case False
  obtain e1 r1 w1 where rf: "refresh H False (r, w) = (e1, r1, w1)" by (metis prod_cases3)
  obtain t e where m: "monotime H (w_env w1) = (t, e)" by fastforce
  let ?l = "\<lparr>le_until = t + ucast (o_lease (rt_options r1)) * FF_NS, le_reported = 0, le_pad = 0\<rparr>"
  obtain e2 m2 where up: "lease_update H 0 ?l (m_leases w1) = (e2, m2)" by fastforce
  have le: "lease H r1 True w1 = (e2, w1\<lparr>m_leases := m2, w_env := e\<rparr>)" using up by (simp add: lease_def m)
  note mt = refresh_maintains [OF rf]
  have opt: "rt_options r1 = rt_options r" using mt by (simp add: maintains_def)
  have ok: "\<not> e1" "\<not> e2" using run False rf le by (auto simp: upkeep_def split: if_splits)
  then have m2: "m2 = (m_leases w1)(0 \<mapsto> ?l)" using L up unfolding map_update_def by metis
  from run False rf le ok have "(if 2 * FF_NS < now - lp_last lp then reap_configs H r1 (w1\<lparr>m_leases := m2, w_env := e\<rparr>)
      else Some (w1\<lparr>m_leases := m2, w_env := e\<rparr>)) = Some w'" "r' = r1" "lp' = lp\<lparr>lp_next := now + 2 * FF_NS\<rparr>"
    by (auto simp: upkeep_def split: Option.bind_splits)
  with False mt refresh_elapses [OF rf] m m2 show ?thesis
    by (intro due [of w1 t e "w1\<lparr>m_leases := m2, w_env := e\<rparr>"]) (simp_all add: opt cong: if_cong)
qed

text \<open>What is done with a command, or without one.\<close>

definition answered :: "'e host \<Rightarrow> 'r random \<Rightarrow> (string \<Rightarrow> u8 list option) \<Rightarrow> string option \<Rightarrow> loop \<times> runtime \<times> 'e world \<times> 'r \<Rightarrow>
    reply option \<Rightarrow> loop \<times> runtime \<times> 'e world \<times> 'r \<Rightarrow> bool" where
  "answered H G files cmd a reply b \<longleftrightarrow> (case cmd of
     None \<Rightarrow> reply = None \<and> b = a
   | Some text \<Rightarrow> \<exists>rep. reply = Some rep \<and> serve H G files text a = Some (rep, b))"

lemma turn_cases:
  assumes "turn H G files input (lp, r, w, rs) = Some (False, reply, lp', r', w', rs')"
  obtains now e lp1 r1 w1 lp2 r2 w2 rs2 es cmd r3 w3 where "monotime H (w_env w) = (now, e)"
    "upkeep H now (lp, r, w\<lparr>w_env := e\<rparr>) = Some (False, lp1, r1, w1)"
    "signal_reload H G files now (lp1, r1, w1, rs) = Some (lp2, r2, w2, rs2)" "input = Polled es cmd"
    "link_events H es (r2, w2) = (r3, w3)"
    "answered H G files cmd (lp2, r3, w3, rs2) reply (lp', r', w', rs')"
proof -
  obtain now e where t: "monotime H (w_env w) = (now, e)" by fastforce
  from assms t obtain err lp1 r1 w1 where u: "upkeep H now (lp, r, w\<lparr>w_env := e\<rparr>) = Some (err, lp1, r1, w1)"
    by (auto simp: turn_def split: Option.bind_splits)
  have ok: "\<not> err" using assms t u by (auto simp: turn_def split: if_splits)
  with assms t u obtain lp2 r2 w2 rs2 where s: "signal_reload H G files now (lp1, r1, w1, rs) = Some (lp2, r2, w2, rs2)"
    by (auto simp: turn_def split: Option.bind_splits)
  with assms t u ok obtain es cmd where i: "input = Polled es cmd" by (cases input) (auto simp: turn_def)
  obtain r3 w3 where l: "link_events H es (r2, w2) = (r3, w3)" by fastforce
  have "answered H G files cmd (lp2, r3, w3, rs2) reply (lp', r', w', rs')"
    using assms t u ok s i l by (cases cmd) (auto simp: turn_def answered_def split: Option.bind_splits)
  with that [OF t _ s i l] u ok show ?thesis by simp
qed

text \<open>Reloads, by signal or by cmd.\<close>

definition lease_range :: "runtime \<Rightarrow> bool" where
  "lease_range r \<longleftrightarrow> 4 \<le> o_lease (rt_options r) \<and> o_lease (rt_options r) \<le> 60"

lemma reload_effect:
  assumes "reload H G files path (r, w, rs) = Some (res, r', w', rs')"
  shows "elapses H (r, w) (r', w')" and "lease_range r \<Longrightarrow> lease_range r'" and "res = Reloaded gen \<Longrightarrow> gen = rt_config_gen r'"
proof -
  have "elapses H (r, w) (r', w') \<and> (lease_range r \<longrightarrow> lease_range r') \<and> (res = Reloaded gen \<longrightarrow> gen = rt_config_gen r')" using assms
  proof (cases rule: reload_cases)
    case refused
    then show ?thesis by (auto simp: elapse.same_refl)
  next
    case (read op err rs1)
    have "rt_options r' = rt_options r \<or> o_lease (rt_options r') = o_lease op"
      using read(3) by (auto simp: publish_def Let_def split: if_splits Option.bind_splits prod.splits option.splits)
    moreover have "4 \<le> o_lease op \<and> o_lease op \<le> 60" using read(1) by (simp add: accepted_def options_ok_def runtime_ok_def)
    ultimately have "lease_range r \<longrightarrow> lease_range r'" by (auto simp: lease_range_def)
    with publish_elapses [OF read(3)] read(4) show ?thesis by auto
  qed
  then show "elapses H (r, w) (r', w')" "lease_range r \<Longrightarrow> lease_range r'" "res = Reloaded gen \<Longrightarrow> gen = rt_config_gen r'" by blast+
qed

definition reload_command :: "string \<Rightarrow> bool" where
  "reload_command text \<longleftrightarrow> command_line text = ''reload'' \<or> take 7 (command_line text) = ''reload ''"

lemma signal_reload_effect:
  assumes "signal_reload H G files now (lp, r, w, rs) = Some (lp', r', w', rs')"
  shows "elapses H (r, w) (r', w')" and "lease_range r \<Longrightarrow> lease_range r'"
    and "lp' = (if lp_reloading lp then lp\<lparr>lp_reloading := False, lp_last := now\<rparr> else lp)"
    and "\<not> lp_reloading lp \<Longrightarrow> r' = r \<and> w' = w"
  using assms reload_effect by (auto simp: signal_reload_def elapse.same_refl split: if_splits Option.bind_splits)

lemma serve_other:
  "serve H G files text (lp, r, w, rs) = Some (reply, lp', r', w', rs') \<Longrightarrow> \<not> reload_command text \<Longrightarrow>
   r' = r \<and> w' = w \<and> (lp' = lp \<or> lp' = lp\<lparr>lp_quitting := True\<rparr>)"
  unfolding serve_def reload_command_def Let_def prod.case by (auto split: if_splits)

lemma reload_command_cases:
  assumes "reload_command text"
  obtains "command_line text = ''reload''" | path where "command_line text = ''reload '' @ path"
  using assms append_take_drop_id [of 7 "command_line text"] unfolding reload_command_def by metis

lemma serve_is_reload: "reload_command text \<Longrightarrow> serve H G files text s = serve_reload H G files (command_line text) s"
  by (erule reload_command_cases) (simp_all add: serve_def Let_def split: prod.split)

lemma serve_reload_effect:
  assumes run: "serve H G files text (lp, r, w, rs) = Some (reply, lp', r', w', rs')" and cmd: "reload_command text"
  obtains w1 path where "elapses H (r, w) (r', w1)" "monotime H (w_env w1) = (lp_last lp', w_env w')" "m_leases w' = m_leases w1"
    "lease_range r \<Longrightarrow> lease_range r'" "lp' = lp\<lparr>lp_path := path, lp_last := lp_last lp'\<rparr>"
    "path = lp_path lp \<or> command_line text = ''reload '' @ path \<and> reply = ReloadReply (Reloaded (rt_config_gen r'))"
proof -
  let ?c = "command_line text"
  let ?sel = "if 6 < length ?c then drop 7 ?c else lp_path lp"
  have sr: "serve_reload H G files ?c (lp, r, w, rs) = Some (reply, lp', r', w', rs')"
    using run by (simp add: serve_is_reload [OF cmd])
  show ?thesis
  proof (cases "1024 \<le> length ?sel")
    case True
    obtain now e where m: "monotime H (w_env w) = (now, e)" by fastforce
    with sr True have "r' = r" "w' = w\<lparr>w_env := e\<rparr>" "lp' = lp\<lparr>lp_last := now\<rparr>" by (auto simp: serve_reload_def Let_def)
    with m show ?thesis by (intro that [of w "lp_path lp"]) (simp_all add: elapse.same_refl)
  next
    case False
    with sr obtain res r1 w1 rs1 where rl: "reload H G files ?sel (r, w, rs) = Some (res, r1, w1, rs1)"
      by (auto simp: serve_reload_def Let_def split: Option.bind_splits)
    obtain now e where m: "monotime H (w_env w1) = (now, e)" by fastforce
    let ?path = "case res of Reloaded g \<Rightarrow> ?sel | _ \<Rightarrow> lp_path lp"
    have res: "r' = r1" "w' = w1\<lparr>w_env := e\<rparr>" "reply = ReloadReply res" "lp' = lp\<lparr>lp_path := ?path, lp_last := now\<rparr>"
      using sr False rl m by (auto simp: serve_reload_def Let_def split: reload_result.split)
    note eff = reload_effect [OF rl]
    have "?c = ''reload '' @ drop 7 ?c" if "6 < length ?c"
      using cmd by (cases rule: reload_command_cases) (use that in auto)
    then have "?path = lp_path lp \<or> ?c = ''reload '' @ ?path \<and> reply = ReloadReply (Reloaded (rt_config_gen r'))"
      using eff(3) res by (auto split: reload_result.split)
    with eff res m show ?thesis by (intro that [of w1 ?path]) simp_all
  qed
qed

section \<open>A turn keeps its promises\<close>

text \<open>The lease outlasts the time of its next renewal by two seconds.\<close>

definition lease_ahead :: "loop \<Rightarrow> 'e world \<Rightarrow> bool" where
  "lease_ahead lp w \<longleftrightarrow> (\<exists>l. m_leases w 0 = Some l \<and> unat (lp_next lp) + 2000000000 \<le> unat (le_until l))"

text \<open>Some reload is asked for, by a signal or by a command.\<close>

definition asks_reload :: "loop \<Rightarrow> polled \<Rightarrow> bool" where
  "asks_reload lp input \<longleftrightarrow> lp_reloading lp \<or> (\<exists>es text. input = Polled es (Some text) \<and> reload_command text)"

lemma reaped_same_store: "same_store w w' \<Longrightarrow> same_store (reaped gen w) (reaped gen w')"
  by (simp add: same_store_def reaped_def outdated_def cong: if_cong)

lemma link_events_maintains: "maintains s (link_events H es s)"
proof (induction H es s rule: link_events.induct)
  case (2 H idx es s)
  from maintains_trans [OF link_deleted_maintains 2] show ?case by simp
next
  case (3 H es s)
  from maintains_trans [OF events_lost_maintains 3] show ?case by simp
qed simp

lemma answered_plain:
  assumes "answered H G files cmd (lp, r, w, rs) reply (lp', r', w', rs')" and "\<And>msg. cmd = Some msg \<Longrightarrow> \<not> reload_command msg"
  shows "r' = r \<and> w' = w \<and> (lp' = lp \<or> lp' = lp\<lparr>lp_quitting := True\<rparr>)"
proof (cases cmd)
  case None
  with assms show ?thesis by (simp add: answered_def)
next
  case (Some msg)
  with assms obtain rep where "serve H G files msg (lp, r, w, rs) = Some (rep, lp', r', w', rs')" by (auto simp: answered_def)
  from serve_other [OF this] assms(2) [OF Some] show ?thesis by blast
qed

text \<open>What an answer may change: the clock goes on, the lease stays, and a reload is stamped and remembered.\<close>

lemma answered_effect:
  assumes "answered H G files cmd (lp, r, w, rs) reply (lp', r', w', rs')"
  shows "elapses H (r, w) (r', w')" and "lease_range r \<Longrightarrow> lease_range r'" and "lp_next lp' = lp_next lp"
    and "lp_path lp' \<noteq> lp_path lp \<Longrightarrow> \<exists>msg. cmd = Some msg \<and> command_line msg = ''reload '' @ lp_path lp' \<and>
      reply = Some (ReloadReply (Reloaded (rt_config_gen r')))"
    and "clocked c H \<Longrightarrow> now \<le> c (w_env w) \<Longrightarrow> now \<le> lp_last lp \<Longrightarrow> lp_last lp \<le> c (w_env w) \<Longrightarrow>
      now \<le> lp_last lp' \<and> lp_last lp' \<le> c (w_env w')"
    and "clocked c H \<Longrightarrow> now \<le> c (w_env w) \<Longrightarrow> cmd = Some msg \<Longrightarrow> reload_command msg \<Longrightarrow>
      now \<le> lp_last lp' \<and> lp_last lp' \<le> c (w_env w')"
proof -
  let ?path = "lp_path lp' \<noteq> lp_path lp \<longrightarrow> (\<exists>msg. cmd = Some msg \<and> command_line msg = ''reload '' @ lp_path lp' \<and>
      reply = Some (ReloadReply (Reloaded (rt_config_gen r'))))"
  let ?stamp = "clocked c H \<longrightarrow> now \<le> c (w_env w) \<longrightarrow> now \<le> lp_last lp' \<and> lp_last lp' \<le> c (w_env w')"
  have "elapses H (r, w) (r', w') \<and> (lease_range r \<longrightarrow> lease_range r') \<and> lp_next lp' = lp_next lp \<and> ?path \<and>
      (if \<exists>msg. cmd = Some msg \<and> reload_command msg then ?stamp else w' = w \<and> lp_last lp' = lp_last lp)"
  proof (cases "\<exists>msg. cmd = Some msg \<and> reload_command msg")
    case False
    then have "r' = r \<and> w' = w \<and> (lp' = lp \<or> lp' = lp\<lparr>lp_quitting := True\<rparr>)" by (intro answered_plain [OF assms]) auto
    with False show ?thesis by (auto simp: elapse.same_refl)
  next
    case True
    then obtain msg where msg: "cmd = Some msg" "reload_command msg" by blast
    with assms obtain rep where rep: "reply = Some rep" and sv: "serve H G files msg (lp, r, w, rs) = Some (rep, lp', r', w', rs')"
      by (auto simp: answered_def)
    obtain w1 path where e: "elapses H (r, w) (r', w1)" and m: "monotime H (w_env w1) = (lp_last lp', w_env w')" "m_leases w' = m_leases w1"
      and lr: "lease_range r \<Longrightarrow> lease_range r'" and lp: "lp' = lp\<lparr>lp_path := path, lp_last := lp_last lp'\<rparr>"
      and path: "path = lp_path lp \<or> command_line msg = ''reload '' @ path \<and> rep = ReloadReply (Reloaded (rt_config_gen r'))"
      using serve_reload_effect [OF sv msg(2)] by metis
    have "elapses H (r', w1) (r', w')" using call.intros(1) [OF m(1)] m(2) by (simp add: elapses_def r_into_rtranclp)
    with e have 1: "elapses H (r, w) (r', w')" by (rule elapse.same_trans)
    have p: "lp_path lp' = path" "lp_next lp' = lp_next lp" by (metis lp loop.ext_inject loop.surjective loop.update_convs(2,3))+
    have ?stamp
    proof (intro impI)
      assume c: "clocked c H" and now: "now \<le> c (w_env w)"
      have "lp_last lp' = c (w_env w1)" by (rule clock_read [OF c m(1)])
      moreover have "c (w_env w1) \<le> c (w_env w')" using c call.intros(1) [OF m(1)] by (simp add: clocked_def)
      ultimately show "now \<le> lp_last lp' \<and> lp_last lp' \<le> c (w_env w')" using clock_elapses [OF e c] now by auto
    qed
    with 1 lr p path msg rep True show ?thesis by auto
  qed
  then show "elapses H (r, w) (r', w')" "lease_range r \<Longrightarrow> lease_range r'" "lp_next lp' = lp_next lp"
    "lp_path lp' \<noteq> lp_path lp \<Longrightarrow> \<exists>msg. cmd = Some msg \<and> command_line msg = ''reload '' @ lp_path lp' \<and>
      reply = Some (ReloadReply (Reloaded (rt_config_gen r')))"
    "clocked c H \<Longrightarrow> now \<le> c (w_env w) \<Longrightarrow> now \<le> lp_last lp \<Longrightarrow> lp_last lp \<le> c (w_env w) \<Longrightarrow>
      now \<le> lp_last lp' \<and> lp_last lp' \<le> c (w_env w')"
    "clocked c H \<Longrightarrow> now \<le> c (w_env w) \<Longrightarrow> cmd = Some msg \<Longrightarrow> reload_command msg \<Longrightarrow>
      now \<le> lp_last lp' \<and> lp_last lp' \<le> c (w_env w')"
    by (auto split: if_splits)
qed

lemma lease_span:
  assumes "4 \<le> l" and "l \<le> (60 :: u32)" and "unat t < 2 ^ 63"
  shows "unat t + 4000000000 \<le> unat (t + ucast l * FF_NS)"
proof -
  have l: "4 \<le> unat l" "unat l \<le> 60" using assms(1,2) by (simp_all add: word_le_nat_alt)
  have u: "unat (ucast l :: u64) = unat l" by (rule unat_ucast_up) simp
  have m: "unat (ucast l * FF_NS :: u64) = unat l * 1000000000" using l by (simp add: unat_word_ariths u)
  have "unat (t + ucast l * FF_NS) = unat t + unat l * 1000000000" using l assms(3) by (simp add: unat_word_ariths u)
  with l show ?thesis by linarith
qed

lemma upkeep_duties:
  assumes H: "host_maps H" "map_update (lease_update H)" and c: "clocked c H" "now \<le> c (w_env w)"
    and ok: "store_ok (rt_config_gen r) w"
    and run: "upkeep H now (lp, r, w) = Some (False, lp1, r1, w1)"
  shows "(call H)\<^sup>*\<^sup>* (w_env w) (w_env w1)"
    and "rt_config_gen r1 = rt_config_gen r" and "rt_options r1 = rt_options r"
    and "same_store (if lp_next lp \<le> now \<and> 2 * FF_NS < now - lp_last lp then reaped (rt_config_gen r) w else w) w1"
    and "lp1 = (if now < lp_next lp then lp else lp\<lparr>lp_next := now + 2 * FF_NS\<rparr>)"
    and "if now < lp_next lp then m_leases w1 = m_leases w
      else \<exists>t. now \<le> t \<and> t \<le> c (w_env w1) \<and> m_leases w1 0 =
        Some \<lparr>le_until = t + ucast (o_lease (rt_options r)) * FF_NS, le_reported = 0, le_pad = 0\<rparr>"
proof -
  have "(call H)\<^sup>*\<^sup>* (w_env w) (w_env w1) \<and> rt_config_gen r1 = rt_config_gen r \<and> rt_options r1 = rt_options r \<and>
    same_store (if lp_next lp \<le> now \<and> 2 * FF_NS < now - lp_last lp then reaped (rt_config_gen r) w else w) w1 \<and>
    lp1 = (if now < lp_next lp then lp else lp\<lparr>lp_next := now + 2 * FF_NS\<rparr>) \<and>
    (if now < lp_next lp then m_leases w1 = m_leases w
      else \<exists>t. now \<le> t \<and> t \<le> c (w_env w1) \<and> m_leases w1 0 =
        Some \<lparr>le_until = t + ucast (o_lease (rt_options r)) * FF_NS, le_reported = 0, le_pad = 0\<rparr>)"
    using run H(2)
  proof (cases rule: upkeep_cases)
    case idle
    then show ?thesis by auto
  next
    case (due w2 w3 t e)
    let ?l = "\<lparr>le_until = t + ucast (o_lease (rt_options r)) * FF_NS, le_reported = 0, le_pad = 0\<rparr> :: ff_lease"
    have mt: "same_store w w2" "rt_config_gen r1 = rt_config_gen r" "rt_options r1 = rt_options r"
      using due(3) by (simp_all add: maintains_def)
    have w3: "same_store w w3" "w_env w3 = e" "m_leases w3 0 = Some ?l" using mt(1) due(6) by simp_all
    have fin: "w_env w1 = e \<and> m_leases w1 = m_leases w3 \<and>
        same_store (if 2 * FF_NS < now - lp_last lp then reaped (rt_config_gen r) w else w) w1"
    proof (cases "2 * FF_NS < now - lp_last lp")
      case True
      have "store_ok (rt_config_gen r) w3" using ok store_ok_same [OF w3(1)] by simp
      from store_okD(2) [OF this] have "reap_loop H (rt_config_gen r) 0 w3 = Some (reaped (rt_config_gen r) w3)"
        using H(1) by (intro reap_loop_reaped) (simp_all add: host_maps_def)
      then have "w1 = reaped (rt_config_gen r) w3" using due(7) True mt(2) by (simp add: reap_configs_def)
      then show ?thesis using reaped_same_store [OF w3(1)] True w3(2) by (simp add: reaped_def)
    next
      case False
      then have "w1 = w3" using due(7) by simp
      with False w3 show ?thesis by simp
    qed
    have calls: "(call H)\<^sup>*\<^sup>* (w_env w) (w_env w2)" using due(4) by (simp add: elapses_def)
    have "call H (w_env w2) e" by (rule call.intros(1) [OF due(5)])
    then have "c (w_env w2) \<le> c e" "(call H)\<^sup>*\<^sup>* (w_env w) e"
      using c(1) call_step [OF calls] by (simp_all add: clocked_def)
    moreover have "t = c (w_env w2)" by (rule clock_read [OF c(1) due(5)])
    moreover have "now \<le> c (w_env w2)" using c(2) clock_calls [OF calls c(1)] by simp
    ultimately show ?thesis using fin mt(2,3) due(1,2) w3(3) by auto
  qed
  then show "(call H)\<^sup>*\<^sup>* (w_env w) (w_env w1)"
    "rt_config_gen r1 = rt_config_gen r" "rt_options r1 = rt_options r"
    "same_store (if lp_next lp \<le> now \<and> 2 * FF_NS < now - lp_last lp then reaped (rt_config_gen r) w else w) w1"
    "lp1 = (if now < lp_next lp then lp else lp\<lparr>lp_next := now + 2 * FF_NS\<rparr>)"
    "if now < lp_next lp then m_leases w1 = m_leases w
      else \<exists>t. now \<le> t \<and> t \<le> c (w_env w1) \<and> m_leases w1 0 =
        Some \<lparr>le_until = t + ucast (o_lease (rt_options r)) * FF_NS, le_reported = 0, le_pad = 0\<rparr>"
    by blast+
qed

text \<open>The lease the start has written is ahead of a loop that has not turned yet.\<close>

lemma start_ahead:
  assumes "lease H r True w = (False, w')" and "map_update (lease_update H)" and "lease_range r"
    and "unat (fst (monotime H (w_env w))) < 2 ^ 63"
  shows "lease_ahead (new_loop path) w'"
proof -
  obtain t e where m: "monotime H (w_env w) = (t, e)" by fastforce
  let ?l = "\<lparr>le_until = t + ucast (o_lease (rt_options r)) * FF_NS, le_reported = 0, le_pad = 0\<rparr>"
  obtain err m' where up: "lease_update H 0 ?l (m_leases w) = (err, m')" by fastforce
  then have "m_leases w' = m'" "\<not> err" using assms(1) by (auto simp: lease_def m)
  then have "m_leases w' 0 = Some ?l" using assms(2) up unfolding map_update_def by (metis fun_upd_same)
  moreover have "2000000000 \<le> unat (le_until ?l)"
    using lease_span [of "o_lease (rt_options r)" t] assms(3,4) m by (simp add: lease_range_def)
  ultimately show ?thesis by (simp add: lease_ahead_def new_loop_def)
qed

lemma ahead_alive: "lease_ahead lp w \<Longrightarrow> unat t < unat (lp_next lp) + 2000000000 \<Longrightarrow> fst (alive t w)"
  by (auto simp: lease_ahead_def alive_def word_less_nat_alt)

text \<open>A renewed lease is ahead of the next due time, and one that is kept stays ahead.\<close>

lemma ahead_renewed:
  assumes "m_leases w 0 = Some \<lparr>le_until = t + ucast l * FF_NS, le_reported = x, le_pad = y\<rparr>" and "4 \<le> l" "l \<le> (60 :: u32)"
    and "now \<le> t" "unat t < 2 ^ 63" and "lp_next lp = now + 2 * FF_NS"
  shows "lease_ahead lp w"
proof -
  have "unat now \<le> unat t" using assms(4) by (simp add: word_le_nat_alt)
  then have "unat (now + 2 * FF_NS) = unat now + 2000000000" using assms(5) by (simp add: unat_word_ariths)
  with lease_span [OF assms(2,3,5)] \<open>unat now \<le> unat t\<close> assms(1,6) show ?thesis by (simp add: lease_ahead_def)
qed

text \<open>The turn as one step of calls after its first reading and the upkeep.\<close>

lemma turn_clock:
  assumes H: "host_maps H" "map_update (lease_update H)" and c: "clocked c H" and ok: "store_ok (rt_config_gen r) w"
    and run: "turn H G files input (lp, r, w, rs) = Some (False, reply, lp', r', w', rs')"
  obtains e lp1 r1 w1 lp2 r2 w2 rs2 es cmd r3 w3 where "c (w_env w) \<le> c e"
    "upkeep H (c (w_env w)) (lp, r, w\<lparr>w_env := e\<rparr>) = Some (False, lp1, r1, w1)"
    "signal_reload H G files (c (w_env w)) (lp1, r1, w1, rs) = Some (lp2, r2, w2, rs2)" "input = Polled es cmd"
    "maintains (r2, w2) (r3, w3)" "elapses H (r1, w1) (r3, w3)"
    "answered H G files cmd (lp2, r3, w3, rs2) reply (lp', r', w', rs')"
    "store_ok (rt_config_gen r) (w\<lparr>w_env := e\<rparr>)" "c (w_env w) \<le> c (w_env w1)" "c (w_env w1) \<le> c (w_env w3)"
  using run
proof (cases rule: turn_cases)
  case (1 now e lp1 r1 w1 lp2 r2 w2 rs2 es cmd r3 w3)
  have now: "now = c (w_env w)" by (rule clock_read [OF c 1(1)])
  have e: "c (w_env w) \<le> c e" using c call.intros(1) [OF 1(1)] by (simp add: clocked_def)
  have ok': "store_ok (rt_config_gen r) (w\<lparr>w_env := e\<rparr>)" using store_ok_same [of w "w\<lparr>w_env := e\<rparr>"] ok by simp
  have "now \<le> c (w_env (w\<lparr>w_env := e\<rparr>))" using e now by simp
  from upkeep_duties(1) [OF H c this ok' 1(2)] have t1: "c (w_env w) \<le> c (w_env w1)" using clock_calls [OF _ c] e by fastforce
  have el: "elapses H (r1, w1) (r3, w3)"
    using elapse.same_trans [OF signal_reload_effect(1) [OF 1(3)] link_events_elapses [of H _ es]] by (simp add: 1(5))
  have "maintains (r2, w2) (r3, w3)" using link_events_maintains [of "(r2, w2)" H es] by (simp add: 1(5))
  from that [OF e _ _ 1(4) this el 1(6) ok' t1 clock_elapses [OF el c]] 1(2,3) show ?thesis by (simp add: now)
qed

lemma turn_lease:
  assumes H: "host_maps H" "map_update (lease_update H)" and c: "clocked c H" and ok: "store_ok (rt_config_gen r) w"
    and run: "turn H G files input (lp, r, w, rs) = Some (False, reply, lp', r', w', rs')"
  shows "c (w_env w) \<le> c (w_env w')" and "lease_range r \<Longrightarrow> lease_range r'"
    and "if c (w_env w) < lp_next lp then m_leases w' = m_leases w \<and> lp_next lp' = lp_next lp
     else lp_next lp' = c (w_env w) + 2 * FF_NS \<and>
       (\<exists>t. c (w_env w) \<le> t \<and> t \<le> c (w_env w') \<and> m_leases w' 0 =
          Some \<lparr>le_until = t + ucast (o_lease (rt_options r)) * FF_NS, le_reported = 0, le_pad = 0\<rparr>)"
proof -
  obtain e lp1 r1 w1 lp2 r2 w2 rs2 es cmd r3 w3 where 1: "c (w_env w) \<le> c e"
    "upkeep H (c (w_env w)) (lp, r, w\<lparr>w_env := e\<rparr>) = Some (False, lp1, r1, w1)"
    "signal_reload H G files (c (w_env w)) (lp1, r1, w1, rs) = Some (lp2, r2, w2, rs2)"
    "maintains (r2, w2) (r3, w3)" "elapses H (r1, w1) (r3, w3)"
    "answered H G files cmd (lp2, r3, w3, rs2) reply (lp', r', w', rs')"
    "store_ok (rt_config_gen r) (w\<lparr>w_env := e\<rparr>)" "c (w_env w) \<le> c (w_env w1)"
    by (rule turn_clock [OF H c ok run])
  have "c (w_env w) \<le> c (w_env (w\<lparr>w_env := e\<rparr>))" using 1(1) by simp
  note u = upkeep_duties [OF H c this 1(7) 1(2)]
  note s = signal_reload_effect [OF 1(3)]
  note a = answered_effect [OF 1(6)]
  have rest: "elapses H (r1, w1) (r', w')" by (rule elapse.same_trans [OF 1(5) a(1)])
  have t: "c (w_env w1) \<le> c (w_env w')" by (rule clock_elapses [OF rest c])
  then show "c (w_env w) \<le> c (w_env w')" using 1(8) by simp
  show "lease_range r \<Longrightarrow> lease_range r'" using a(2) s(2) u(3) 1(4) by (simp add: lease_range_def maintains_def)
  have "lp_next lp' = (if c (w_env w) < lp_next lp then lp_next lp else c (w_env w) + 2 * FF_NS)"
    using a(3) s(3) u(5) by simp
  moreover have "m_leases w' = m_leases w1" using rest by (simp add: elapses_def)
  ultimately show "if c (w_env w) < lp_next lp then m_leases w' = m_leases w \<and> lp_next lp' = lp_next lp
     else lp_next lp' = c (w_env w) + 2 * FF_NS \<and>
       (\<exists>t. c (w_env w) \<le> t \<and> t \<le> c (w_env w') \<and> m_leases w' 0 =
          Some \<lparr>le_until = t + ucast (o_lease (rt_options r)) * FF_NS, le_reported = 0, le_pad = 0\<rparr>)"
    using u(6) t order_trans by (auto split: if_splits)
qed

lemma turn_reload:
  assumes H: "host_maps H" "map_update (lease_update H)" and c: "clocked c H" and ok: "store_ok (rt_config_gen r) w"
    and run: "turn H G files input (lp, r, w, rs) = Some (False, reply, lp', r', w', rs')"
  shows "lp_path lp' = lp_path lp \<or> (\<exists>es msg. input = Polled es (Some msg) \<and> command_line msg = ''reload '' @ lp_path lp' \<and>
       reply = Some (ReloadReply (Reloaded (rt_config_gen r'))))"
    and "asks_reload lp input \<Longrightarrow> c (w_env w) \<le> lp_last lp' \<and> lp_last lp' \<le> c (w_env w')"
    and "\<not> asks_reload lp input \<Longrightarrow> lp_last lp' = lp_last lp \<and> rt_config_gen r' = rt_config_gen r \<and> rt_options r' = rt_options r \<and>
       same_store (if lp_next lp \<le> c (w_env w) \<and> 2 * FF_NS < c (w_env w) - lp_last lp then reaped (rt_config_gen r) w else w) w'"
proof -
  obtain e lp1 r1 w1 lp2 r2 w2 rs2 es cmd r3 w3 where 1: "c (w_env w) \<le> c e"
    "upkeep H (c (w_env w)) (lp, r, w\<lparr>w_env := e\<rparr>) = Some (False, lp1, r1, w1)"
    "signal_reload H G files (c (w_env w)) (lp1, r1, w1, rs) = Some (lp2, r2, w2, rs2)" "input = Polled es cmd"
    "maintains (r2, w2) (r3, w3)" "answered H G files cmd (lp2, r3, w3, rs2) reply (lp', r', w', rs')"
    "store_ok (rt_config_gen r) (w\<lparr>w_env := e\<rparr>)" "c (w_env w) \<le> c (w_env w1)" "c (w_env w1) \<le> c (w_env w3)"
    by (rule turn_clock [OF H c ok run])
  have "c (w_env w) \<le> c (w_env (w\<lparr>w_env := e\<rparr>))" using 1(1) by simp
  note u = upkeep_duties [OF H c this 1(7) 1(2)]
  note s = signal_reload_effect [OF 1(3)]
  note a = answered_effect [OF 1(6)]
  have flag: "lp_reloading lp1 = lp_reloading lp" "lp_last lp1 = lp_last lp" "lp_path lp1 = lp_path lp" using u(5) by simp_all
  show "lp_path lp' = lp_path lp \<or> (\<exists>es msg. input = Polled es (Some msg) \<and> command_line msg = ''reload '' @ lp_path lp' \<and>
       reply = Some (ReloadReply (Reloaded (rt_config_gen r'))))"
    using a(4) s(3) flag 1(4) by (auto split: if_splits)
  show "c (w_env w) \<le> lp_last lp' \<and> lp_last lp' \<le> c (w_env w')" if "asks_reload lp input"
  proof (cases "\<exists>msg. cmd = Some msg \<and> reload_command msg")
    case True
    then show ?thesis using a(6) [OF c, of "c (w_env w)"] 1(8,9) by auto
  next
    case False
    with that have "lp_last lp2 = c (w_env w)" using s(3) flag by (auto simp: asks_reload_def 1(4))
    then show ?thesis using a(5) [OF c, of "c (w_env w)"] 1(8,9) by simp
  qed
  assume no: "\<not> asks_reload lp input"
  then have "\<not> lp_reloading lp1" "\<And>msg. cmd = Some msg \<Longrightarrow> \<not> reload_command msg" using flag by (auto simp: asks_reload_def 1(4))
  with s(3,4) answered_plain [OF 1(6)] have same: "lp2 = lp1" "r2 = r1" "w2 = w1" "r' = r3" "w' = w3" "lp_last lp' = lp_last lp2" by auto
  let ?C = "lp_next lp \<le> c (w_env w) \<and> 2 * FF_NS < c (w_env w) - lp_last lp"
  have "same_store (if ?C then reaped (rt_config_gen r) w else w) w1"
    using u(4) same_store_trans [OF reaped_same_store [of w "w\<lparr>w_env := e\<rparr>"]] same_store_trans [of w "w\<lparr>w_env := e\<rparr>" w1]
    by (cases ?C) auto
  moreover have "same_store w1 w3" using 1(5) same by (simp add: maintains_def)
  ultimately have "same_store (if ?C then reaped (rt_config_gen r) w else w) w'"
    unfolding same(5) by (rule same_store_trans)
  with same 1(5) u(2,3) flag show "lp_last lp' = lp_last lp \<and> rt_config_gen r' = rt_config_gen r \<and> rt_options r' = rt_options r \<and>
       same_store (if ?C then reaped (rt_config_gen r) w else w) w'" by (simp add: maintains_def)
qed

section \<open>The property\<close>

text \<open>
  Property C36. What a turn of the event loop that goes on does, whatever the sockets and signals deliver, under a clock that
  does not go back. The lease: once its time has come it is renewed for the configured seconds from a
  reading of this turn, and the next renewal is due two seconds after the turn began; otherwise lease and
  due time stay. So the lease always outlasts the next due time by two seconds: a daemon whose turns do not
  start later than that never lets the programs go silent. The generations: without a reload the store
  changes only when a renewal is due and the last reload is more than two seconds ago, and then it loses exactly the
  generations older than the previous one. A reload, by signal or by command, successful or not, is stamped
  with a reading of this turn. The path in force changes only to the one named in a reload command that was
  answered with the new generation.
\<close>
theorem turn_duties:
  assumes H: "host_maps H" "map_update (lease_update H)" and c: "clocked c H" "unat (c (w_env w')) < 2 ^ 63"
    and ok: "store_ok (rt_config_gen r) w" "lease_range r" and ahead: "lease_ahead lp w"
    and run: "turn H G files input (lp, r, w, rs) = Some (False, reply, lp', r', w', rs')"
  shows "lease_ahead lp' w' \<and> lease_range r' \<and> c (w_env w) < lp_next lp' \<and>
    (\<forall>t. unat t < unat (lp_next lp') + 2000000000 \<longrightarrow> fst (alive t w')) \<and>
    (if c (w_env w) < lp_next lp then m_leases w' = m_leases w \<and> lp_next lp' = lp_next lp
     else lp_next lp' = c (w_env w) + 2 * FF_NS \<and>
       (\<exists>t. c (w_env w) \<le> t \<and> t \<le> c (w_env w') \<and> m_leases w' 0 =
          Some \<lparr>le_until = t + ucast (o_lease (rt_options r)) * FF_NS, le_reported = 0, le_pad = 0\<rparr>)) \<and>
    (if asks_reload lp input then c (w_env w) \<le> lp_last lp' \<and> lp_last lp' \<le> c (w_env w')
     else lp_last lp' = lp_last lp \<and> rt_config_gen r' = rt_config_gen r \<and> rt_options r' = rt_options r \<and>
       same_store (if lp_next lp \<le> c (w_env w) \<and> 2 * FF_NS < c (w_env w) - lp_last lp then reaped (rt_config_gen r) w else w) w') \<and>
    (lp_path lp' = lp_path lp \<or> (\<exists>es msg. input = Polled es (Some msg) \<and> command_line msg = ''reload '' @ lp_path lp' \<and>
       reply = Some (ReloadReply (Reloaded (rt_config_gen r')))))"
proof -
  note l = turn_lease [OF H c(1) ok(1) run]
  note re = turn_reload [OF H c(1) ok(1) run]
  have small: "unat (c (w_env w)) < 2 ^ 63" using l(1) c(2) by (simp add: word_le_nat_alt)
  then have late: "c (w_env w) < c (w_env w) + 2 * FF_NS" by (simp add: word_less_nat_alt unat_word_ariths)
  have ahead': "lease_ahead lp' w'"
  proof (cases "c (w_env w) < lp_next lp")
    case True
    with ahead l(3) show ?thesis by (simp add: lease_ahead_def)
  next
    case False
    with l(3) obtain t where t: "c (w_env w) \<le> t" "t \<le> c (w_env w')" and nxt: "lp_next lp' = c (w_env w) + 2 * FF_NS"
      and until: "m_leases w' 0 = Some \<lparr>le_until = t + ucast (o_lease (rt_options r)) * FF_NS, le_reported = 0, le_pad = 0\<rparr>" by auto
    have "unat t < 2 ^ 63" using c(2) t(2) by (simp add: word_le_nat_alt)
    from ahead_renewed [OF until _ _ t(1) this nxt] ok(2) show ?thesis by (simp add: lease_range_def)
  qed
  have next_due: "c (w_env w) < lp_next lp'" using l(3) late by (auto split: if_splits)
  show ?thesis using ahead' l(2) [OF ok(2)] next_due ahead_alive [OF ahead'] l(3) re by (auto split: if_splits)
qed

section \<open>Witness\<close>

text \<open>
  A host whose clock stops at its end. The store has three generations; the lease is due, and nothing
  was reloaded for four seconds: the status is asked for, the lease renewed, the first generation reaped.
\<close>

definition clock_host :: "u64 host" where
  "clock_host = sample_host\<lparr>monotime := (\<lambda>e. (e, if e = - 1 then e else e + 1))\<rparr>"

lemma clock_host_maps: "host_maps clock_host" "map_update (lease_update clock_host)"
  using sized_host_maps [OF sample_host_sized] by (simp_all add: clock_host_def host_maps_def iterates_def sample_host_def map_update_def)

lemma clock_host_clocked: "clocked (\<lambda>e. e) clock_host"
proof -
  have "e \<le> e'" if "call clock_host e e'" for e e'
    using that
  proof cases
    case 1
    show ?thesis
    proof (cases "e = - 1")
      case False
      then have "1 + e \<noteq> 0" by (metis add.commute add_eq_0_iff2)
      then have "unat (1 + e) = Suc (unat e)" by (rule unatSuc)
      with 1 False show ?thesis by (auto simp: clock_host_def word_le_nat_alt add.commute)
    qed (use 1 in \<open>auto simp: clock_host_def\<close>)
  qed (simp_all add: clock_host_def sample_host_def)
  then show ?thesis by (simp add: clocked_def clock_host_def)
qed

definition due_runtime :: runtime where
  "due_runtime = (start_runtime (sample_options\<lparr>o_devices := []\<rparr>))\<lparr>rt_config_gen := 3\<rparr>"

definition due_loop :: loop where
  "due_loop = \<lparr>lp_next = 4000000000, lp_last = 0, lp_path = ''/c'', lp_reloading = False, lp_quitting = False\<rparr>"

definition due_world :: "u64 world" where
  "due_world = three_world\<lparr>m_leases := [0 \<mapsto> \<lparr>le_until = 9000000000, le_reported = 0, le_pad = 0\<rparr>], w_env := 4000000000\<rparr>"

theorem turn_duties_witness:
  "\<exists>lp' w'. turn clock_host counting_source org_files (Polled [] (Some ''status'')) (due_loop, due_runtime, due_world, 0) =
      Some (False, Some (Text (status_json due_runtime)), lp', due_runtime, w', 0) \<and>
    lp_next lp' = 6000000000 \<and> lease_ahead lp' w' \<and> m_configs w' 1 = None \<and> m_configs w' 2 \<noteq> None"
proof -
  have ok: "store_ok (rt_config_gen due_runtime) due_world"
    using three_store store_ok_same [of three_world due_world] by (simp add: due_runtime_def due_world_def)
  have ok3: "store_ok 3 (due_world\<lparr>m_leases := l, w_env := e\<rparr>)" for l e
    using three_store store_ok_same [of three_world "due_world\<lparr>m_leases := l, w_env := e\<rparr>"] by (simp add: due_world_def)
  have reap: "reap_configs clock_host due_runtime (due_world\<lparr>m_leases := l, w_env := e\<rparr>) = Some (reaped 3 (due_world\<lparr>m_leases := l, w_env := e\<rparr>))" for l e
    using clock_host_maps(1) store_okD(2) [OF ok3] unfolding reap_configs_def host_maps_def
    by (simp add: due_runtime_def reap_loop_reaped)
  have refresh: "refresh H False (due_runtime, w) = (False, due_runtime, w)" for H :: "u64 host" and w
    by (simp add: refresh_def due_runtime_def start_runtime_def)
  have clock: "monotime clock_host e = (e, e + 1)" if "e \<noteq> - 1" for e using that by (simp add: clock_host_def)
  have lease: "lease clock_host due_runtime True (due_world\<lparr>w_env := 4000000001\<rparr>) =
      (False, due_world\<lparr>m_leases := [0 \<mapsto> \<lparr>le_until = 14000000001, le_reported = 0, le_pad = 0\<rparr>], w_env := 4000000002\<rparr>)"
    by (simp add: lease_def clock due_world_def due_runtime_def start_runtime_def sample_options_def) (simp add: clock_host_def sample_host_def)
  let ?w = "reaped 3 (due_world\<lparr>m_leases := [0 \<mapsto> \<lparr>le_until = 14000000001, le_reported = 0, le_pad = 0\<rparr>], w_env := 4000000002\<rparr>)"
  have up: "upkeep clock_host 4000000000 (due_loop, due_runtime, due_world\<lparr>w_env := 4000000001\<rparr>) =
      Some (False, due_loop\<lparr>lp_next := 6000000000\<rparr>, due_runtime, ?w)"
    by (simp add: upkeep_def refresh lease reap due_loop_def word_less_nat_alt)
  have status: "command_line ''status'' = ''status''" by (simp add: command_line_def)
  have run: "turn clock_host counting_source org_files (Polled [] (Some ''status'')) (due_loop, due_runtime, due_world, 0) =
      Some (False, Some (Text (status_json due_runtime)), due_loop\<lparr>lp_next := 6000000000\<rparr>, due_runtime, ?w, 0)"
    using up by (simp add: turn_def clock due_world_def signal_reload_def due_loop_def serve_def Let_def status)
  have w: "w_env ?w = 4000000002" "w_env due_world = 4000000000" by (simp_all add: reaped_def due_world_def)
  have "lease_range due_runtime" by (simp add: lease_range_def due_runtime_def start_runtime_def sample_options_def)
  moreover have "lease_ahead due_loop due_world" by (simp add: lease_ahead_def due_loop_def due_world_def)
  ultimately have "lease_ahead (due_loop\<lparr>lp_next := 6000000000\<rparr>) ?w \<and>
      same_store (reaped (rt_config_gen due_runtime) due_world) ?w"
    using turn_duties [OF clock_host_maps clock_host_clocked _ ok _ _ run] w
    by (simp add: asks_reload_def due_loop_def reload_command_def status word_less_nat_alt word_le_nat_alt)
  moreover have "m_configs (reaped 3 due_world) 1 = None" "m_configs (reaped 3 due_world) 2 \<noteq> None"
    by (simp_all add: reaped_def stale_def due_world_def three_world_def word_less_nat_alt)
  ultimately show ?thesis using run by (intro exI [of _ "due_loop\<lparr>lp_next := 6000000000\<rparr>"] exI [of _ ?w]) (simp add: same_store_def due_runtime_def)
qed

end
