(* ===== verification/Release.thy ===== *)
theory Release
  imports Ledger
begin

text \<open>
  A whole run and its resources: the event loop keeps the books, each step of the preparation opens at most
  one more handle and leaves the books right when it fails, and the way out gives back what the process
  knows of. What is left over is what a call has reported a failure about.
\<close>

section \<open>A turn of the loop\<close>

lemma clock_tended: "host_books B H \<Longrightarrow> monotime H (w_env w) = (now, e) \<Longrightarrow> tended B (r, w) (r, w\<lparr>w_env := e\<rparr>)"
  by (rule tended_env) (rule neutralD [OF host_booksD(1)])

lemma upkeep_tended:
  assumes B: "host_books B H" and run: "upkeep H now (lp, r, w) = Some (err, lp', r', w')"
  shows "tended B (r, w) (r', w')"
proof (cases "now < lp_next lp")
  case True
  with run show ?thesis by (simp add: upkeep_def tended.same_refl)
next
  case False
  obtain e1 r1 w1 where rf: "refresh H False (r, w) = (e1, r1, w1)" by (metis prod_cases3)
  obtain e2 w2 where le: "lease H r1 True w1 = (e2, w2)" by fastforce
  note 1 = refresh_tended [OF B rf]
  note 2 = tended_trans [OF 1 lease_tended [OF B le]]
  show ?thesis
  proof (cases "e1 \<or> e2")
    case True
    with run False rf le 1 2 show ?thesis by (auto simp: upkeep_def split: if_splits)
  next
    case ok: False
    from run False rf le ok obtain w3 where r: "r' = r1" "w' = w3" and w3: "w3 = w2 \<or> reap_configs H r1 w2 = Some w3"
      by (auto simp: upkeep_def split: if_splits Option.bind_splits)
    from w3 show ?thesis
    proof
      assume "reap_configs H r1 w2 = Some w3"
      from tended_trans [OF 2 reap_tended [OF this]] show ?thesis unfolding r .
    qed (use 2 r in simp)
  qed
qed

lemma signal_reload_tended:
  "signal_reload H G files now (lp, r, w, rs) = Some (lp', r', w', rs') \<Longrightarrow> tended B (r, w) (r', w')"
  by (auto simp: signal_reload_def tended.same_refl split: if_splits Option.bind_splits intro: reload_tended)

lemma link_events_tended: "host_books B H \<Longrightarrow> tended B s (link_events H es s)"
proof (induction H es s rule: link_events.induct)
  case (2 H idx es s)
  from tended_trans [OF link_deleted_tended [OF 2(2)] 2(1) [OF 2(2)]] show ?case by simp
next
  case (3 H es s)
  from tended_trans [OF events_lost_tended [OF 3(2)] 3(1) [OF 3(2)]] show ?case by simp
qed (simp add: tended.same_refl)

lemma serve_tended:
  assumes B: "host_books B H" and run: "serve H G files text (lp, r, w, rs) = Some (reply, lp', r', w', rs')"
  shows "tended B (r, w) (r', w')"
proof -
  have reload: "tended B (r, w) (r', w')"
    if run: "serve_reload H G files command (lp, r, w, rs) = Some (reply, lp', r', w', rs')" for command
  proof -
    let ?sel = "if 6 < length command then drop 7 command else lp_path lp"
    show ?thesis
    proof (cases "1024 \<le> length ?sel")
      case True
      obtain now e where m: "monotime H (w_env w) = (now, e)" by fastforce
      with run True have "r' = r" "w' = w\<lparr>w_env := e\<rparr>" by (auto simp: serve_reload_def Let_def)
      with clock_tended [OF B m] show ?thesis by simp
    next
      case False
      from run False obtain res r1 w1 rs1 where rl: "reload H G files ?sel (r, w, rs) = Some (res, r1, w1, rs1)"
        by (auto simp: serve_reload_def Let_def split: Option.bind_splits)
      obtain now e where m: "monotime H (w_env w1) = (now, e)" by fastforce
      with run False rl have "r' = r1" "w' = w1\<lparr>w_env := e\<rparr>" by (auto simp: serve_reload_def Let_def)
      with tended_trans [OF reload_tended [OF rl] clock_tended [OF B m]] show ?thesis by simp
    qed
  qed
  have "(r', w') = (r, w) \<or> (\<exists>command. serve_reload H G files command (lp, r, w, rs) = Some (reply, lp', r', w', rs'))"
    using run unfolding serve_def Let_def prod.case by (auto split: if_splits)
  with reload show ?thesis by (auto simp: tended.same_refl)
qed

lemma turn_tended:
  assumes B: "host_books B H" and run: "turn H G files input (lp, r, w, rs) = Some (stop, reply, lp', r', w', rs')"
  shows "tended B (r, w) (r', w')"
proof -
  obtain now e where t: "monotime H (w_env w) = (now, e)" by fastforce
  from run t obtain err lp1 r1 w1 where u: "upkeep H now (lp, r, w\<lparr>w_env := e\<rparr>) = Some (err, lp1, r1, w1)"
    by (auto simp: turn_def split: Option.bind_splits)
  note 1 = tended_trans [OF clock_tended [OF B t] upkeep_tended [OF B u]]
  show ?thesis
  proof (cases err)
    case True
    with run t u 1 show ?thesis by (simp add: turn_def)
  next
    case False
    from run t u False obtain lp2 r2 w2 rs2 where s: "signal_reload H G files now (lp1, r1, w1, rs) = Some (lp2, r2, w2, rs2)"
      by (auto simp: turn_def split: Option.bind_splits)
    note 2 = tended_trans [OF 1 signal_reload_tended [OF s]]
    show ?thesis
    proof (cases input)
      case PollError
      with run t u False s 2 show ?thesis by (simp add: turn_def)
    next
      case (Polled es command)
      obtain r3 w3 where l: "link_events H es (r2, w2) = (r3, w3)" by fastforce
      have 3: "tended B (r, w) (r3, w3)" using tended_trans [OF 2 link_events_tended [OF B, of "(r2, w2)" es]] by (simp add: l)
      show ?thesis
      proof (cases command)
        case None
        with run t u False s Polled l 3 show ?thesis by (simp add: turn_def)
      next
        case (Some msg)
        with run t u False s Polled l obtain rep where "serve H G files msg (lp2, r3, w3, rs2) = Some (rep, lp', r', w', rs')"
          by (auto simp: turn_def split: Option.bind_splits)
        from tended_trans [OF 3 serve_tended [OF B this]] show ?thesis .
      qed
    qed
  qed
qed

text \<open>What happens between two turns may take resources away, and adds none to the process.\<close>

definition input_books :: "('e \<Rightarrow> resource set) \<Rightarrow> 'e input \<Rightarrow> bool" where
  "input_books B i \<longleftrightarrow> (\<forall>w. B (w_env (in_meanwhile i w)) \<subseteq> B (w_env w))"

lemma ff_loop_tended:
  assumes B: "host_books B H"
  shows "ff_loop H G is (lp, r, w, rs) = Some (rc, r', w', rs') \<Longrightarrow> list_all (input_books B) is \<Longrightarrow> tended B (r, w) (r', w')"
proof (induction "is" arbitrary: lp r w rs)
  case Nil
  then show ?case by (simp add: tended.same_refl)
next
  case (Cons i "is")
  let ?lp = "fold on_signal (in_signals i) lp" and ?w = "in_meanwhile i w"
  have 1: "tended B (r, w) (r, ?w)"
    using tended_env [of B "w_env ?w" w r ?w] Cons.prems(2) by (simp add: input_books_def)
  show ?case
  proof (cases "lp_quitting ?lp")
    case True
    with Cons.prems(1) 1 show ?thesis by (simp add: Let_def)
  next
    case False
    with Cons.prems(1) obtain stop reply lp1 r1 w1 rs1
      where t: "turn H G (in_files i) (in_poll i) (?lp, r, ?w, rs) = Some (stop, reply, lp1, r1, w1, rs1)"
        and rest: "if stop then (rc, r', w', rs') = (Some 1, r1, w1, rs1) else ff_loop H G is (lp1, r1, w1, rs1) = Some (rc, r', w', rs')"
      by (auto simp: Let_def split: Option.bind_splits if_splits)
    note 2 = tended_trans [OF 1 turn_tended [OF B t]]
    show ?thesis
    proof (cases stop)
      case True
      with rest 2 show ?thesis by simp
    next
      case False
      with rest have "ff_loop H G is (lp1, r1, w1, rs1) = Some (rc, r', w', rs')" by simp
      from tended_trans [OF 2 Cons.IH [OF this]] Cons.prems(2) show ?thesis by simp
    qed
  qed
qed

section \<open>The way in\<close>

text \<open>With such a lease the programs do nothing.\<close>

definition inert :: "'e world \<Rightarrow> bool" where
  "inert w \<longleftrightarrow> (case m_leases w 0 of None \<Rightarrow> True | Some l \<Rightarrow> le_until l = 0)"

definition ready :: "runtime \<Rightarrow> bool" where
  "ready r \<longleftrightarrow> rt_object r \<and> rt_loaded r"

text \<open>A step with what holds before it, after it, and when it fails.\<close>

definition step_spec :: "('s \<Rightarrow> bool) \<Rightarrow> ('s \<Rightarrow> bool \<times> 's) \<Rightarrow> ('s \<Rightarrow> bool) \<Rightarrow> ('s \<Rightarrow> bool) \<Rightarrow> bool" where
  "step_spec P f Q E \<longleftrightarrow> (\<forall>s err s'. P s \<longrightarrow> f s = (err, s') \<longrightarrow> (if err then E s' else Q s'))"

lemma step_specI: "(\<And>s err s'. P s \<Longrightarrow> f s = (err, s') \<Longrightarrow> if err then E s' else Q s') \<Longrightarrow> step_spec P f Q E"
  unfolding step_spec_def by blast

lemma step_specD: "step_spec P f Q E \<Longrightarrow> P s \<Longrightarrow> f s = (err, s') \<Longrightarrow> if err then E s' else Q s'"
  unfolding step_spec_def by blast

lemma run_steps_nil_spec: "step_spec P (run_steps []) P E"
  by (simp add: step_spec_def)

lemma run_steps_cons_spec:
  assumes "step_spec P f Q E" and "step_spec Q (run_steps fs) R E"
  shows "step_spec P (run_steps (f # fs)) R E"
proof (rule step_specI)
  fix s err s' assume P: "P s" and run: "run_steps (f # fs) s = (err, s')"
  obtain err1 s1 where f: "f s = (err1, s1)" by fastforce
  note one = step_specD [OF assms(1) P f]
  show "if err then E s' else R s'"
  proof (cases err1)
    case True
    with run f one show ?thesis by simp
  next
    case False
    with run f have "run_steps fs s1 = (err, s')" by simp
    from step_specD [OF assms(2) _ this] one False show ?thesis by simp
  qed
qed

text \<open>How far the preparation has come: which handles are not yet open, and whether there is a lease to take back.\<close>

definition unused :: "nat \<Rightarrow> runtime \<Rightarrow> bool" where
  "unused n r \<longleftrightarrow> (n < 1 \<longrightarrow> Lock \<notin> handles r) \<and> (n < 4 \<longrightarrow> Object \<notin> handles r) \<and> (n < 7 \<longrightarrow> rt_dummy r = []) \<and>
     (n < 8 \<longrightarrow> Tun \<notin> handles r) \<and> (n < 10 \<longrightarrow> Route \<notin> handles r) \<and> Server \<notin> handles r"

definition prepared :: "('e \<Rightarrow> resource set) \<Rightarrow> resource set \<Rightarrow> nat \<Rightarrow> runtime \<times> 'e world \<Rightarrow> bool" where
  "prepared B base n s \<longleftrightarrow> in_books B base s \<and> unused n (fst s) \<and> (if n < 4 then inert (snd s) else ready (fst s))"

definition stopped :: "('e \<Rightarrow> resource set) \<Rightarrow> resource set \<Rightarrow> runtime \<times> 'e world \<Rightarrow> bool" where
  "stopped B base s \<longleftrightarrow> in_books B base s \<and> (ready (fst s) \<or> inert (snd s))"

lemma handles_iff [simp]:
  "Object \<in> handles r \<longleftrightarrow> rt_object r" "Tun \<in> handles r \<longleftrightarrow> rt_tun r" "Server \<in> handles r \<longleftrightarrow> rt_server r"
  "Route \<in> handles r \<longleftrightarrow> rt_route r" "Lock \<in> handles r \<longleftrightarrow> rt_lock r"
  by (simp_all add: handles_def)

lemma unused_next: "unused n r \<Longrightarrow> unused (n + 1) r"
  by (simp add: unused_def)

lemma unused_fixtures: "unused n r \<Longrightarrow> same_fixtures r r' \<Longrightarrow> unused (n + 1) r'"
  by (rule unused_next) (simp add: unused_def same_fixtures_def del: handles_iff)

lemma ready_fixtures: "same_fixtures r r' \<Longrightarrow> ready r' \<longleftrightarrow> ready r"
  by (metis same_fixtures_def ready_def handles_iff(1))

text \<open>A tended step fits anywhere once the programs are loaded, and before that if it leaves the lease alone.\<close>

lemma tended_spec:
  assumes "\<And>r w err r' w'. f (r, w) = (err, r', w') \<Longrightarrow> tended B (r, w) (r', w')"
    and m: "m = n + 1"
    and "n < 4 \<Longrightarrow> m < 4 \<and> (\<forall>r w err r' w'. f (r, w) = (err, r', w') \<longrightarrow> m_leases w' = m_leases w)"
  shows "step_spec (prepared B base n) f (prepared B base m) (stopped B base)"
proof (rule step_specI)
  fix s err s' assume P: "prepared B base n s" and run: "f s = (err, s')"
  obtain r w r' w' where s: "s = (r, w)" "s' = (r', w')" by fastforce
  note t = assms(1) [OF run [unfolded s]]
  have books: "in_books B base (r', w')" and fix': "same_fixtures r r'"
    using P t by (simp_all add: prepared_def s tended_def)
  have un: "unused m r'" using P fix' unused_fixtures by (auto simp: prepared_def s m)
  show "if err then stopped B base s' else prepared B base m s'"
  proof (cases "n < 4")
    case True
    with assms(3) run s have "m_leases w' = m_leases w" "m < 4" by auto
    with True P books un show ?thesis by (simp add: prepared_def stopped_def s inert_def)
  next
    case False
    with P have "ready r'" by (simp add: prepared_def s ready_fixtures [OF fix'])
    with False books un m show ?thesis by (simp add: prepared_def stopped_def s)
  qed
qed

lemma command_tended:
  assumes S: "sys_books B S" and run: "command S args (r, w) = (err, r', w')" and other: "sets_link args"
  shows "tended B (r, w) (r', w')"
proof -
  obtain status e where c: "run_command S args (w_env w) = (status, e)" by fastforce
  have "B e \<subseteq> B (w_env w)" by (rule neutralD [OF sys_booksD(17) [OF S other] c])
  then show ?thesis using run c tended_env [of B e w r w] by (auto simp: command_def ff_command_def)
qed

lemma run_steps_tended:
  "(\<And>f r w err r' w'. f \<in> set fs \<Longrightarrow> f (r, w) = (err, r', w') \<Longrightarrow> tended B (r, w) (r', w')) \<Longrightarrow>
   run_steps fs (r, w) = (err, r', w') \<Longrightarrow> tended B (r, w) (r', w')"
proof (induction fs arbitrary: r w)
  case (Cons f fs)
  obtain err1 r1 w1 where f: "f (r, w) = (err1, r1, w1)" by (metis prod_cases3)
  have one: "tended B (r, w) (r1, w1)" by (rule Cons.prems(1) [of f, OF _ f]) simp
  show ?case
  proof (cases err1)
    case True
    with Cons.prems(2) f one show ?thesis by simp
  next
    case False
    with Cons.prems(2) f have run: "run_steps fs (r1, w1) = (err, r', w')" by simp
    have "tended B (r1, w1) (r', w')" by (rule Cons.IH [OF _ run]) (auto intro: Cons.prems(1))
    with one show ?thesis by (rule tended_trans)
  qed
qed (simp add: tended.same_refl)

text \<open>A step that opens a handle: the flag is what the call says.\<close>

lemma ours_opened:
  assumes "rt_attached r' = rt_attached r" "rt_index r' = rt_index r" "rt_ingress r' = rt_ingress r"
    "rt_dummy r' = rt_dummy r" "handles r \<subseteq> handles r'" "rt_options r' = rt_options r" "rt_generation r' = rt_generation r"
    and "in_books B base (r, w)" and "B e' \<subseteq> B (w_env w) \<union> Open ` handles r'"
  shows "in_books B base (r', w'\<lparr>w_env := e'\<rparr>)"
proof -
  have "ours r \<subseteq> ours r'" "Open ` handles r' \<subseteq> ours r'" using assms(1-5) by (auto simp: ours_def)
  moreover have "slots_ok r'" using assms(1-8) by (simp add: in_books_def slots_ok_def arrays_ok_def)
  ultimately show ?thesis using assms(8,9) by (simp add: in_books_def) blast
qed

lemma lock_dir_spec:
  assumes S: "sys_books B S"
  shows "step_spec (prepared B base 0) (lock_dir S dir) (prepared B base 1) (stopped B base)"
proof (rule step_specI)
  fix s err s' assume P: "prepared B base 0 s" and run: "lock_dir S dir s = (err, s')"
  obtain r w where s: "s = (r, w)" by fastforce
  obtain ok e where o: "open_lock S (dir @ ''/lock'') (w_env w) = (ok, e)" by fastforce
  obtain ok2 e2 where t: "take_lock S e = (ok2, e2)" by fastforce
  let ?r = "r\<lparr>rt_lock := ok\<rparr>"
  have e: "B e \<subseteq> B (w_env w) \<union> (if ok then {Open Lock} else {})" by (rule acquiresD [OF sys_booksD(12) [OF S] o])
  have e2: "B e2 \<subseteq> B e" by (rule neutralD [OF sys_booksD(3) [OF S] t])
  have h: "handles ?r = handles r \<union> (if ok then {Lock} else {})" "Lock \<notin> handles r"
    using P by (auto simp: handles_def prepared_def unused_def s)
  have books: "in_books B base (?r, w\<lparr>w_env := x\<rparr>)" if "x = e \<or> x = e2" for x
    by (rule ours_opened [of _ r]) (use P e e2 h that in \<open>auto simp: prepared_def s\<close>)
  have "unused 1 ?r" using P h by (auto simp: prepared_def unused_def s)
  moreover have "inert (w\<lparr>w_env := x\<rparr>)" for x using P by (simp add: prepared_def s inert_def)
  ultimately show "if err then stopped B base s' else prepared B base 1 s'"
    using run o t books [of e] books [of e2] by (cases ok) (auto simp: lock_dir_def s Let_def prepared_def stopped_def)
qed

lemma stale_filters_books:
  assumes H: "host_books B H" and P: "past_books B P"
  shows "B (stale_filters H P e) \<subseteq> B e"
proof -
  have pb: "neutral B (state_file P)" "neutral B (ifalias P n)" "releases B (delete_device P n) {}" for n
    using P by (simp_all add: past_books_def)
  have dummy: "B (stale_dummy H P idx name owner e) \<subseteq> B e" for idx name owner e
  proof -
    obtain i e1 where 1: "if_nametoindex H name e = (i, e1)" by fastforce
    obtain l e2 where 2: "ifalias P name e1 = (l, e2)" by fastforce
    have "B e1 \<subseteq> B e" "B e2 \<subseteq> B e1" "B (delete_device P name e2) \<subseteq> B e2"
      using neutralD [OF host_booksD(2) [OF H] 1] neutralD [OF pb(2) 2] releasesD [OF pb(3), of name e2] by auto
    then show ?thesis by (auto simp: stale_dummy_def 1 2 split: option.split)
  qed
  have line: "B (stale_line H P l e) \<subseteq> B e" for l e
  proof -
    let ?e = "case scan_filter l of None \<Rightarrow> e | Some a \<Rightarrow> ff_detach H a e"
    have "B ?e \<subseteq> B e" using releasesD [OF detach_books [OF H], of _ e] by (cases "scan_filter l") auto
    moreover have "B (stale_line H P l e) \<subseteq> B ?e"
      unfolding stale_line_def Let_def using dummy [of _ _ _ ?e] by (cases "scan_dummy l") auto
    ultimately show ?thesis by blast
  qed
  have lines: "B (fold (stale_line H P) ls e) \<subseteq> B e" for ls e
  proof (induction ls arbitrary: e)
    case (Cons l ls)
    from Cons [of "stale_line H P l e"] line [of l e] show ?case by auto
  qed simp
  obtain f e1 where f: "state_file P e = (f, e1)" by fastforce
  have "B e1 \<subseteq> B e" by (rule neutralD [OF pb(1) f])
  moreover have "stale_filters H P e = e1 \<or> (\<exists>ls. stale_filters H P e = fold (stale_line H P) ls e1)"
    by (cases f) (auto simp: stale_filters_def f)
  ultimately show ?thesis using lines by (metis subset_trans)
qed

lemma clear_stale_spec:
  assumes "host_books B H" and "past_books B P"
  shows "step_spec (prepared B base 1) (clear_stale H P) (prepared B base 2) (stopped B base)"
proof (rule tended_spec)
  fix r w err r' and w' :: "'a world" assume "clear_stale H P (r, w) = (err, r', w')"
  then have "r' = r" "w' = w\<lparr>w_env := stale_filters H P (w_env w)\<rparr>" by (simp_all add: clear_stale_def)
  with tended_env [of B _ w, OF stale_filters_books [OF assms]] show "tended B (r, w) (r', w')" by simp
qed (auto simp: clear_stale_def)

lemma check_books:
  assumes H: "host_books B H"
  shows "check_devices H ds e = (failed, e') \<Longrightarrow> B e' \<subseteq> B e"
proof (induction ds arbitrary: e failed)
  case (Cons d ds)
  obtain link e1 where l: "ff_link H (d_name d) (d_mode d) e = (link, e1)" by fastforce
  obtain taken e2 where a: "ff_priority_available H (d_name d) ''egress'' e1 = (taken, e2)" by fastforce
  have b: "B e1 \<subseteq> B e" "B e2 \<subseteq> B e1" by (rule link_books(1) [OF H l]) (rule available_books [OF H a])
  show ?case
  proof (cases link)
    case None
    then obtain failed1 where "check_devices H ds e1 = (failed1, e')" using Cons.prems l by (auto split: prod.splits)
    from Cons.IH [OF this] b show ?thesis by blast
  next
    case (Some x)
    then obtain failed1 where "check_devices H ds e2 = (failed1, e')" using Cons.prems l a by (auto split: prod.splits)
    from Cons.IH [OF this] b show ?thesis by blast
  qed
qed simp

lemma preflight_spec:
  assumes "host_books B H"
  shows "step_spec (prepared B base 2) (preflight H) (prepared B base 3) (stopped B base)"
proof (rule tended_spec)
  fix r w err r' and w' :: "'a world" assume run: "preflight H (r, w) = (err, r', w')"
  obtain failed e where c: "ff_check H (rt_options r) (w_env w) = (failed, e)" by fastforce
  with tended_env [OF check_books [OF assms]] run show "tended B (r, w) (r', w')"
    by (auto simp: preflight_def ff_check_def)
qed (auto simp: preflight_def split: prod.splits)

lemma load_programs_spec:
  assumes S: "sys_books B S"
  shows "step_spec (prepared B base 3) (load_programs S object) (prepared B base 4) (stopped B base)"
proof (rule step_specI)
  fix s err s' assume P: "prepared B base 3 s" and run: "load_programs S object s = (err, s')"
  obtain r w where s: "s = (r, w)" by fastforce
  let ?e = "raise_memlock S (w_env w)"
  obtain ok e where o: "open_object S object ?e = (ok, e)" by fastforce
  let ?r = "r\<lparr>rt_object := ok\<rparr>"
  obtain ok2 e2 where l: "load_object S (o_tcp_entries (rt_options r)) (o_udp_entries (rt_options r)) e = (ok2, e2)" by fastforce
  have "B ?e \<subseteq> B (w_env w)" using releasesD [OF sys_booksD(4) [OF S], of "w_env w"] by simp
  moreover have "B e \<subseteq> B ?e \<union> (if ok then {Open Object} else {})" by (rule acquiresD [OF sys_booksD(13) [OF S] o])
  moreover have "B e2 \<subseteq> B e" by (rule neutralD [OF sys_booksD(5) [OF S] l])
  ultimately have e: "B e \<subseteq> B (w_env w) \<union> (if ok then {Open Object} else {})" "B e2 \<subseteq> B (w_env w) \<union> (if ok then {Open Object} else {})"
    by blast+
  have h: "handles ?r = handles r \<union> (if ok then {Object} else {})" "handles (?r\<lparr>rt_loaded := ok2\<rparr>) = handles ?r"
    using P by (auto simp: handles_def prepared_def unused_def s)
  have b1: "in_books B base (?r, w\<lparr>w_env := e\<rparr>)"
    by (rule ours_opened [of _ r]) (use P e h in \<open>auto simp: prepared_def s\<close>)
  have b2: "in_books B base (?r\<lparr>rt_loaded := ok2\<rparr>, w\<lparr>w_env := e2\<rparr>)"
    by (rule ours_opened [of _ r]) (use P e h in \<open>auto simp: prepared_def s\<close>)
  have un: "unused 4 (?r\<lparr>rt_loaded := x\<rparr>)" for x using P by (auto simp: prepared_def unused_def s)
  have "inert (w\<lparr>w_env := x\<rparr>)" for x using P by (simp add: prepared_def s inert_def)
  with run o l b1 b2 un [of True] show "if err then stopped B base s' else prepared B base 4 s'"
    by (cases ok; cases ok2) (auto simp: load_programs_def s Let_def prepared_def stopped_def ready_def)
qed

lemma seed_sequence_tended:
  assumes S: "sys_books B S" and run: "seed_sequence S (r, w) = (err, r', w')"
  shows "tended B (r, w) (r', w')"
proof -
  obtain seed e where g: "random_seed S (w_env w) = (seed, e)" by fastforce
  have "B e \<subseteq> B (w_env w)" by (rule neutralD [OF sys_booksD(6) [OF S] g])
  then show ?thesis using run tended_env [of B e w r]
    by (cases seed) (auto simp: seed_sequence_def g split: prod.splits)
qed

lemma set_lease_tended: "host_books B H \<Longrightarrow> set_lease H on (r, w) = (err, r', w') \<Longrightarrow> tended B (r, w) (r', w')"
  using lease_tended by (fastforce simp: set_lease_def split: prod.splits)

lemma save_tended: "host_books B H \<Longrightarrow> save H (r, w) = (err, r', w') \<Longrightarrow> tended B (r, w) (r', w')"
proof -
  assume H: "host_books B H" and run: "save H (r, w) = (err, r', w')"
  obtain e where e: "r' = r" "w' = w\<lparr>w_env := e\<rparr>" using run by (auto simp: save_def save_state_def split: prod.splits)
  moreover have "B (w_env w') \<subseteq> B (w_env w)"
    by (rule save_state_books [OF H, of r w err]) (use run in \<open>auto simp: save_def split: prod.splits\<close>)
  ultimately show ?thesis using tended_env [of B e w r w] by simp
qed

lemma device_name_nonempty [simp]: "device_name S suffix \<noteq> []"
  by (simp add: device_name_def)

lemma make_dummy_spec:
  assumes H: "host_books B H" and S: "sys_books B S"
  shows "step_spec (prepared B base 6) (make_dummy H S) (prepared B base 7) (stopped B base)"
proof (rule step_specI)
  fix s err s' assume P: "prepared B base 6 s" and run: "make_dummy H S s = (err, s')"
  obtain r w where s: "s = (r, w)" by fastforce
  obtain r' w' where s': "s' = (r', w')" by fastforce
  let ?name = "device_name S ''l2''"
  obtain status e where c: "run_command S (add_dummy ?name) (w_env w) = (status, e)" by fastforce
  have d: "ff_dummy S (w_env w) = (status \<noteq> Exited 0, e)" using c by (simp add: ff_dummy_def ff_command_def add_dummy_def)
  have e: "B e \<subseteq> B (w_env w) \<union> (if status = Exited 0 then {Device ?name} else {})"
    by (rule acquiresD [OF sys_booksD(18) [OF S] c])
  have P': "in_books B base (r, w)" "rt_dummy r = []" "ready r" "unused 7 r" using P by (auto simp: prepared_def unused_def s)
  show "if err then stopped B base s' else prepared B base 7 s'"
  proof (cases "status = Exited 0")
    case False
    have r: "r\<lparr>rt_dummy := []\<rparr> = r" using P'(2) by simp
    have "B e \<subseteq> B (w_env w)" using e False by auto
    from tended_env [OF this, of r w] P'(1) have "in_books B base (r, w\<lparr>w_env := e\<rparr>)" by (simp add: tended_def)
    with run d False P'(3) r show ?thesis by (auto simp: make_dummy_def s stopped_def)
  next
    case True
    obtain idx e1 where 1: "if_nametoindex H ?name e = (idx, e1)" by fastforce
    obtain now e2 where 2: "monotime H e1 = (now, e2)" by fastforce
    let ?owner = "owner_name S now" and ?r = "r\<lparr>rt_dummy := ?name, rt_l2 := idx, rt_owner := owner_name S now\<rparr>"
    have "B e2 \<subseteq> B (w_env w) \<union> {Device ?name}"
      using neutralD [OF host_booksD(2) [OF H] 1] neutralD [OF host_booksD(1) [OF H] 2] e True by auto
    moreover have "ours r \<subseteq> ours ?r" "Device ?name \<in> ours ?r" using P'(2) by (auto simp: ours_def handles_def)
    moreover have "slots_ok ?r" using P'(1) by (simp add: in_books_def slots_ok_def arrays_ok_def)
    ultimately have books: "in_books B base (?r, w\<lparr>w_env := e2\<rparr>)" using P'(1) by (simp add: in_books_def) blast
    let ?steps = "[command S [''ip'', ''link'', ''set'', ''dev'', ?name, ''alias'', ?owner], save H]"
    have run': "run_steps ?steps (?r, w\<lparr>w_env := e2\<rparr>) = (err, r', w')"
      using run d True 1 2 by (simp add: make_dummy_def s s' Let_def)
    have t: "tended B (?r, w\<lparr>w_env := e2\<rparr>) (r', w')"
      by (rule run_steps_tended [OF _ run']) (auto simp: sets_link_def intro: command_tended [OF S] save_tended [OF H])
    then have bk: "in_books B base (r', w')" and sf: "same_fixtures ?r r'" using books by (simp_all add: tended_def)
    have "ready r'" using P'(3) ready_fixtures [OF sf] by (simp add: ready_def)
    moreover have "unused 7 ?r" using P'(4) by (simp add: unused_def)
    then have "unused 7 r'" using sf by (simp add: unused_def same_fixtures_def del: handles_iff)
    ultimately show ?thesis using bk by (simp add: s' stopped_def prepared_def)
  qed
qed

lemma opened_books:
  assumes "in_books B base (r, w)" and "ours r \<subseteq> ours r'" and "slots_ok r'" and "B e' \<subseteq> B (w_env w) \<union> ours r'"
  shows "in_books B base (r', w'\<lparr>w_env := e'\<rparr>)"
  using assms by (simp add: in_books_def) blast

lemma make_tun_spec:
  assumes H: "host_books B H" and S: "sys_books B S"
  shows "step_spec (prepared B base 7) (make_tun H S) (prepared B base 8) (stopped B base)"
proof (rule step_specI)
  fix s err s' assume P: "prepared B base 7 s" and run: "make_tun H S s = (err, s')"
  obtain r w where s: "s = (r, w)" by fastforce
  have P': "in_books B base (r, w)" "\<not> rt_tun r" "ready r" "unused 8 r" using P by (auto simp: prepared_def unused_def s)
  show "if err then stopped B base s' else prepared B base 8 s'"
  proof (cases "mode_count FF_L3 (rt_options r) = 0")
    case True
    with run P' show ?thesis by (auto simp: make_tun_def s prepared_def)
  next
    case False
    obtain ok e where o: "open_tun S (w_env w) = (ok, e)" by fastforce
    have e: "B e \<subseteq> B (w_env w) \<union> (if ok then {Open Tun} else {})" by (rule acquiresD [OF sys_booksD(14) [OF S] o])
    obtain nm e1 where n: "name_tun S (device_name S ''l3'') e = (nm, e1)" by fastforce
    have e1: "B e1 \<subseteq> B e" by (rule neutralD [OF sys_booksD(7) [OF S] n])
    have c: "B (close_handle S Tun e1) \<subseteq> B e1 - {Open Tun}" by (rule releasesD [OF sys_booksD(16) [OF S]])
    have failed: "stopped B base (r, w\<lparr>w_env := x\<rparr>)" if "B x \<subseteq> B (w_env w)" for x
      using opened_books [OF P'(1), of r x] P'(1,3) that by (auto simp: stopped_def in_books_def)
    show ?thesis
    proof (cases "ok \<and> nm \<noteq> None")
      case False
      have "B e \<subseteq> B (w_env w)" if "\<not> ok" using e that by simp
      moreover have "B (close_handle S Tun e1) \<subseteq> B (w_env w)" using c e1 e by (auto split: if_splits)
      ultimately show ?thesis using run o n False \<open>mode_count FF_L3 (rt_options r) \<noteq> 0\<close> failed
        by (cases ok) (auto simp: make_tun_def ff_tun_def s)
    next
      case True
      then obtain name where nm: "nm = Some name" by blast
      obtain idx e2 where 2: "if_nametoindex H (take 15 name) e1 = (idx, e2)" by fastforce
      have e2: "B e2 \<subseteq> B e1" by (rule neutralD [OF host_booksD(2) [OF H] 2])
      let ?r = "r\<lparr>rt_tun := True, rt_tun_name := take 15 name, rt_l3 := idx\<rparr>"
      have "in_books B base (?r, w\<lparr>w_env := e2\<rparr>)"
      proof (rule opened_books [OF P'(1)])
        show "ours r \<subseteq> ours ?r" by (auto simp: ours_def handles_def)
        have "Open Tun \<in> ours ?r" by (simp add: ours_def handles_def)
        then show "B e2 \<subseteq> B (w_env w) \<union> ours ?r" using e e1 e2 True by auto
        show "slots_ok ?r" using P'(1) by (simp add: in_books_def slots_ok_def arrays_ok_def)
      qed
      moreover have "unused 8 ?r" "ready ?r" using P'(3,4) by (simp_all add: unused_def ready_def)
      ultimately show ?thesis using run o n nm 2 True \<open>mode_count FF_L3 (rt_options r) \<noteq> 0\<close>
        by (auto simp: make_tun_def ff_tun_def s prepared_def)
    qed
  qed
qed

lemma attach_builder_tended:
  assumes H: "host_books B H" and run: "attach_builder H idx (r, w) = (err, r', w')"
  shows "tended B (r, w) (r', w')"
proof -
  obtain err1 r1 w1 where a: "attach_one H idx BPF_TC_EGRESS ''ff_drop'' 2 (r, w) = (err1, r1, w1)" by (metis prod_cases3)
  obtain err2 r2 w2 where b: "attach_one H idx BPF_TC_EGRESS ''ff_builder'' 1 (r1, w1) = (err2, r2, w2)" by (metis prod_cases3)
  note 1 = attach_one_tended(1) [OF H a]
  note 2 = tended_trans [OF 1 attach_one_tended(1) [OF H b]]
  from run a b 1 2 show ?thesis by (cases err1) (auto simp: attach_builder_def)
qed

lemma no_ipv6_tended: "sys_books B S \<Longrightarrow> no_ipv6 S name (r, w) = (err, r', w') \<Longrightarrow> tended B (r, w) (r', w')"
  using tended_env [of B "snd (disable_ipv6 S name (w_env w))" w r w] neutral_snd [OF sys_booksD(8), of B S name "w_env w"]
  by (auto simp: no_ipv6_def split: prod.splits)

lemma private_device_tended:
  assumes H: "host_books B H" and S: "sys_books B S" and run: "private_device H S idx name (r, w) = (err, r', w')"
  shows "tended B (r, w) (r', w')"
  by (rule run_steps_tended [OF _ run [unfolded private_device_def]])
    (auto simp: sets_link_def intro: attach_builder_tended [OF H] no_ipv6_tended [OF S] command_tended [OF S])

lemma private_devices_tended:
  assumes H: "host_books B H" and S: "sys_books B S" and run: "private_devices H S (r, w) = (err, r', w')"
  shows "tended B (r, w) (r', w')"
proof -
  obtain err1 r1 w1 where a: "private_device H S (rt_l2 r) (rt_dummy r) (r, w) = (err1, r1, w1)" by (metis prod_cases3)
  obtain err2 r2 w2 where b: "private_device H S (rt_l3 r1) (rt_tun_name r1) (r1, w1) = (err2, r2, w2)" by (metis prod_cases3)
  note 1 = private_device_tended [OF H S a]
  note 2 = tended_trans [OF 1 private_device_tended [OF H S b]]
  from run a b 1 2 show ?thesis by (auto simp: private_devices_def split: if_splits)
qed

lemma route_socket_spec:
  assumes S: "sys_books B S"
  shows "step_spec (prepared B base 9) (route_socket S) (prepared B base 10) (stopped B base)"
proof (rule step_specI)
  fix s err s' assume P: "prepared B base 9 s" and run: "route_socket S s = (err, s')"
  obtain r w where s: "s = (r, w)" by fastforce
  have P': "in_books B base (r, w)" "ready r" "unused 10 r" using P by (auto simp: prepared_def unused_def s)
  obtain ok e where o: "netlink_socket S (w_env w) = (ok, e)" by fastforce
  have e: "B e \<subseteq> B (w_env w) \<union> (if ok then {Open Route} else {})" by (rule acquiresD [OF sys_booksD(15) [OF S] o])
  obtain ok2 e1 where n: "netlink_bind S e = (ok2, e1)" by fastforce
  have e1: "B e1 \<subseteq> B e" by (rule neutralD [OF sys_booksD(9) [OF S] n])
  have c: "B (close_handle S Route e1) \<subseteq> B e1 - {Open Route}" by (rule releasesD [OF sys_booksD(16) [OF S]])
  have failed: "stopped B base (r, w\<lparr>w_env := x\<rparr>)" if "B x \<subseteq> B (w_env w)" for x
    using opened_books [OF P'(1), of r x] P'(1,2) that by (auto simp: stopped_def in_books_def)
  let ?r = "r\<lparr>rt_route := True\<rparr>"
  show "if err then stopped B base s' else prepared B base 10 s'"
  proof (cases "ok \<and> ok2")
    case False
    have "B e \<subseteq> B (w_env w)" if "\<not> ok" using e that by simp
    moreover have "B (close_handle S Route e1) \<subseteq> B (w_env w)" using c e1 e by (auto split: if_splits)
    ultimately show ?thesis using run o n False failed by (cases ok) (auto simp: route_socket_def s)
  next
    case True
    have "in_books B base (?r, w\<lparr>w_env := e1\<rparr>)"
    proof (rule opened_books [OF P'(1)])
      show "ours r \<subseteq> ours ?r" by (auto simp: ours_def handles_def)
      have "Open Route \<in> ours ?r" by (simp add: ours_def handles_def)
      then show "B e1 \<subseteq> B (w_env w) \<union> ours ?r" using e e1 True by auto
      show "slots_ok ?r" using P'(1) by (simp add: in_books_def slots_ok_def arrays_ok_def)
    qed
    moreover have "unused 10 ?r" "ready ?r" using P'(2,3) by (simp_all add: unused_def ready_def)
    ultimately show ?thesis using run o n True by (auto simp: route_socket_def s prepared_def)
  qed
qed

lemma prepare_spec:
  assumes H: "host_books B H" and S: "sys_books B S" and P: "past_books B P"
  shows "step_spec (prepared B base 0) (prepare H S P object dir) (prepared B base 10) (stopped B base)"
proof -
  have seed: "step_spec (prepared B base 4) (seed_sequence S) (prepared B base 5) (stopped B base)"
    by (rule tended_spec) (auto intro: seed_sequence_tended [OF S])
  have off: "step_spec (prepared B base 5) (set_lease H False) (prepared B base 6) (stopped B base)"
    by (rule tended_spec) (auto intro: set_lease_tended [OF H])
  have devices: "step_spec (prepared B base 8) (private_devices H S) (prepared B base 9) (stopped B base)"
    by (rule tended_spec) (auto intro: private_devices_tended [OF H S])
  show ?thesis unfolding prepare_def
    by (rule run_steps_cons_spec [OF lock_dir_spec [OF S]] run_steps_cons_spec [OF clear_stale_spec [OF H P]]
        run_steps_cons_spec [OF preflight_spec [OF H]] run_steps_cons_spec [OF load_programs_spec [OF S]]
        run_steps_cons_spec [OF seed] run_steps_cons_spec [OF off]
        run_steps_cons_spec [OF make_dummy_spec [OF H S]] run_steps_cons_spec [OF make_tun_spec [OF H S]]
        run_steps_cons_spec [OF devices] run_steps_cons_spec [OF route_socket_spec [OF S]] run_steps_nil_spec)+
qed

text \<open>The start opens one more handle, the control socket; whether or not it succeeds the books are right.\<close>

lemma control_socket_books:
  assumes H: "host_books B H" and run: "control_socket H dir (r, w) = (err, r', w')"
    and books: "in_books B base (r, w)" and off: "\<not> rt_server r" and ready: "ready r"
  shows "in_books B base (r', w') \<and> ready r'"
proof -
  let ?path = "dir @ ''/control.sock''"
  obtain ok e where u: "unix_socket H (w_env w) = (ok, e)" by fastforce
  have e: "B e \<subseteq> B (w_env w) \<union> (if ok then {Open Server} else {})" by (rule acquiresD [OF host_booksD(16) [OF H] u])
  obtain ok2 e2 where l: "unix_listen H ?path e = (ok2, e2)" by fastforce
  have e2: "B e2 \<subseteq> B e" by (rule neutralD [OF host_booksD(7) [OF H] l])
  let ?r = "r\<lparr>rt_server := ok, rt_socket := ?path\<rparr>"
  have "in_books B base (?r, w\<lparr>w_env := x\<rparr>)" if "B x \<subseteq> B e" for x
  proof (rule opened_books [OF books])
    show "ours r \<subseteq> ours ?r" using off by (auto simp: ours_def handles_def)
    have "ok \<longrightarrow> Open Server \<in> ours ?r" by (simp add: ours_def handles_def)
    then show "B x \<subseteq> B (w_env w) \<union> ours ?r" using e that by (auto split: if_splits)
    show "slots_ok ?r" using books by (simp add: in_books_def slots_ok_def arrays_ok_def)
  qed
  from this [of e] this [OF e2] books ready run u l show ?thesis
    by (auto simp: control_socket_def Let_def ready_def split: if_splits)
qed

lemma bring_up_books:
  assumes H: "host_books B H" and run: "bring_up H G dir (r, w, rs) = Some (err, r', w', rs')"
    and books: "in_books B base (r, w)" and off: "\<not> rt_server r" and ready: "ready r"
  shows "in_books B base (r', w') \<and> ready r'"
proof -
  obtain e1 r1 w1 where rf: "refresh H True (r, w) = (e1, r1, w1)" by (metis prod_cases3)
  have t1: "tended B (r, w) (r1, w1)" by (rule refresh_tended [OF H rf])
  have keep: "in_books B base (r2, w2) \<and> ready r2 \<and> \<not> rt_server r2" if "tended B (r, w) (r2, w2)" for r2 w2
  proof -
    have "in_books B base (r2, w2)" "same_fixtures r r2" using that books by (simp_all add: tended_def)
    then show ?thesis using ready off ready_fixtures by (metis same_fixtures_def handles_iff(3))
  qed
  show ?thesis
  proof (cases e1)
    case True
    with run rf keep [OF t1] show ?thesis by (simp add: bring_up_def)
  next
    case False
    from run rf False obtain e2 r2 w2 rs2 where p: "publish H G (rt_options r1) (r1, w1, rs) = Some (e2, r2, w2, rs2)"
      by (auto simp: bring_up_def split: Option.bind_splits)
    note k2 = keep [OF tended_trans [OF t1 publish_tended [OF p refl]]]
    show ?thesis
    proof (cases e2)
      case True
      with run rf False p k2 show ?thesis by (simp add: bring_up_def)
    next
      case ok: False
      obtain e3 r3 w3 where so: "control_socket H dir (r2, w2) = (e3, r3, w3)" by (metis prod_cases3)
      note k3 = control_socket_books [OF H so, of base] k2
      obtain e4 w4 where le: "lease H r3 True w3 = (e4, w4)" by fastforce
      have "in_books B base (r3, w4)" using k3 lease_tended [OF H le] by (simp add: tended_def)
      with run rf False p ok so le k3 show ?thesis by (cases e3) (auto simp: bring_up_def)
    qed
  qed
qed

section \<open>The way out gives everything back\<close>

lemma release_books:
  assumes H: "host_books B H" and S: "sys_books B S"
  shows "B (release H S r e) \<subseteq> B e - ours r"
proof -
  define e1 where "e1 = destroy_links H (zip (rt_index r) (rt_ingress r)) e"
  define e2 where "e2 = fold (ff_detach H) (rev (rt_attached r)) e1"
  define e3 where "e3 = (if rt_tun r then close_handle S Tun e2 else e2)"
  define e4 where "e4 = (if rt_dummy r \<noteq> [] then snd (ff_command S (delete_link (rt_dummy r)) e3) else e3)"
  define e5 where "e5 = (if rt_server r then unlink_file S (rt_socket r) (close_handle S Server e4) else e4)"
  define e6 where "e6 = (if rt_route r then close_handle S Route e5 else e5)"
  define e7 where "e7 = (if rt_object r then close_handle S Object e6 else e6)"
  define e8 where "e8 = (if rt_lock r then close_handle S Lock (if rt_attached r \<noteq> [] then unlink_file S (rt_state r) e7 else e7) else e7)"
  have run: "release H S r e = e8"
    by (simp add: release_def Let_def e1_def e2_def e3_def e4_def e5_def e6_def e7_def e8_def delete_link_def)
  have close: "B (close_handle S h x) \<subseteq> B x - {Open h}" "B (unlink_file S p x) \<subseteq> B x" for h p x
    using releasesD [OF sys_booksD(16) [OF S], of h x] releasesD [OF sys_booksD(10) [OF S], of p x] by auto
  have 1: "B e1 \<subseteq> B e - link_set (rt_index r) (rt_ingress r)"
    unfolding e1_def link_set_def by (rule releasesD [OF destroy_links_books [OF H]])
  have 2: "B e2 \<subseteq> B e1 - filter_of ` set (rt_attached r)"
    using releasesD [OF detach_all_books [OF H], of "rev (rt_attached r)" e1] by (simp add: e2_def)
  have 3: "B e3 \<subseteq> B e2 - (if rt_tun r then {Open Tun} else {})" using close(1) [of Tun e2] by (simp add: e3_def)
  have 4: "B e4 \<subseteq> B e3 - (if rt_dummy r = [] then {} else {Device (rt_dummy r)})"
  proof (cases "rt_dummy r = []")
    case False
    obtain st x where c: "run_command S (delete_link (rt_dummy r)) e3 = (st, x)" by fastforce
    from releasesD [OF sys_booksD(19) [OF S], of "rt_dummy r" e3] False c show ?thesis
      by (simp add: e4_def ff_command_def)
  qed (simp add: e4_def)
  have 5: "B e5 \<subseteq> B e4 - (if rt_server r then {Open Server} else {})"
    using close(1) [of Server e4] close(2) [of "rt_socket r" "close_handle S Server e4"] by (auto simp: e5_def)
  have 6: "B e6 \<subseteq> B e5 - (if rt_route r then {Open Route} else {})" using close(1) [of Route e5] by (simp add: e6_def)
  have 7: "B e7 \<subseteq> B e6 - (if rt_object r then {Open Object} else {})" using close(1) [of Object e6] by (simp add: e7_def)
  have 8: "B e8 \<subseteq> B e7 - (if rt_lock r then {Open Lock} else {})"
    using close(1) [of Lock e7] close(1) [of Lock "unlink_file S (rt_state r) e7"] close(2) [of "rt_state r" e7]
    by (auto simp: e8_def split: if_splits)
  have o: "ours r = filter_of ` set (rt_attached r) \<union> link_set (rt_index r) (rt_ingress r) \<union>
      (if rt_dummy r = [] then {} else {Device (rt_dummy r)}) \<union> (if rt_tun r then {Open Tun} else {}) \<union>
      (if rt_server r then {Open Server} else {}) \<union> (if rt_route r then {Open Route} else {}) \<union>
      (if rt_object r then {Open Object} else {}) \<union> (if rt_lock r then {Open Lock} else {})"
    unfolding ours_def handles_def by auto
  show ?thesis unfolding run o using 1 2 3 4 5 6 7 8 by blast
qed

text \<open>
  The lease map is an array: writing its entry does not fail. While the daemon waits, packets may cross,
  but no program writes a lease that is over.
\<close>

definition lease_writes :: "'e host \<Rightarrow> bool" where
  "lease_writes H \<longleftrightarrow> (\<forall>k v m. snd (lease_update H k v m) = m(k \<mapsto> v))"

definition nap_inert :: "'e sys \<Rightarrow> bool" where
  "nap_inert S \<longleftrightarrow> (\<forall>w. inert w \<longrightarrow> inert (nap S w))"

lemma drain_loop_books:
  assumes H: "host_books B H" and S: "sys_books B S" and N: "nap_inert S" and run: "drain_loop H S deadline idle w = Some w'"
  shows "B (w_env w') \<subseteq> B (w_env w) \<and> (inert w \<longrightarrow> inert w')"
proof (rule drain_loop.raw_induct [of "\<lambda>H S deadline idle w w'. host_books B H \<longrightarrow> sys_books B S \<longrightarrow> nap_inert S \<longrightarrow>
    B (w_env w') \<subseteq> B (w_env w) \<and> (inert w \<longrightarrow> inert w')", OF _ run, THEN mp, THEN mp, THEN mp])
  fix loop :: "'a host \<Rightarrow> 'a sys \<Rightarrow> u64 \<Rightarrow> nat \<Rightarrow> 'a world \<Rightarrow> 'a world option" and H S deadline idle w w'
  assume step: "\<And>H S deadline idle w w'. loop H S deadline idle w = Some w' \<Longrightarrow> host_books B H \<longrightarrow> sys_books B S \<longrightarrow> nap_inert S \<longrightarrow>
      B (w_env w') \<subseteq> B (w_env w) \<and> (inert w \<longrightarrow> inert w')"
    and run: "(case monotime H (w_env w) of (now, e) \<Rightarrow> let w = w\<lparr>w_env := e\<rparr> in
      if deadline \<le> now \<or> 2 \<le> idle then Some w
      else loop H S deadline (if no_requests S (m_requests w) then idle + 1 else 0) (nap S w)) = Some w'"
  show "host_books B H \<longrightarrow> sys_books B S \<longrightarrow> nap_inert S \<longrightarrow> B (w_env w') \<subseteq> B (w_env w) \<and> (inert w \<longrightarrow> inert w')"
  proof (intro impI)
    assume H: "host_books B H" and S: "sys_books B S" and N: "nap_inert S"
    obtain now e where m: "monotime H (w_env w) = (now, e)" by fastforce
    let ?w = "w\<lparr>w_env := e\<rparr>"
    have e: "B e \<subseteq> B (w_env w)" by (rule neutralD [OF host_booksD(1) [OF H] m])
    have i: "inert ?w = inert w" by (simp add: inert_def)
    show "B (w_env w') \<subseteq> B (w_env w) \<and> (inert w \<longrightarrow> inert w')"
    proof (cases "deadline \<le> now \<or> 2 \<le> idle")
      case True
      with run m e i show ?thesis by auto
    next
      case False
      with run m have "loop H S deadline (if no_requests S (m_requests ?w) then idle + 1 else 0) (nap S ?w) = Some w'" by simp
      from step [OF this] H S N have "B (w_env w') \<subseteq> B (w_env (nap S ?w))" "inert (nap S ?w) \<longrightarrow> inert w'" by blast+
      moreover have "B (w_env (nap S ?w)) \<subseteq> B e" using sys_booksD(11) [OF S, of ?w] by simp
      moreover have "inert w \<longrightarrow> inert (nap S ?w)" using N i by (simp add: nap_inert_def)
      ultimately show ?thesis using e by blast
    qed
  qed
qed (rule H S N)+

lemma lease_off_inert:
  assumes "lease_writes H"
  shows "inert (snd (lease H r False w))"
proof -
  have "m_leases (snd (lease H r False w)) 0 = Some \<lparr>le_until = 0, le_reported = 1, le_pad = 0\<rparr>"
    using assms by (simp add: lease_def lease_writes_def split: prod.split) (metis fun_upd_same snd_conv)
  then show ?thesis by (simp add: inert_def)
qed

lemma way_out_books:
  assumes H: "host_books B H" and S: "sys_books B S" and L: "lease_writes H" and N: "nap_inert S"
    and stop: "stopped B base (r, w)" and run: "way_out H S r w = Some w'"
  shows "B (w_env w') \<subseteq> base \<and> inert w'"
proof -
  obtain w1 where sw: "switch_off H S r w = Some w1" and w': "w' = w1\<lparr>w_env := release H S r (w_env w1)\<rparr>"
    using run by (auto simp: way_out_def)
  have "B (w_env w1) \<subseteq> B (w_env w) \<and> inert w1"
  proof (cases "ready r")
    case False
    with sw stop show ?thesis by (auto simp: switch_off_def ready_def stopped_def)
  next
    case True
    let ?w = "snd (lease H r False w)"
    have lw: "B (w_env ?w) \<subseteq> B (w_env w)" by (auto simp: lease_def Let_def split: prod.split)
    obtain now e where m: "monotime H (w_env ?w) = (now, e)" by fastforce
    have e: "B e \<subseteq> B (w_env ?w)" by (rule neutralD [OF host_booksD(1) [OF H] m])
    have "drain_loop H S (now + 2 * FF_NS) 0 (?w\<lparr>w_env := e\<rparr>) = Some w1"
      using sw True m by (simp add: switch_off_def ready_def drain_requests_def)
    from drain_loop_books [OF H S N this] lw e lease_off_inert [OF L, of r w] show ?thesis by (auto simp: inert_def)
  qed
  moreover have "B (w_env w) \<subseteq> base \<union> ours r" using stop by (simp add: stopped_def in_books_def)
  ultimately show ?thesis using release_books [OF H S, of r "w_env w1"] by (auto simp: w' inert_def)
qed

lemma ff_serve_books:
  assumes H: "host_books B H" and S: "sys_books B S" and P: "past_books B P" and I: "list_all (input_books B) inputs"
    and start: "prepared B base 0 (r, w)" and run: "ff_serve H S P G path object dir inputs (r, w, rs) = Some (rc, r', w', rs')"
  shows "stopped B base (r', w')"
proof -
  obtain err r1 w1 where p: "prepare H S P object dir (r, w) = (err, r1, w1)" by (metis prod_cases3)
  note one = step_specD [OF prepare_spec [OF H S P] start p]
  show ?thesis
  proof (cases err)
    case True
    with run p one show ?thesis by (simp add: ff_serve_def)
  next
    case False
    then have k1: "in_books B base (r1, w1)" "\<not> rt_server r1" "ready r1" using one by (auto simp: prepared_def unused_def)
    from run p False obtain e2 r2 w2 rs2 where up: "bring_up H G dir (r1, w1, rs) = Some (e2, r2, w2, rs2)"
      and rest: "if e2 then (rc, r', w', rs') = (Some 1, r2, w2, rs2) else ff_loop H G inputs (new_loop path, r2, w2, rs2) = Some (rc, r', w', rs')"
      by (auto simp: ff_serve_def split: Option.bind_splits if_splits)
    note k2 = bring_up_books [OF H up k1]
    show ?thesis
    proof (cases e2)
      case True
      with rest k2 show ?thesis by (simp add: stopped_def)
    next
      case False
      with rest have "ff_loop H G inputs (new_loop path, r2, w2, rs2) = Some (rc, r', w', rs')" by simp
      note t = ff_loop_tended [OF H this I]
      have "in_books B base (r', w')" "same_fixtures r2 r'" using t k2 by (simp_all add: tended_def)
      then show ?thesis using k2 ready_fixtures by (auto simp: stopped_def)
    qed
  qed
qed

section \<open>The property\<close>

lemma new_runtime_prepared:
  assumes "length (o_devices op) \<le> 8" and "inert w" and "B (w_env w) \<subseteq> base"
  shows "prepared B base 0 (new_runtime op dir, w)"
  using assms by (simp add: prepared_def in_books_def slots_ok_def arrays_ok_def unused_def new_runtime_def
      ours_def link_set_nth le_supI1)

lemma inert_dead: "inert w \<Longrightarrow> \<not> fst (alive now w)"
  by (auto simp: inert_def alive_def split: option.splits)

text \<open>A run is refused before it has taken anything, or it serves and takes the way out.\<close>

lemma ff_run_cases:
  assumes "ff_run H S P G files path object dir inputs (w, rs) = Some (Some rc, w', rs')"
  obtains (refused) "w' = w \<or> w' = w\<lparr>w_env := snd (runtime_dir S dir (w_env w))\<rparr>"
    | (served) op rs1 r1 w1 where "ff_config_read G files path rs = (Inr op, rs1)"
        "ff_serve H S P G path object dir inputs
          (new_runtime op dir, w\<lparr>w_env := snd (runtime_dir S dir (w_env w))\<rparr>, rs1) = Some (Some rc, r1, w1, rs')"
        "way_out H S r1 w1 = Some w'"
proof -
  obtain out rs1 where rd: "ff_config_read G files path rs = (out, rs1)" by fastforce
  obtain err e where dr: "runtime_dir S dir (w_env w) = (err, e)" by fastforce
  show ?thesis
  proof (cases "1024 \<le> length path \<or> \<not> is_root S")
    case True
    with assms show ?thesis by (intro refused) (simp add: ff_run_def)
  next
    case go: False
    show ?thesis
    proof (cases out)
      case (Inl x)
      with assms go rd show ?thesis by (intro refused) (simp add: ff_run_def)
    next
      case (Inr op)
      show ?thesis
      proof (cases "mixed_paths op \<or> err")
        case True
        with assms go rd dr Inr show ?thesis by (intro refused) (cases "mixed_paths op"; simp add: ff_run_def)
      next
        case False
        with assms go rd dr Inr obtain rc1 r1 w1 rs2
          where sv: "ff_serve H S P G path object dir inputs (new_runtime op dir, w\<lparr>w_env := e\<rparr>, rs1) = Some (rc1, r1, w1, rs2)"
            and rest: "(case rc1 of None \<Rightarrow> Some (None, w1, rs2)
              | Some c \<Rightarrow> map_option (\<lambda>w. (Some c, w, rs2)) (way_out H S r1 w1)) = Some (Some rc, w', rs')"
          by (auto simp: ff_run_def split: Option.bind_splits)
        from rest have "rc1 = Some rc" "rs2 = rs'" "way_out H S r1 w1 = Some w'" by (auto split: option.splits)
        with sv rd dr Inr show ?thesis by (intro served) auto
      qed
    qed
  qed
qed

lemma run_accounts:
  assumes H: "host_books B H" "lease_writes H" and S: "sys_books B S" "nap_inert S" and P: "past_books B P"
    and I: "list_all (input_books B) inputs" and w: "inert w"
    and run: "ff_run H S P G files path object dir inputs (w, rs) = Some (Some rc, w', rs')"
  shows "B (w_env w') \<subseteq> B (w_env w) \<and> inert w'"
proof -
  let ?w = "w\<lparr>w_env := snd (runtime_dir S dir (w_env w))\<rparr>"
  obtain x e1 where 1: "make_dir S dir (w_env w) = (x, e1)" by fastforce
  obtain y e2 where 2: "private_dir S dir e1 = (y, e2)" by fastforce
  have "B e1 \<subseteq> B (w_env w)" "B e2 \<subseteq> B e1"
    using neutralD [OF sys_booksD(1) [OF S(1)] 1] neutralD [OF sys_booksD(2) [OF S(1)] 2] by auto
  then have e: "B (w_env ?w) \<subseteq> B (w_env w)" by (auto simp: runtime_dir_def 1 2)
  have i: "inert ?w" using w by (simp add: inert_def)
  show ?thesis using run
  proof (cases rule: ff_run_cases)
    case refused
    with e i w show ?thesis by auto
  next
    case (served op rs1 r1 w1)
    from ff_config_read_accepted(1) [OF served(1)] have dev: "length (o_devices op) \<le> 8" by (rule accepted_devices)
    have "prepared B (B (w_env w)) 0 (new_runtime op dir, ?w)" by (rule new_runtime_prepared [where B = B, OF dev i e])
    from ff_serve_books [OF H(1) S(1) P I this served(2)] have "stopped B (B (w_env w)) (r1, w1)" .
    from way_out_books [OF H(1) S(1) H(2) S(2) this served(3)] show ?thesis .
  qed
qed

text \<open>Between two turns nothing is taken for the process, and nothing is reported to it.\<close>

definition input_accounts :: "('e \<Rightarrow> resource set) \<Rightarrow> ('e \<Rightarrow> resource set) \<Rightarrow> 'e input \<Rightarrow> bool" where
  "input_accounts B F i \<longleftrightarrow> (\<forall>w. entered B F (w_env w) nothing (w_env (in_meanwhile i w)))"

lemma input_accounts_books: "list_all (input_accounts B F) is \<Longrightarrow> list_all (input_books (unreported B F)) is"
  by (auto simp: input_accounts_def input_books_def list_all_iff dest: entered_nothing)

text \<open>
  Property C3. Whatever step of \<open>ff_run\<close> fails, and however long its loop has run, when it returns every
  filter, link, device, socket and lock that is held was held before the run, or the last call that
  reported on it reported a failure (\<open>F\<close>): the filter could not be attached, looked up or detached, or the \<open>ip\<close>
  that should have added or deleted the device did not exit with 0. So a run in which no call fails on its last report
  leaves nothing behind, and whatever an early exit has taken is given back like the rest. And the lease is over, so
  programs that are still loaded stay silent. The qdisc that \<open>ff_detach\<close> keeps on purpose and the files in the
  runtime directory are not among the resources.
\<close>
theorem run_gives_back:
  assumes H: "host_accounts B F H" "lease_writes H" and S: "sys_accounts B F S" "nap_inert S" and P: "past_accounts B F P"
    and I: "list_all (input_accounts B F) inputs" and w: "inert w"
    and run: "ff_run H S P G files path object dir inputs (w, rs) = Some (Some rc, w', rs')"
  shows "B (w_env w') \<subseteq> B (w_env w) \<union> F (w_env w') \<and> \<not> fst (alive now w')"
  using run_accounts [OF host_accounts_books [OF H(1)] H(2) sys_accounts_books [OF S(1)] S(2) past_accounts_books [OF P]
      input_accounts_books [OF I] w run] inert_dead
  by (auto simp: unreported_def)

section \<open>Witness\<close>

text \<open>
  A system that keeps a ledger: what is held, what failed, and a clock. Its devices cannot be deleted, and the
  route socket cannot be opened, so the run fails after the lock, the programs, the dummy device and its two filters.
\<close>

type_synonym ledger = "(resource set \<times> resource set) \<times> u64"

definition book :: "entry \<Rightarrow> ledger \<Rightarrow> ledger" where
  "book x e = (((fst (fst e) \<union> en_added x) - en_gone x, (snd (fst e) - (en_added x \<union> en_gone x)) \<union> en_failed x), snd e)"

definition booked :: "(ledger \<Rightarrow> 'x) \<Rightarrow> ('x \<Rightarrow> entry) \<Rightarrow> ledger \<Rightarrow> 'x \<times> ledger" where
  "booked res X e = (res e, book (X (res e)) e)"

definition ledger_books :: "ledger \<Rightarrow> resource set" where
  "ledger_books e = fst (fst e)"

definition ledger_log :: "ledger \<Rightarrow> resource set" where
  "ledger_log e = snd (fst e)"

definition ledger_host :: "ledger host" where
  "ledger_host = \<lparr>monotime = (\<lambda>e. (snd e, fst e, snd e + 1)), if_nametoindex = (\<lambda>n e. (3, e)), hwaddr_type = (\<lambda>n e. (Some 1, e)),
     if_mtu = (\<lambda>n e. (Some 1500, e)), ioctl_socket = (\<lambda>e. (True, e)), tc_filter_show = (\<lambda>n d e. (Some ([], True), e)),
     tc_hook_create = (\<lambda>i p e. (0, e)), tc_attach = (\<lambda>i p n pr h. booked (\<lambda>e. Some 7) (attach_entry i p pr h)),
     tc_query = (\<lambda>i p pr h. booked (\<lambda>e. if Filter i p pr h 7 \<in> fst (fst e) then Some 7 else None) (query_entry i p pr h)),
     tc_detach = (\<lambda>i p pr h. booked (\<lambda>e. False) (detach_entry i p pr h)),
     attach_tcx = (\<lambda>i. booked (\<lambda>e. True) (opens (Link i))), link_destroy = (\<lambda>i. book (closes (Link i))),
     unix_socket = booked (\<lambda>e. True) (opens (Open Server)), unix_listen = (\<lambda>p e. (True, e)),
     write_state = (\<lambda>ls e. (False, e)), config_keys = (\<lambda>m. sorted_list_of_set (dom m)),
     template_insert = bounded_insert 448, config_insert = bounded_insert 16,
     active_update = (\<lambda>k v m. (False, m(k \<mapsto> v))), lease_update = (\<lambda>k v m. (False, m(k \<mapsto> v))),
     interface_update = (\<lambda>k v m. (False, m(k \<mapsto> v)))\<rparr>"

definition ledger_command :: "string list \<Rightarrow> ledger \<Rightarrow> wait_status \<times> ledger" where
  "ledger_command args =
     (if args = add_dummy (args ! 3) then booked (\<lambda>e. Exited 0) (add_entry (args ! 3))
      else if args = delete_link (args ! 4) then booked (\<lambda>e. Exited 2) (delete_entry (args ! 4))
      else (\<lambda>e. (Exited 0, e)))"

definition ledger_sys :: "ledger sys" where
  "ledger_sys = \<lparr>pid = 1, is_root = True, make_dir = (\<lambda>d e. (False, e)), private_dir = (\<lambda>d e. (True, e)),
     open_lock = (\<lambda>p. booked (\<lambda>e. True) (opens (Open Lock))), take_lock = (\<lambda>e. (True, e)), raise_memlock = (\<lambda>e. e),
     open_object = (\<lambda>p. booked (\<lambda>e. True) (opens (Open Object))), load_object = (\<lambda>t u e. (True, e)),
     random_seed = (\<lambda>e. (Some 5, e)), sequence_update = (\<lambda>k v m. (False, m(k \<mapsto> v))),
     run_command = ledger_command, open_tun = booked (\<lambda>e. True) (opens (Open Tun)), name_tun = (\<lambda>n e. (Some n, e)),
     disable_ipv6 = (\<lambda>n e. (Written, e)), netlink_socket = (\<lambda>e. (False, e)), netlink_bind = (\<lambda>e. (True, e)),
     close_handle = (\<lambda>h. book (closes (Open h))), unlink_file = (\<lambda>p e. e), no_requests = (\<lambda>m. True), nap = (\<lambda>w. w)\<rparr>"

definition ledger_past :: "ledger past" where
  "ledger_past = \<lparr>state_file = (\<lambda>e. (None, e)), ifalias = (\<lambda>n e. (None, e)), delete_device = (\<lambda>n e. e)\<rparr>"

lemma booked_accounts: "accounts ledger_books ledger_log (booked res X) X"
  by (simp add: accounts_def booked_def entered_def book_def ledger_books_def ledger_log_def)

lemma book_effect: "effect ledger_books ledger_log (book x) x" "effect ledger_books ledger_log (\<lambda>e. e) nothing"
  by (simp_all add: effect_def entered_def book_def ledger_books_def ledger_log_def)

lemma quiet_ledger: "quiet ledger_books ledger_log (\<lambda>e. (res e, e))" "quiet ledger_books ledger_log (\<lambda>e. (res e, fst e, clock e))"
  by (simp_all add: quiet_def accounts_def entered_def ledger_books_def ledger_log_def)

lemma refused_accounts: "accounts ledger_books ledger_log (\<lambda>e. (False, e)) (opens x)"
  by (simp add: accounts_def entered_def)

lemma ledger_host_accounts: "host_accounts ledger_books ledger_log ledger_host"
  unfolding host_accounts_def ledger_host_def host.simps
  by (intro conjI allI booked_accounts book_effect quiet_ledger)

lemma ledger_commands:
  "sets_link args \<Longrightarrow> quiet ledger_books ledger_log (ledger_command args)"
  "accounts ledger_books ledger_log (ledger_command (add_dummy n)) (add_entry n)"
  "accounts ledger_books ledger_log (ledger_command (delete_link n)) (delete_entry n)"
proof -
  assume "sets_link args"
  then have "args \<noteq> add_dummy m" "args \<noteq> delete_link m" for m by (auto simp: sets_link_def add_dummy_def delete_link_def)
  then have "ledger_command args = (\<lambda>e. (Exited 0, e))" by (simp add: ledger_command_def)
  then show "quiet ledger_books ledger_log (ledger_command args)" by (simp add: quiet_ledger)
next
  show "accounts ledger_books ledger_log (ledger_command (add_dummy n)) (add_entry n)"
    using booked_accounts [of "\<lambda>e. Exited 0" "add_entry n"] by (simp add: ledger_command_def add_dummy_def)
  show "accounts ledger_books ledger_log (ledger_command (delete_link n)) (delete_entry n)"
    using booked_accounts [of "\<lambda>e. Exited 2" "delete_entry n"] by (simp add: ledger_command_def add_dummy_def delete_link_def)
qed

lemma ledger_sys_accounts: "sys_accounts ledger_books ledger_log ledger_sys"
  unfolding sys_accounts_def ledger_sys_def sys.simps
  by (intro conjI allI impI booked_accounts book_effect quiet_ledger refused_accounts ledger_commands) (simp_all add: entered_def)

lemma ledger_contracts: "lease_writes ledger_host" "nap_inert ledger_sys" "past_accounts ledger_books ledger_log ledger_past"
  unfolding past_accounts_def ledger_past_def past.simps
  by (simp_all add: lease_writes_def ledger_host_def nap_inert_def ledger_sys_def quiet_ledger book_effect)

lemmas ledger_defs = ledger_host_def ledger_sys_def ledger_past_def

definition ledger_world :: "ledger world" where
  "ledger_world = \<lparr>m_active_config = Map.empty, m_configs = Map.empty, m_leases = Map.empty,
     m_interfaces = Map.empty, m_templates = Map.empty, m_tcp_flows = Map.empty,
     m_udp_flows = Map.empty, m_flow_locks = Map.empty, m_requests = Map.empty,
     m_sequence = Map.empty, m_rotation = Map.empty, m_budgets = Map.empty,
     m_stats = Map.empty, w_env = (({}, {}), 1000)\<rparr>"

text \<open>The preparation gets as far as the route socket: five resources are held then.\<close>

lemma ledger_attach:
  "length (rt_attached r) < 4 \<Longrightarrow> attach_one ledger_host i p n pr (r, w) =
     (False, r\<lparr>rt_attached := rt_attached r @ [\<lparr>a_index = i, a_point = p, a_priority = pr, a_handle = 1, a_id = 7\<rparr>]\<rparr>,
      w\<lparr>w_env := book (attach_entry i p pr 1 (Some 7)) (w_env w)\<rparr>)"
  by (simp add: attach_one_def ff_attach_def save_state_def ledger_host_def FF_ATTACHED_MAX_def booked_def)

lemma ledger_set: "ledger_command (''ip'' # ''link'' # ''set'' # args) e = (Exited 0, e)"
  by (simp add: ledger_command_def add_dummy_def delete_link_def)

lemma ledger_add: "ledger_command [''ip'', ''link'', ''add'', n, ''type'', ''dummy''] e = (Exited 0, book (add_entry n (Exited 0)) e)"
  by (simp add: ledger_command_def add_dummy_def booked_def)

lemma ledger_private:
  "rt_attached r = [] \<Longrightarrow> \<exists>as w'. private_device ledger_host ledger_sys i n (r, w) = (False, r\<lparr>rt_attached := as\<rparr>, w')"
  by (auto simp: private_device_def attach_builder_def ledger_attach no_ipv6_def command_def ff_command_def ledger_sys_def
      ledger_set)

lemma ledger_check:
  "o_devices (rt_options r) = [\<lparr>d_name = n, d_mode = FF_ETHERNET\<rparr>] \<Longrightarrow> preflight ledger_host (r, w) = (False, r, w)"
  by (simp add: preflight_def ff_check_def ff_link_def ledger_host_def right_type_def ARPHRD_ETHER_def ff_priority_available_def)

lemma ledger_load:
  "load_programs ledger_sys ob (r, w) = (False, r\<lparr>rt_object := True, rt_loaded := True\<rparr>,
     w\<lparr>w_env := book (opens (Open Object) True) (w_env w)\<rparr>)"
  by (simp add: load_programs_def ledger_sys_def booked_def)

lemma ledger_dummy: "\<exists>r' w'. make_dummy ledger_host ledger_sys (r, w) = (False, r', w') \<and> rt_attached r' = rt_attached r \<and> rt_options r' = rt_options r"
  by (simp add: make_dummy_def ff_dummy_def ff_command_def ledger_sys_def ledger_add ledger_set Let_def ledger_host_def command_def
      save_def save_state_def)

lemma ledger_prepare:
  assumes "o_devices op = [\<lparr>d_name = ''wan'', d_mode = FF_ETHERNET\<rparr>]"
  shows "\<exists>r w'. prepare ledger_host ledger_sys ledger_past ob dir (new_runtime op dir, w) = (True, r, w')"
proof -
  have new: "rt_options (new_runtime op dir) = op" "rt_attached (new_runtime op dir) = []" by (simp_all add: new_runtime_def)
  have count: "mode_count FF_L3 op = 0" by (simp add: mode_count_def assms)
  obtain e1 where 1: "lock_dir ledger_sys dir (new_runtime op dir, w) = (False, (new_runtime op dir)\<lparr>rt_lock := True\<rparr>, w\<lparr>w_env := e1\<rparr>)"
    by (simp add: lock_dir_def ledger_sys_def booked_def)
  let ?r1 = "(new_runtime op dir)\<lparr>rt_lock := True\<rparr>"
  have 2: "clear_stale ledger_host ledger_past (r, w) = (False, r, w)" for r and w :: "ledger world"
    by (simp add: clear_stale_def stale_filters_def ledger_past_def)
  obtain w2 where 4: "load_programs ledger_sys ob (?r1, w\<lparr>w_env := e1\<rparr>) = (False, ?r1\<lparr>rt_object := True, rt_loaded := True\<rparr>, w2)"
    by (simp add: ledger_load)
  let ?r4 = "?r1\<lparr>rt_object := True, rt_loaded := True\<rparr>"
  obtain w5 where 5: "seed_sequence ledger_sys (?r4, w2) = (False, ?r4, w5)" by (simp add: seed_sequence_def ledger_sys_def)
  obtain w6 where 6: "set_lease ledger_host False (?r4, w5) = (False, ?r4, w6)"
    by (simp add: set_lease_def lease_def Let_def ledger_host_def)
  obtain r7 w7 where 7: "make_dummy ledger_host ledger_sys (?r4, w6) = (False, r7, w7)" "rt_attached r7 = []" "rt_options r7 = op"
    using ledger_dummy [of ?r4 w6] new by auto
  obtain as w9 where 9: "private_device ledger_host ledger_sys (rt_l2 r7) (rt_dummy r7) (r7, w7) = (False, r7\<lparr>rt_attached := as\<rparr>, w9)"
    using ledger_private [OF 7(2)] by blast
  have 8: "make_tun ledger_host ledger_sys (r7, w7) = (False, r7, w7)" by (simp add: make_tun_def 7 count)
  have "private_devices ledger_host ledger_sys (r7, w7) = (False, r7\<lparr>rt_attached := as\<rparr>, w9)"
    by (simp add: private_devices_def 9 7 count)
  moreover have "\<exists>w'. route_socket ledger_sys (r, w) = (True, r, w')" for r w by (simp add: route_socket_def ledger_sys_def)
  then obtain w' where "route_socket ledger_sys (r7\<lparr>rt_attached := as\<rparr>, w9) = (True, r7\<lparr>rt_attached := as\<rparr>, w')" by blast
  ultimately have "prepare ledger_host ledger_sys ledger_past ob dir (new_runtime op dir, w) = (True, r7\<lparr>rt_attached := as\<rparr>, w')"
    unfolding prepare_def using ledger_check [of ?r1 "''wan''" "w\<lparr>w_env := e1\<rparr>"] assms by (simp add: 1 2 4 5 6 7 8 new)
  then show ?thesis by blast
qed

lemma ledger_drain: "\<exists>w'. drain_requests ledger_host ledger_sys w = Some w'"
proof -
  have stop: "\<exists>w'. drain_loop ledger_host ledger_sys d (Suc (Suc 0)) w = Some w'" for d w
    by (subst drain_loop.simps) (simp add: ledger_defs Let_def)
  have one: "\<exists>w'. drain_loop ledger_host ledger_sys d (Suc 0) w = Some w'" for d w
    using stop by (subst drain_loop.simps) (simp add: ledger_defs Let_def)
  have "\<exists>w'. drain_loop ledger_host ledger_sys d 0 w = Some w'" for d w
    using one by (subst drain_loop.simps) (simp add: ledger_defs Let_def)
  then show ?thesis by (simp add: drain_requests_def split: prod.split)
qed

theorem run_gives_back_witness:
  "\<exists>w' rs'. ff_run ledger_host ledger_sys ledger_past counting_source org_files ''/c'' ''/o'' ''/run/ff'' [] (ledger_world, 0) =
     Some (Some 1, w', rs') \<and> ledger_books (w_env w') \<subseteq> ledger_books (w_env ledger_world) \<union> ledger_log (w_env w') \<and>
     \<not> fst (alive 1000 w')"
proof -
  obtain op rs1 where rd: "ff_config_read counting_source org_files ''/c'' 0 = (Inr op, rs1)" and sh: "sample_shape op"
    by (rule org_read)
  have dev: "o_devices op = [\<lparr>d_name = ''wan'', d_mode = FF_ETHERNET\<rparr>]" using sh by (simp add: sample_shape_def)
  obtain r w1 where p: "prepare ledger_host ledger_sys ledger_past ''/o'' ''/run/ff'' (new_runtime op ''/run/ff'', ledger_world) = (True, r, w1)"
    using ledger_prepare [OF dev] by blast
  have "\<exists>w'. way_out ledger_host ledger_sys r w1 = Some w'"
    using ledger_drain [of "snd (lease ledger_host r False w1)"] by (auto simp: way_out_def switch_off_def)
  then obtain w' where out: "way_out ledger_host ledger_sys r w1 = Some w'" by blast
  have mixed: "\<not> mixed_paths op" by (simp add: mixed_paths_def mode_count_def dev)
  have dir: "runtime_dir ledger_sys ''/run/ff'' e = (False, e)" for e by (simp add: runtime_dir_def ledger_sys_def)
  have root: "is_root ledger_sys" by (simp add: ledger_sys_def)
  have run: "ff_run ledger_host ledger_sys ledger_past counting_source org_files ''/c'' ''/o'' ''/run/ff'' [] (ledger_world, 0) =
      Some (Some 1, w', rs1)"
    by (simp add: ff_run_def rd mixed dir root ff_serve_def p out)
  have "inert ledger_world" by (simp add: inert_def ledger_world_def)
  from run_gives_back [OF ledger_host_accounts ledger_contracts(1) ledger_sys_accounts ledger_contracts(2,3) _ this run] run
  show ?thesis by auto
qed

end
