(* ===== verification/Returns.thy ===== *)
theory Returns
  imports Release
begin

text \<open>
  A run returns: where the clock advances the wait for requests ends, where the store is consistent
  publishing and reaping end, and the preparation and the turns of the loop keep it so.
\<close>

section \<open>A run returns\<close>

text \<open>The clock never goes back, and a nap lets it advance unless it is at its end.\<close>

definition advancing :: "('e \<Rightarrow> u64) \<Rightarrow> 'e host \<Rightarrow> 'e sys \<Rightarrow> bool" where
  "advancing c H S \<longleftrightarrow> (\<forall>e. fst (monotime H e) = c e \<and> c e \<le> c (snd (monotime H e))) \<and>
     (\<forall>w. c (w_env w) \<le> c (w_env (nap S w)) \<and> (c (w_env w) < - 1 \<longrightarrow> c (w_env w) < c (w_env (nap S w))))"

lemma drain_loop_returns:
  assumes c: "advancing c H S"
  shows "\<exists>w'. drain_loop H S deadline idle w = Some w'"
proof (induction "unat deadline - unat (c (w_env w))" arbitrary: idle w rule: less_induct)
  case less
  obtain now e where m: "monotime H (w_env w) = (now, e)" by fastforce
  let ?w = "w\<lparr>w_env := e\<rparr>"
  have now: "now = c (w_env w)" "now \<le> c e" using c m unfolding advancing_def by (metis fst_conv snd_conv)+
  show ?case
  proof (cases "deadline \<le> now \<or> 2 \<le> idle")
    case True
    with m show ?thesis by (subst drain_loop.simps) simp
  next
    case False
    have "c e \<le> c (w_env (nap S ?w))" and "c e < - 1 \<longrightarrow> c e < c (w_env (nap S ?w))"
      using c unfolding advancing_def by (metis world.select_convs(14) world.surjective world.update_convs(14))+
    moreover have "now < - 1" using False by (metis linorder_not_le order_less_le_trans word_order.extremum)
    ultimately have "now < c (w_env (nap S ?w))" using now(2) by (cases "c e = - 1") (auto simp: word_order.not_eq_extremum)
    then have "unat (c (w_env w)) < unat (c (w_env (nap S ?w)))" "unat (c (w_env w)) < unat deadline"
      using False now(1) by (simp_all add: word_less_nat_alt word_le_nat_alt not_le)
    then have "unat deadline - unat (c (w_env (nap S ?w))) < unat deadline - unat (c (w_env w))" by (rule diff_less_mono2)
    from less [OF this] m False show ?thesis by (subst drain_loop.simps) simp
  qed
qed

lemma way_out_returns:
  assumes "advancing c H S"
  shows "\<exists>w'. way_out H S r w = Some w'"
  using drain_loop_returns [OF assms]
  by (auto simp: way_out_def switch_off_def drain_requests_def split: prod.split)

text \<open>Publishing returns where the store is consistent, and the preparation leaves the store alone.\<close>

lemma reap_returns_some:
  assumes "host_maps H" and "store_ok (rt_config_gen r) w"
  shows "reap_configs H r w = Some (reaped (rt_config_gen r) w)"
  unfolding reap_configs_def by (rule reap_loop_reaped) (use assms(1) store_okD(2) [OF assms(2)] in \<open>simp_all add: host_maps_def\<close>)

lemma publish_returns:
  assumes "host_maps H" and "store_ok (rt_config_gen r) w"
  shows "publish H G op (r, w, rs) \<noteq> None"
proof -
  obtain out rs1 where v: "ff_variants G op (unat FF_TEMPLATE_VARIANTS) rs = (out, rs1)" by fastforce
  show ?thesis
  proof (cases out)
    case None
    with v reap_returns_some [OF assms] show ?thesis by (auto simp: publish_def Let_def)
  next
    case (Some tss)
    obtain err w1 where "publish_maps H (rt_config_gen r + 1) op tss (reaped (rt_config_gen r) w) = (err, w1)" by fastforce
    with v Some reap_returns_some [OF assms] show ?thesis by (auto simp: publish_def Let_def)
  qed
qed

lemma run_steps_maintains:
  "(\<And>f r w err r' w'. f \<in> set fs \<Longrightarrow> f (r, w) = (err, r', w') \<Longrightarrow> maintains (r, w) (r', w')) \<Longrightarrow>
   run_steps fs (r, w) = (err, r', w') \<Longrightarrow> maintains (r, w) (r', w')"
proof (induction fs arbitrary: r w)
  case (Cons f fs)
  obtain err1 r1 w1 where f: "f (r, w) = (err1, r1, w1)" by (metis prod_cases3)
  have one: "maintains (r, w) (r1, w1)" by (rule Cons.prems(1) [of f, OF _ f]) simp
  show ?case
  proof (cases err1)
    case True
    with Cons.prems(2) f one show ?thesis by simp
  next
    case False
    with Cons.prems(2) f have run: "run_steps fs (r1, w1) = (err, r', w')" by simp
    have "maintains (r1, w1) (r', w')" by (rule Cons.IH [OF _ run]) (auto intro: Cons.prems(1))
    with one show ?thesis by (rule maintains_trans)
  qed
qed simp

lemma maintains_flags:
  "same_store w w' \<Longrightarrow> rt_config_gen r' = rt_config_gen r \<Longrightarrow> rt_options r' = rt_options r \<Longrightarrow> rt_index r' = rt_index r \<Longrightarrow>
   rt_generation r' = rt_generation r \<Longrightarrow> rt_ingress r' = rt_ingress r \<Longrightarrow> rt_attached r' = rt_attached r \<Longrightarrow> maintains (r, w) (r', w')"
  by (simp add: maintains_def arrays_ok_def)

lemma attach_builder_maintains:
  assumes "attach_builder H idx (r, w) = (err, r', w')"
  shows "maintains (r, w) (r', w')"
proof -
  obtain err1 r1 w1 where a: "attach_one H idx BPF_TC_EGRESS ''ff_drop'' 2 (r, w) = (err1, r1, w1)" by (metis prod_cases3)
  obtain err2 r2 w2 where b: "attach_one H idx BPF_TC_EGRESS ''ff_builder'' 1 (r1, w1) = (err2, r2, w2)" by (metis prod_cases3)
  from assms a b attach_one_maintains [OF a] maintains_trans [OF attach_one_maintains [OF a] attach_one_maintains [OF b]]
  show ?thesis by (cases err1) (auto simp: attach_builder_def)
qed

lemma small_steps_maintain:
  "lock_dir S dir (r, w) = (err, r', w') \<Longrightarrow> maintains (r, w) (r', w')"
  "clear_stale H P (r, w) = (err, r', w') \<Longrightarrow> maintains (r, w) (r', w')"
  "preflight H (r, w) = (err, r', w') \<Longrightarrow> maintains (r, w) (r', w')"
  "load_programs S ob (r, w) = (err, r', w') \<Longrightarrow> maintains (r, w) (r', w')"
  "seed_sequence S (r, w) = (err, r', w') \<Longrightarrow> maintains (r, w) (r', w')"
  "set_lease H on (r, w) = (err, r', w') \<Longrightarrow> maintains (r, w) (r', w')"
  "save H (r, w) = (err, r', w') \<Longrightarrow> maintains (r, w) (r', w')"
  "command S args (r, w) = (err, r', w') \<Longrightarrow> maintains (r, w) (r', w')"
  "no_ipv6 S name (r, w) = (err, r', w') \<Longrightarrow> maintains (r, w) (r', w')"
  "make_tun H S (r, w) = (err, r', w') \<Longrightarrow> maintains (r, w) (r', w')"
  "route_socket S (r, w) = (err, r', w') \<Longrightarrow> maintains (r, w) (r', w')"
  by (auto intro!: maintains_flags simp: lock_dir_def clear_stale_def preflight_def load_programs_def seed_sequence_def set_lease_def
      save_def save_state_def command_def no_ipv6_def make_tun_def route_socket_def lease_def Let_def same_store_def
      split: prod.splits option.splits if_splits)

lemma make_dummy_maintains:
  assumes "make_dummy H S (r, w) = (err, r', w')"
  shows "maintains (r, w) (r', w')"
proof -
  let ?name = "device_name S ''l2''"
  obtain fail e where d: "ff_dummy S (w_env w) = (fail, e)" by fastforce
  show ?thesis
  proof (cases fail)
    case True
    with assms d have "r' = r\<lparr>rt_dummy := []\<rparr>" "w' = w\<lparr>w_env := e\<rparr>" by (simp_all add: make_dummy_def)
    then show ?thesis by (simp add: maintains_flags)
  next
    case False
    obtain idx e1 where 1: "if_nametoindex H ?name e = (idx, e1)" by fastforce
    obtain now e2 where 2: "monotime H e1 = (now, e2)" by fastforce
    let ?r = "r\<lparr>rt_dummy := ?name, rt_l2 := idx, rt_owner := owner_name S now\<rparr>"
    have run: "run_steps [command S [''ip'', ''link'', ''set'', ''dev'', ?name, ''alias'', owner_name S now], save H]
        (?r, w\<lparr>w_env := e2\<rparr>) = (err, r', w')"
      using assms d False 1 2 by (simp add: make_dummy_def Let_def)
    have "maintains (?r, w\<lparr>w_env := e2\<rparr>) (r', w')"
      by (rule run_steps_maintains [OF _ run]) (auto intro: small_steps_maintain(7,8))
    moreover have "maintains (r, w) (?r, w\<lparr>w_env := e2\<rparr>)" by (simp add: maintains_flags)
    ultimately show ?thesis using maintains_trans by blast
  qed
qed

lemma private_device_maintains:
  assumes "private_device H S idx name (r, w) = (err, r', w')"
  shows "maintains (r, w) (r', w')"
  by (rule run_steps_maintains [OF _ assms [unfolded private_device_def]]) (auto intro: attach_builder_maintains small_steps_maintain(8,9))

lemma private_devices_maintain:
  assumes "private_devices H S (r, w) = (err, r', w')"
  shows "maintains (r, w) (r', w')"
proof -
  obtain err1 r1 w1 where a: "private_device H S (rt_l2 r) (rt_dummy r) (r, w) = (err1, r1, w1)" by (metis prod_cases3)
  obtain err2 r2 w2 where b: "private_device H S (rt_l3 r1) (rt_tun_name r1) (r1, w1) = (err2, r2, w2)" by (metis prod_cases3)
  from assms a b private_device_maintains [OF a] maintains_trans [OF private_device_maintains [OF a] private_device_maintains [OF b]]
  show ?thesis by (auto simp: private_devices_def split: if_splits)
qed

lemma prepare_maintains:
  assumes "prepare H S P ob dir (r, w) = (err, r', w')"
  shows "maintains (r, w) (r', w')"
  by (rule run_steps_maintains [OF _ assms [unfolded prepare_def]]) (auto intro: small_steps_maintain make_dummy_maintains private_devices_maintain)

section \<open>The start and the turns\<close>

lemma bring_up_returns:
  assumes H: "host_maps H" and ok: "store_ok (rt_config_gen r) w"
  shows "bring_up H G dir (r, w, rs) \<noteq> None"
proof -
  obtain e1 r1 w1 where rf: "refresh H True (r, w) = (e1, r1, w1)" by (metis prod_cases3)
  note m = refresh_maintains [OF rf, unfolded maintains_def fst_conv snd_conv]
  have "store_ok (rt_config_gen r1) w1" using m ok store_ok_same [of w w1 "rt_config_gen r"] by simp
  then obtain e2 r2 w2 rs2 where p: "publish H G (rt_options r1) (r1, w1, rs) = Some (e2, r2, w2, rs2)"
    using publish_returns [OF H] by fast
  obtain e3 r3 w3 where so: "control_socket H dir (r2, w2) = (e3, r3, w3)" by (metis prod_cases3)
  obtain e4 w4 where "lease H r3 True w3 = (e4, w4)" by fastforce
  with rf p so show ?thesis by (auto simp: bring_up_def)
qed

lemma reload_returns:
  assumes H: "host_maps H" and ok: "daemon_ok (r, w, rs0)"
  shows "reload H G files path (r, w, rs) \<noteq> None"
proof -
  obtain out rs1 where rd: "ff_config_read G files path rs = (out, rs1)" by fastforce
  have st: "store_ok (rt_config_gen r) w" using ok by (simp add: daemon_ok_def)
  show ?thesis
  proof (cases out)
    case (Inl e)
    with rd show ?thesis by (simp add: reload_def)
  next
    case (Inr op)
    obtain e r1 w1 rs2 where "publish H G op (r, w, rs1) = Some (e, r1, w1, rs2)" using publish_returns [OF H st] by fast
    with Inr rd show ?thesis by (simp add: reload_def)
  qed
qed

lemma upkeep_returns:
  assumes H: "host_maps H" and ok: "daemon_ok (r, w, rs)"
  shows "upkeep H now (lp, r, w) \<noteq> None"
proof -
  obtain e1 r1 w1 where rf: "refresh H False (r, w) = (e1, r1, w1)" by (metis prod_cases3)
  obtain e2 w2 where le: "lease H r1 True w1 = (e2, w2)" by fastforce
  have "daemon_ok (r1, w2, rs)"
    by (rule maintains_ok [OF maintains_trans [OF refresh_maintains [OF rf] lease_maintains [OF le]] ok])
  then have "reap_configs H r1 w2 = Some (reaped (rt_config_gen r1) w2)"
    by (intro reap_returns_some [OF H]) (simp add: daemon_ok_def)
  with rf le show ?thesis by (auto simp: upkeep_def)
qed

lemma serve_returns:
  assumes H: "host_maps H" and ok: "daemon_ok (r, w, rs)"
  shows "serve H G files text (lp, r, w, rs) \<noteq> None"
proof -
  have reload: "serve_reload H G files command (lp, r, w, rs) \<noteq> None" for command
  proof -
    let ?sel = "if 6 < length command then drop 7 command else lp_path lp"
    obtain res r1 w1 rs1 where "reload H G files ?sel (r, w, rs) = Some (res, r1, w1, rs1)"
      using reload_returns [OF H ok] by fast
    then show ?thesis by (simp add: serve_reload_def Let_def split: prod.split)
  qed
  show ?thesis unfolding serve_def Let_def prod.case using reload [of "command_line text"] by (simp del: not_None_eq)
qed

text \<open>Any kernel will do to speak of the steps: its programs do not run inside a turn.\<close>

lemma steps_ok: "host_maps H \<Longrightarrow> daemon_ok a \<Longrightarrow> daemon_steps H G (undefined\<lparr>clone_redirect := \<lambda>s j w. (False, w)\<rparr>) a b \<Longrightarrow> daemon_ok b"
  by (rule daemon_steps_ok) (auto simp: store_clone_def)
lemma turn_returns:
  assumes H: "host_maps H" and ok: "daemon_ok (r, w, rs)"
  shows "turn H G files input (lp, r, w, rs) \<noteq> None"
proof -
  obtain now e where t: "monotime H (w_env w) = (now, e)" by fastforce
  have ok0: "daemon_ok (r, w\<lparr>w_env := e\<rparr>, rs)" by (rule same_store_ok [OF _ ok]) simp
  obtain err lp1 r1 w1 where u: "upkeep H now (lp, r, w\<lparr>w_env := e\<rparr>) = Some (err, lp1, r1, w1)"
    using upkeep_returns [OF H ok0] by fast
  note ok1 = steps_ok [OF H ok0 upkeep_steps [OF u]]
  show ?thesis
  proof (cases err)
    case True
    with t u show ?thesis by (simp add: turn_def)
  next
    case False
    have "signal_reload H G files now (lp1, r1, w1, rs) \<noteq> None"
      using reload_returns [OF H ok1, of G files "lp_path lp1" rs] by (auto simp: signal_reload_def)
    then obtain lp2 r2 w2 rs2 where s: "signal_reload H G files now (lp1, r1, w1, rs) = Some (lp2, r2, w2, rs2)" by fast
    note ok2 = steps_ok [OF H ok1 signal_reload_steps [OF s]]
    show ?thesis
    proof (cases input)
      case PollError
      with t u False s show ?thesis by (simp add: turn_def)
    next
      case (Polled es cmd)
      obtain r3 w3 where l: "link_events H es (r2, w2) = (r3, w3)" by fastforce
      note ok3 = steps_ok [OF H ok2 link_events_steps [OF l]]
      show ?thesis
      proof (cases cmd)
        case None
        with t u False s Polled l show ?thesis by (simp add: turn_def)
      next
        case (Some msg)
        obtain reply lp4 r4 w4 rs4 where "serve H G files msg (lp2, r3, w3, rs2) = Some (reply, lp4, r4, w4, rs4)"
          using serve_returns [OF H ok3] by fast
        with t u False s Polled l Some show ?thesis by (simp add: turn_def)
      qed
    qed
  qed
qed

text \<open>Between two turns the published maps stay as they are: only the daemon writes them.\<close>

definition input_kept :: "'e input \<Rightarrow> bool" where
  "input_kept i \<longleftrightarrow> (\<forall>w. same_store w (in_meanwhile i w))"

lemma ff_loop_returns:
  assumes H: "host_maps H"
  shows "daemon_ok (r, w, rs) \<Longrightarrow> list_all input_kept is \<Longrightarrow> ff_loop H G is (lp, r, w, rs) \<noteq> None"
proof (induction "is" arbitrary: lp r w rs)
  case (Cons i "is")
  let ?lp = "fold on_signal (in_signals i) lp" and ?w = "in_meanwhile i w"
  have ok: "daemon_ok (r, ?w, rs)" by (rule same_store_ok [OF _ Cons.prems(1)]) (use Cons.prems(2) in \<open>simp add: input_kept_def\<close>)
  show ?case
  proof (cases "lp_quitting ?lp")
    case True
    then show ?thesis by (simp add: Let_def)
  next
    case False
    obtain stop reply lp1 r1 w1 rs1 where t: "turn H G (in_files i) (in_poll i) (?lp, r, ?w, rs) = Some (stop, reply, lp1, r1, w1, rs1)"
      using turn_returns [OF H ok] by fast
    have "ff_loop H G is (lp1, r1, w1, rs1) \<noteq> None"
      by (rule Cons.IH [OF steps_ok [OF H ok turn_steps [OF t]]]) (use Cons.prems(2) in simp)
    with False t show ?thesis by (cases stop) (auto simp: Let_def)
  qed
qed simp

section \<open>The property\<close>

text \<open>
  Property C34. \<open>ff_run\<close> never hangs: for every configuration, every failure of the system and every finite
  sequence of events, the run has a result, an exit status or a daemon that waits for the next event. The
  loops over the maps end, and so does the wait for outstanding requests on the way out.
\<close>
theorem run_returns:
  assumes H: "host_maps H" and c: "advancing c H S" and I: "list_all input_kept inputs"
    and fresh: "m_configs w = Map.empty" "m_templates w = Map.empty"
  shows "\<exists>rc w' rs'. ff_run H S P G files path object dir inputs (w, rs) = Some (rc, w', rs')"
proof -
  have serve: "ff_serve H S P G path object dir inputs (new_runtime op dir, w\<lparr>w_env := e\<rparr>, rs1) \<noteq> None"
    if rd: "ff_config_read G files path rs = (Inr op, rs1)" for op rs1 e
  proof -
    note acc = ff_config_read_accepted [OF rd]
    let ?r = "new_runtime op dir" and ?w = "w\<lparr>w_env := e\<rparr>"
    obtain err r1 w1 where p: "prepare H S P object dir (?r, ?w) = (err, r1, w1)" by (metis prod_cases3)
    note m = prepare_maintains [OF p, unfolded maintains_def fst_conv snd_conv]
    have arr: "arrays_ok ?r" using accepted_devices [OF acc(1)] by (simp add: arrays_ok_def new_runtime_def)
    have start: "rt_config_gen r1 = 0" "rt_options r1 = op" "arrays_ok r1" "m_configs w1 = Map.empty" "m_templates w1 = Map.empty"
      using m arr fresh by (simp_all add: new_runtime_def same_store_def)
    have "store_ok (rt_config_gen r1) w1" using empty_store_ok [OF start(4,5)] start(1) by simp
    then obtain e2 r2 w2 rs2 where up: "bring_up H G dir (r1, w1, rs1) = Some (e2, r2, w2, rs2)"
      using bring_up_returns [OF H] by fast
    show ?thesis
    proof (cases "err \<or> e2")
      case True
      with p up show ?thesis by (cases err) (auto simp: ff_serve_def)
    next
      case False
      with up have "bring_up H G dir (r1, w1, rs1) = Some (False, r2, w2, rs2)" by simp
      from bring_up_ok [OF H _ _ start(1,3-5) this] acc start(2) have "daemon_ok (r2, w2, rs2)" by simp
      from ff_loop_returns [OF H this I] p up False show ?thesis by (simp add: ff_serve_def)
    qed
  qed
  obtain out rs1 where rd: "ff_config_read G files path rs = (out, rs1)" by fastforce
  have "ff_run H S P G files path object dir inputs (w, rs) \<noteq> None"
  proof (cases out)
    case (Inl x)
    with rd show ?thesis by (simp add: ff_run_def)
  next
    case (Inr op)
    obtain err e where d: "runtime_dir S dir (w_env w) = (err, e)" by fastforce
    obtain rc r1 w1 rs2 where "ff_serve H S P G path object dir inputs (new_runtime op dir, w\<lparr>w_env := e\<rparr>, rs1) = Some (rc, r1, w1, rs2)"
      using serve [of op rs1 e] rd Inr by fast
    moreover obtain w2 where "way_out H S r1 w1 = Some w2" using way_out_returns [OF c] by blast
    ultimately show ?thesis using rd Inr d by (cases rc) (auto simp: ff_run_def Let_def)
  qed
  then show ?thesis by fast
qed

section \<open>Witness\<close>

text \<open>The sample host, and a system whose naps advance the clock until it is at its end; one event, then a signal.\<close>

definition clock_sys :: "u64 sys" where
  "clock_sys = \<lparr>pid = 1, is_root = True, make_dir = (\<lambda>d e. (False, e)), private_dir = (\<lambda>d e. (True, e)),
     open_lock = (\<lambda>p e. (True, e)), take_lock = (\<lambda>e. (True, e)), raise_memlock = (\<lambda>e. e),
     open_object = (\<lambda>p e. (True, e)), load_object = (\<lambda>t u e. (True, e)),
     random_seed = (\<lambda>e. (Some 5, e)), sequence_update = (\<lambda>k v m. (False, m(k \<mapsto> v))),
     run_command = (\<lambda>args e. (Exited 0, e)), open_tun = (\<lambda>e. (True, e)), name_tun = (\<lambda>n e. (Some n, e)),
     disable_ipv6 = (\<lambda>n e. (Written, e)), netlink_socket = (\<lambda>e. (True, e)), netlink_bind = (\<lambda>e. (True, e)),
     close_handle = (\<lambda>h e. e), unlink_file = (\<lambda>p e. e), no_requests = (\<lambda>m. False),
     nap = (\<lambda>w. w\<lparr>w_env := if w_env w < - 1 then w_env w + 1 else - 1\<rparr>)\<rparr>"

definition steady_host :: "u64 host" where
  "steady_host = sample_host\<lparr>monotime := (\<lambda>e. (e, e))\<rparr>"

definition still_past :: "u64 past" where
  "still_past = \<lparr>state_file = (\<lambda>e. (None, e)), ifalias = (\<lambda>n e. (None, e)), delete_device = (\<lambda>n e. e)\<rparr>"

definition two_inputs :: "u64 input list" where
  "two_inputs = [\<lparr>in_signals = [], in_meanwhile = (\<lambda>w. w), in_files = org_files, in_poll = Polled [EventsLost] (Some ''status'')\<rparr>,
     \<lparr>in_signals = [SIGTERM], in_meanwhile = (\<lambda>w. w), in_files = org_files, in_poll = PollError\<rparr>]"

lemma clock_next: "w < w + 1" if "w < - 1" for w :: u64
proof -
  have "unat (- 1 :: u64) = 2 ^ 64 - 1" by (simp add: unsigned_minus_1_eq_mask mask_eq_exp_minus_1)
  then have "unat w < 2 ^ 64 - 1" using that by (simp only: word_less_nat_alt)
  then show ?thesis by (simp add: word_less_nat_alt unat_word_ariths)
qed

lemma steady_contracts: "host_maps steady_host" "advancing (\<lambda>e. e) steady_host clock_sys" "list_all input_kept two_inputs"
proof -
  show "advancing (\<lambda>e. e) steady_host clock_sys"
    using clock_next by (auto simp: advancing_def steady_host_def clock_sys_def word_order.not_eq_extremum intro: less_imp_le)
qed (use sized_host_maps [OF sample_host_sized] in \<open>simp_all add: host_maps_def iterates_def steady_host_def input_kept_def two_inputs_def\<close>)

theorem run_returns_witness:
  "\<exists>rc w' rs'. ff_run steady_host clock_sys still_past counting_source org_files ''/c'' ''/o'' ''/run/ff'' two_inputs (empty_world, 0) =
     Some (rc, w', rs')"
  by (rule run_returns [OF steady_contracts]) (simp_all add: empty_world_def)

end
