(* ===== verification/Spec2Isabelle.thy ===== *)
theory Spec2Isabelle
  imports Revoke Duties Returns
begin

text \<open>
  A verification library for fake-flow, which injects decoy packets into new connections of a router.

  \<^bold>\<open>The program.\<close> A daemon (\<open>ebpf/user\<close>) reads a configuration file, renders the payloads of
  the decoys, loads TC programs (\<open>ebpf/bpf\<close>) and publishes configuration and payloads to them through
  maps, one generation after the other; afterwards it renews a lease every two seconds, follows the
  interfaces, and serves reloads and queries. The observer (\<open>observer.bpf.c\<close> with \<open>parse.h\<close>,
  \<open>tcp.h\<close>, \<open>udp.h\<close>) sees every packet of a WAN interface, tracks flows, and on a trigger enters a
  request into a map and clones the packet to a private device. There the builder
  (\<open>builder.bpf.c\<close>) claims the request, turns the clone into the decoy and redirects it to the WAN
  interface, where the observer's egress hook passes it once and spends the request.

  \<^bold>\<open>Theories and sources.\<close>
  \<^item> \<open>Prelude\<close>: lists of bytes, words as numbers, the locales of the library (\<open>quota\<close>, \<open>paced\<close> and \<open>limiter\<close>: steps
    that emit, bounded in number, in spacing or by an account; \<open>frame\<close> and \<open>preserved\<close>: what
    sequences of steps leave alone).
  \<^item> \<open>Abi\<close>, \<open>Maps\<close>: \<open>include/abi.h\<close> and \<open>bpf/maps.h\<close>; the maps are the fields of \<open>world\<close>,
    the kernel helpers the fields of \<open>kern\<close>. \<open>Skb\<close> states what the kernel documents of the helpers
    and instantiates them with lists of bytes; \<open>Samples\<close> has concrete packets and maps.
  \<^item> \<open>Parse\<close>, \<open>Remote\<close>: \<open>parse\<close> and \<open>remote_allowed\<close> of \<open>bpf/parse.h\<close>.
  \<^item> \<open>TcpOptions\<close>, \<open>Tcp\<close>, \<open>Udp\<close>: the option scanner, the rotation, the flow tables and the
    triggers of \<open>bpf/tcp.h\<close> and \<open>bpf/udp.h\<close>.
  \<^item> \<open>Budget\<close>, \<open>Emit\<close>, \<open>Observer\<close>: \<open>reserve\<close>, \<open>emit\<close> and \<open>observe\<close> of
    \<open>bpf/observer.bpf.c\<close>; \<open>Builder\<close> the whole of \<open>bpf/builder.bpf.c\<close>; \<open>Fake\<close> what it builds.
  \<^item> \<open>Requests\<close>: a request across all three programs.
  \<^item> \<open>Options\<close>, \<open>Templates\<close>: \<open>user/fakeflow.h\<close> and \<open>user/templates.c\<close>; \<open>Hello\<close> and
    \<open>Variants\<close> what the renderer produces.
  \<^item> \<open>Config\<close>: \<open>user/config.c\<close>, line by line and key by key; \<open>Reading\<close> the ranges every step
    keeps, \<open>Accepted\<close> what an accepted file gives.
  \<^item> \<open>Attach\<close>: \<open>user/attach.c\<close>, over a record \<open>host\<close> of the calls into the kernel.
  \<^item> \<open>Lifecycle\<close>, \<open>Loop\<close>: \<open>user/lifecycle.c\<close>, its operations and its event loop; \<open>Entry\<close> its
    log stream, the client and \<open>user/main.c\<close>.
  \<^item> \<open>Recover\<close>: what a new daemon does with the state file of its predecessor (\<open>stale_filters\<close>).
  \<^item> \<open>Publish\<close>: publishing and reaping. \<open>Store\<close>: the published maps as the programs see them.
    \<open>Daemon\<close>: daemon and programs as one step relation. \<open>Revoke\<close>: the numbers of attachments
    over that relation. \<open>Duties\<close>: what one turn of the event loop does to the lease, the generations and its
    own variables.
  \<^item> \<open>Run\<close>: \<open>ff_run\<close> as a whole, over a record \<open>sys\<close> of the calls into the system: the checks, the
    preparation step by step, the loop over a list of events, the way out. \<open>Ledger\<close> and \<open>Release\<close>: the
    resources a run takes and gives back. \<open>Returns\<close>: a run returns.

  \<^bold>\<open>State.\<close> A program or handler is a function of the packet and the world that returns both
  changed. Structures are records with the source's fields, machine integers words of their width, so
  wrap-around is in the definitions. A null pointer or an error return is \<open>None\<close>, \<open>Inl\<close> or a
  boolean \<open>True\<close>. The kernel, the random source, the file system and the host's calls are parameters:
  record fields or functions over a private state. What a theorem needs of them is a named predicate
  (\<open>faithful_load\<close>, \<open>writable_access\<close>, \<open>hash_insert\<close>, \<open>tame_clone\<close>, \<open>store_clone\<close>,
  \<open>host_maps\<close>, \<open>delivers\<close> and others), satisfied by the list-backed kernel, the sample host and the
  counting random source in the witnesses. The clone helper's contracts are not only assumed:
  \<open>connected\<close> runs the modelled builder and egress hook, and \<open>Requests\<close> and \<open>Store\<close> show that
  it keeps them.

  \<^bold>\<open>What is shown.\<close> The parser stays inside the packet; option rewriting is atomic and exact, and the
  callback computes the recursive reading of the options. A trigger answers a recorded SYN, is bounded in
  number and spacing, and keeps its pinned rule; the rate limit is a token bucket. The observer
  fails open and changes nothing but Fast Open options. A built decoy has the promised headers, checksum
  and payload; a request is claimed at most once, passed at most once and leaves nothing behind.
  Accepted options are well typed, rendered templates are what their type asks for, and variants differ
  only where they may. Reaping ends, a publication is atomic and has room, and in every reachable state of
  daemon and programs the template the observer picks is there, unless a connection has pinned a rule that
  a reload removed, in which case the clone is dropped. A request never outlives the attachment of its
  interface. The state file reads back as it was written. A turn of the event loop renews the lease in
  time, reaps only when no reload was recent and stamps every reload. A run of the daemon returns, whatever fails, and when it
  does, its lease is over and every filter, link, device and handle it took was given back, except those about which the
  last call that attached, looked up, detached, added or deleted them reported a failure: the contract of the calls
  (\<open>host_accounts\<close>, \<open>sys_accounts\<close>) keeps a log of these.

  \<^bold>\<open>Interleaving.\<close> A step of \<open>Daemon\<close> is one operation of the daemon or one packet through one
  program, with the clones it causes; between steps anything may happen to the environment. Steps
  are atomic: a race inside one (two CPUs in one program, a packet in the middle of a publication) is
  not modelled, apart from what the insert helpers return and from the compare-and-swap on a request.

  \<^bold>\<open>Bounds and fuel.\<close> Loops that the source bounds carry its bound as a number: 40 option bytes,
  8 copies, 64 blocks of an old checksum, 15 chunks of a payload, each enough for the largest packet the
  guards before them let through. The loop over the map of configurations starts again after each
  deletion, so it is a partial function with an option result; \<open>reap_returns\<close> shows that it ends. The wait for
  requests on the way out is one too; \<open>run_returns\<close> shows that it ends when the clock advances.

  \<^bold>\<open>Not modelled.\<close> What a system call does inside is a parameter: forking and executing \<open>tc\<close> and \<open>ip\<close>,
  the ioctls, opening sockets and files, loading the programs. Accepting a connection, the credentials of its
  peer and the pieces in which a command arrives are the input of a turn (\<open>polled\<close>). What \<open>ff_check\<close> and the
  usage text print is left out: they move text without a decision of their own. A counter is one number, the sum
  over the CPUs, and the two error texts of \<open>stats_json\<close> (no CPU count, no memory) are left out. \<open>publish\<close> in
  C also writes into the options it is given, even when it fails; a reload gives it a copy of its own, and the start, which gives
  it those of the daemon, ends the run then. A read error in the
  middle of a file is not distinguished from its end. The transport checksum of a decoy is what the
  kernel's checksum helper makes of the deltas; the deltas are modelled, its value is not proved. A signal is
  seen at the start of a turn.

  \<^bold>\<open>Known limits of the code.\<close> The daemon strikes a filter from its table, and on its way out removes the state file, also
  when the filter could not be detached, so no later start looks for it; a dummy device is not looked for either when the \<open>ip\<close> that
  added it was killed or failed, or when it could not be deleted. \<open>fold_checksum\<close> loses a carry for sums of \<open>2 ^ 32\<close> and more, which
  no caller passes. A request whose clone is lost before it reaches the egress hook stays in state 2
  and occupies one of the 256 entries. The number of attachments is 32 bits wide; \<open>Revoke\<close> speaks of
  runs that have not used them up (\<open>early_step\<close>). The rotation's cursor is cut to 32 bits, so with three rules it
  skips once when it wraps around.
\<close>

end
